theory Spec2Isabelle
  imports Main "HOL-Library.Word" "HOL-Library.Signed_Division" "HOL-Library.Monad_Syntax"
begin

unbundle bit_operations_syntax

section \<open>Entity handles (fecs.h, region ENTITY_CORE)\<close>

text \<open>
  \<^verbatim>\<open>fecs_id\<close> is \<^verbatim>\<open>std::uint32_t\<close> and \<^verbatim>\<open>storage_id\<close> is \<^verbatim>\<open>std::uint64_t\<close>: the slot index
  and the generation of a handle are machine words, so that \<^verbatim>\<open>++\<close>, the shifts and the
  narrowing casts behave as in the source. \<^verbatim>\<open>component_id\<close> and \<^verbatim>\<open>table_id\<close> (also
  \<^verbatim>\<open>std::uint32_t\<close>) and the \<^verbatim>\<open>std::uint32_t\<close> row of a location only ever hold container
  sizes and indices; they are natural numbers, with \<open>mod 2 ^ 32\<close> written where the source
  narrows a \<^verbatim>\<open>std::size_t\<close> to 32 bits. \<^verbatim>\<open>std::size_t\<close> sizes and capacities are natural
  numbers.
\<close>

type_synonym fecs_id = "32 word"
type_synonym storage_id = "64 word"
type_synonym component_id = nat
type_synonym table_id = nat

definition INVALID_ID :: component_id where
  "INVALID_ID = 4294967295"

definition INVALID_TABLE :: table_id where
  "INVALID_TABLE = 4294967295"

definition INVALID_ENTITY :: storage_id where
  "INVALID_ENTITY = - 1"

text \<open>\<^verbatim>\<open>struct entity { storage_id value; }\<close>\<close>

datatype entity = Entity (entity_value: storage_id)

text \<open>\<^verbatim>\<open>entity((static_cast<storage_id>(index) << 32u) | static_cast<storage_id>(generation))\<close>\<close>

definition entity_make :: "fecs_id \<Rightarrow> fecs_id \<Rightarrow> entity" where
  "entity_make index generation =
     Entity (push_bit 32 (ucast index :: storage_id) OR (ucast generation :: storage_id))"

definition entity_index :: "entity \<Rightarrow> fecs_id" where
  "entity_index e = ucast (drop_bit 32 (entity_value e))"

definition entity_generation :: "entity \<Rightarrow> fecs_id" where
  "entity_generation e = ucast (entity_value e)"

definition entity_valid :: "entity \<Rightarrow> bool" where
  "entity_valid e = (entity_value e \<noteq> INVALID_ENTITY)"

subsection \<open>The entity manager\<close>

record entity_manager =
  generations :: "fecs_id list"
  fragment :: "fecs_id list"
  alive_count :: "32 word"

definition em_init :: entity_manager where
  "em_init = \<lparr>generations = [], fragment = [], alive_count = 0\<rparr>"

definition em_alive :: "entity_manager \<Rightarrow> entity \<Rightarrow> bool" where
  "em_alive m e =
     (if \<not> entity_valid e then False
      else unat (entity_index e) < length (generations m) \<and>
           generations m ! unat (entity_index e) = entity_generation e)"

text \<open>
  \<^verbatim>\<open>create_entity\<close> pops the back of the free list when it is not empty and grows
  \<^verbatim>\<open>generations_\<close> otherwise; the new index is \<^verbatim>\<open>static_cast<fecs_id>(generations_.size())\<close>.
  The read \<^verbatim>\<open>generations_[index]\<close> is unchecked in the source: out of range it is
  undefined behaviour, here \<open>None\<close>.
\<close>

definition em_create_entity :: "entity_manager \<Rightarrow> (entity \<times> entity_manager) option" where
  "em_create_entity m =
     (let (index, m1) =
            (if fragment m \<noteq> []
             then (last (fragment m), m\<lparr>fragment := butlast (fragment m)\<rparr>)
             else (word_of_nat (length (generations m)),
                   m\<lparr>generations := generations m @ [0]\<rparr>))
      in if unat index < length (generations m1)
         then Some (entity_make index (generations m1 ! unat index),
                    m1\<lparr>alive_count := alive_count m1 + 1\<rparr>)
         else None)"

definition em_destroy_entity :: "entity_manager \<Rightarrow> entity \<Rightarrow> entity_manager" where
  "em_destroy_entity m e =
     (if \<not> em_alive m e then m
      else let index = entity_index e
           in m\<lparr>generations := (generations m)[unat index := generations m ! unat index + 1],
                fragment := fragment m @ [index],
                alive_count := alive_count m - 1\<rparr>)"

text \<open>
  The states of the manager that its own interface produces. A handle that is alive and
  whose slot is not on the free list is exactly a handle that \<^verbatim>\<open>create_entity\<close> returned
  and that has not been destroyed since.
\<close>

inductive em_reachable :: "entity_manager \<Rightarrow> bool" where
  em_reach_init: "em_reachable em_init"
| em_reach_create: "em_reachable m \<Longrightarrow> em_create_entity m = Some (e, m') \<Longrightarrow> em_reachable m'"
| em_reach_destroy: "em_reachable m \<Longrightarrow> em_alive m e \<Longrightarrow> entity_index e \<notin> set (fragment m)
     \<Longrightarrow> em_reachable (em_destroy_entity m e)"

text \<open>The free list holds each free slot once, and only slots that exist.\<close>

definition em_inv :: "entity_manager \<Rightarrow> bool" where
  "em_inv m = (distinct (fragment m) \<and> list_all (\<lambda>i. unat i < length (generations m)) (fragment m))"

text \<open>
  A driver for the manager: \<open>em_next_recycled m i ops\<close> runs the calls \<open>ops\<close> from \<open>m\<close> and
  returns the first handle that \<^verbatim>\<open>create_entity\<close> hands out for slot \<open>i\<close>; it is \<open>None\<close>
  when the calls end before that.
\<close>

datatype em_op = Op_create | Op_destroy entity

fun em_next_recycled :: "entity_manager \<Rightarrow> fecs_id \<Rightarrow> em_op list \<Rightarrow> entity option" where
  "em_next_recycled m i [] = None"
| "em_next_recycled m i (Op_create # ops) =
     (case em_create_entity m of
        None \<Rightarrow> None
      | Some (e', m') \<Rightarrow> if entity_index e' = i then Some e' else em_next_recycled m' i ops)"
| "em_next_recycled m i (Op_destroy e0 # ops) = em_next_recycled (em_destroy_entity m e0) i ops"

text \<open>
  No call of the run \<open>ops\<close> from \<open>m\<close> destroys a handle that passes \<^verbatim>\<open>alive\<close> while its slot
  is on the free list. A handle that \<^verbatim>\<open>create_entity\<close> returned and that has not been
  destroyed since is never such a handle; a destroyed handle is one only after its
  generation has come round again.
\<close>

fun em_run_clean :: "entity_manager \<Rightarrow> em_op list \<Rightarrow> bool" where
  "em_run_clean m [] = True"
| "em_run_clean m (Op_create # ops) =
     (case em_create_entity m of None \<Rightarrow> True | Some (e', m') \<Rightarrow> em_run_clean m' ops)"
| "em_run_clean m (Op_destroy e0 # ops) =
     (\<not> (em_alive m e0 \<and> entity_index e0 \<in> set (fragment m))
      \<and> em_run_clean (em_destroy_entity m e0) ops)"

text \<open>Slot \<open>i\<close> is on the free list and its stored generation is \<open>g\<close>.\<close>

definition em_slot_free :: "entity_manager \<Rightarrow> fecs_id \<Rightarrow> fecs_id \<Rightarrow> bool" where
  "em_slot_free m i g =
     (i \<in> set (fragment m) \<and> unat i < length (generations m) \<and> generations m ! unat i = g)"

section \<open>The frame scheduler (optimized_renderer.cpp)\<close>

definition kWorkerCount :: int where
  "kWorkerCount = 5"

definition kTotalSlices :: int where
  "kTotalSlices = kWorkerCount + 1"

definition kRowAlign :: int where
  "kRowAlign = 4"

record worker_range =
  y0 :: int
  y1 :: int

text \<open>
  The body of the \<^verbatim>\<open>for (int s = 0; s < total; ++s)\<close> loop of \<^verbatim>\<open>compute_slice_ranges\<close>:
  \<open>slice_loop h base rem s y n\<close> runs the \<open>n\<close> iterations that start at slice \<open>s\<close> with the
  running row \<open>y\<close> and returns the ranges it stores. \<^verbatim>\<open>/\<close> and \<^verbatim>\<open>%\<close> on \<^verbatim>\<open>int\<close> truncate
  towards zero (\<open>sdiv\<close>, \<open>smod\<close>).
\<close>

fun slice_loop :: "int \<Rightarrow> int \<Rightarrow> int \<Rightarrow> int \<Rightarrow> int \<Rightarrow> nat \<Rightarrow> worker_range list" where
  "slice_loop h base rem s y 0 = []"
| "slice_loop h base rem s y (Suc n) =
     (let slice_h = base + (if s < rem then 1 else 0);
          y0 = y;
          y1 = y + slice_h - 1;
          y1 = (if s = kTotalSlices - 1 then h - 1
                else let aligned_end = ((y1 + 1 + (kRowAlign - 1)) sdiv kRowAlign) * kRowAlign - 1
                     in if aligned_end < h - 1 then aligned_end else y1)
      in \<lparr>y0 = y0, y1 = y1\<rparr> # slice_loop h base rem (s + 1) (y1 + 1) n)"

definition compute_slice_ranges :: "32 word \<Rightarrow> worker_range list" where
  "compute_slice_ranges H =
     (let total = kTotalSlices;
          h = sint H;
          base = h sdiv total;
          rem = h smod total
      in slice_loop h base rem 0 0 (nat total))"

text \<open>
  The rows a range hands to \<^verbatim>\<open>draw_world_slice\<close>: the worker loop and \<^verbatim>\<open>draw_world\<close> run
  a range only \<^verbatim>\<open>if (r.y0 <= r.y1)\<close>, and the slice then visits the rows \<open>y0..y1\<close>.
\<close>

definition range_rows :: "worker_range \<Rightarrow> int list" where
  "range_rows r = (if y0 r \<le> y1 r then [y0 r..y1 r] else [])"

definition slice_rows :: "32 word \<Rightarrow> int list" where
  "slice_rows H = concat (map range_rows (compute_slice_ranges H))"


section \<open>Components and archetype keys (fecs.h, COMPONENT_CORE and ARCHETYPE_SIGNATURE)\<close>

text \<open>
  Every fallible step of the source is a branch of the model: an \<^verbatim>\<open>assert\<close> that fails, an
  unchecked index out of range, a \<^verbatim>\<open>vector::at\<close> that throws inside a \<^verbatim>\<open>noexcept\<close>
  function and a probe loop that does not end are \<open>None\<close>.

  \<open>map_all f xs\<close> runs a fallible step on every element of a vector, in order.
\<close>

primrec map_all :: "('a \<Rightarrow> 'b option) \<Rightarrow> 'a list \<Rightarrow> 'b list option" where
  "map_all f [] = Some []"
| "map_all f (x # xs) =
     (case f x of
        None \<Rightarrow> None
      | Some y \<Rightarrow> (case map_all f xs of None \<Rightarrow> None | Some ys \<Rightarrow> Some (y # ys)))"

text \<open>
  A component type \<^verbatim>\<open>T\<close> is named by its \<^verbatim>\<open>std::type_index\<close>. The store is type-erased:
  all component values live in one value type \<open>'v\<close>. Of the three registered operations,
  \<^verbatim>\<open>default_ctor\<close> is given by the value \<^verbatim>\<open>T()\<close> it constructs; \<^verbatim>\<open>move_ctor\<close> copies the
  source cell to the destination (components are plain data) and \<^verbatim>\<open>dtor\<close> leaves raw
  storage behind, for every type alike.
\<close>

type_synonym type_index = nat

record 'v component_info =
  ci_id :: component_id
  ci_type :: type_index
  ci_size :: nat
  ci_alignment :: nat
  ci_default_ctor :: 'v

record 'v component_registry =
  type_ids :: "(type_index \<times> component_id) list"
  type_infos :: "'v component_info list"

definition registry_init :: "'v component_registry" where
  "registry_init = \<lparr>type_ids = [], type_infos = []\<rparr>"

text \<open>\<^verbatim>\<open>add<T>()\<close>, with \<^verbatim>\<open>sizeof(T)\<close>, \<^verbatim>\<open>alignof(T)\<close> and \<^verbatim>\<open>T()\<close> as arguments.\<close>

definition registry_add ::
  "'v component_registry \<Rightarrow> type_index \<Rightarrow> nat \<Rightarrow> nat \<Rightarrow> 'v \<Rightarrow> component_id \<times> 'v component_registry" where
  "registry_add reg ty sz al dflt =
     (case map_of (type_ids reg) ty of
        Some cid \<Rightarrow> (cid, reg)
      | None \<Rightarrow>
          let cid = length (type_infos reg) mod 2 ^ 32;
              info = \<lparr>ci_id = cid, ci_type = ty, ci_size = sz, ci_alignment = al,
                      ci_default_ctor = dflt\<rparr>
          in (cid, reg\<lparr>type_ids := (ty, cid) # type_ids reg,
                       type_infos := type_infos reg @ [info]\<rparr>))"

text \<open>\<^verbatim>\<open>get_id<T>()\<close> asserts that the type is registered.\<close>

definition registry_get_id :: "'v component_registry \<Rightarrow> type_index \<Rightarrow> component_id option" where
  "registry_get_id reg ty = map_of (type_ids reg) ty"

definition registry_get_info :: "'v component_registry \<Rightarrow> component_id \<Rightarrow> 'v component_info option" where
  "registry_get_info reg cid =
     (if cid < length (type_infos reg) then Some (type_infos reg ! cid) else None)"

text \<open>
  \<^verbatim>\<open>archetype_key\<close> is the vector \<^verbatim>\<open>component_ids\<close>; its constructors canonicalise
  (\<^verbatim>\<open>std::ranges::sort\<close>, then erase from \<^verbatim>\<open>std::ranges::unique\<close>).
\<close>

type_synonym archetype_key = "component_id list"

definition canonicalise :: "component_id list \<Rightarrow> archetype_key" where
  "canonicalise ids = remdups_adj (sort ids)"

definition make_archetype_key :: "component_id list \<Rightarrow> archetype_key" where
  "make_archetype_key ids = canonicalise ids"

text \<open>
  \<^verbatim>\<open>std::ranges::lower_bound\<close> and \<^verbatim>\<open>std::ranges::binary_search\<close> are modelled by what they
  return on a sorted range, which every key is: the position of the first element that is
  not less than \<open>cid\<close>, and whether \<open>cid\<close> occurs.
\<close>

definition lower_bound :: "component_id list \<Rightarrow> component_id \<Rightarrow> nat" where
  "lower_bound ids cid = length (takeWhile (\<lambda>x. x < cid) ids)"

definition key_contains :: "archetype_key \<Rightarrow> component_id \<Rightarrow> bool" where
  "key_contains k cid = (cid \<in> set k)"

section \<open>Columns and tables (fecs.h, TABLE_STORAGE_SOA and WORLD_STORAGE)\<close>

text \<open>
  A column is a raw buffer of \<^verbatim>\<open>capacity\<close> cells, \<^verbatim>\<open>data\<close>, of which the first \<^verbatim>\<open>size\<close> are
  rows. \<^verbatim>\<open>data\<close> is \<open>None\<close> for \<^verbatim>\<open>nullptr\<close>; a cell is \<open>None\<close> while it is raw storage and
  \<open>Some v\<close> while it holds a constructed component of value \<open>v\<close>.
\<close>

record 'v column =
  c_info :: "'v component_info"
  c_data :: "'v option list option"
  c_size :: nat
  c_capacity :: nat

definition column_new :: "'v component_info \<Rightarrow> 'v column" where
  "column_new ci = \<lparr>c_info = ci, c_data = None, c_size = 0, c_capacity = 0\<rparr>"

text \<open>
  \<^verbatim>\<open>grow_to\<close>: a new buffer of \<open>new_capacity\<close> raw cells; when there was a buffer, the
  first \<^verbatim>\<open>size\<close> cells are moved over one by one (a read beyond the old buffer or a write
  beyond the new one is undefined behaviour).
\<close>

definition column_grow_to :: "'v column \<Rightarrow> nat \<Rightarrow> 'v column option" where
  "column_grow_to c new_capacity =
     (case c_data c of
        None \<Rightarrow>
          Some (c\<lparr>c_data := Some (replicate new_capacity None), c_capacity := new_capacity\<rparr>)
      | Some cells \<Rightarrow>
          if c_size c \<le> length cells \<and> c_size c \<le> new_capacity
          then Some (c\<lparr>c_data := Some (take (c_size c) cells
                                      @ replicate (new_capacity - c_size c) None),
                       c_capacity := new_capacity\<rparr>)
          else None)"

definition column_reserve :: "'v column \<Rightarrow> nat \<Rightarrow> 'v column option" where
  "column_reserve c new_capacity =
     (if new_capacity \<le> c_capacity c then Some c else column_grow_to c new_capacity)"

text \<open>Writing and reading the cell behind \<^verbatim>\<open>ptr_at_unsafe(index)\<close>.\<close>

definition column_write :: "'v column \<Rightarrow> nat \<Rightarrow> 'v option \<Rightarrow> 'v column option" where
  "column_write c index x =
     (case c_data c of
        None \<Rightarrow> None
      | Some cells \<Rightarrow>
          if index < length cells then Some (c\<lparr>c_data := Some (cells[index := x])\<rparr>) else None)"

definition column_read :: "'v column \<Rightarrow> nat \<Rightarrow> 'v option option" where
  "column_read c index =
     (case c_data c of
        None \<Rightarrow> None
      | Some cells \<Rightarrow> if index < length cells then Some (cells ! index) else None)"

definition column_push_defaults :: "'v column \<Rightarrow> 'v column option" where
  "column_push_defaults c = do {
     c1 \<leftarrow> (if c_size c = c_capacity c
            then column_grow_to c (if c_capacity c = 0 then 8 else c_capacity c * 2)
            else Some c);
     c2 \<leftarrow> column_write c1 (c_size c1) (Some (ci_default_ctor (c_info c1)));
     Some (c2\<lparr>c_size := c_size c2 + 1\<rparr>)
   }"

text \<open>\<^verbatim>\<open>remove_swap_nodestroy\<close>: \<^verbatim>\<open>memcpy\<close> of the last row over \<open>row\<close>.\<close>

definition column_remove_swap_nodestroy :: "'v column \<Rightarrow> nat \<Rightarrow> 'v column option" where
  "column_remove_swap_nodestroy c row =
     (if row < c_size c
      then let last_index = c_size c - 1
           in do {
             c1 \<leftarrow> (if row \<noteq> last_index
                    then do { x \<leftarrow> column_read c last_index; column_write c row x }
                    else Some c);
             Some (c1\<lparr>c_size := c_size c1 - 1\<rparr>)
           }
      else None)"

text \<open>\<^verbatim>\<open>remove_swap\<close>: \<^verbatim>\<open>dtor(dst)\<close>, \<^verbatim>\<open>move_ctor(dst, src)\<close> unless they are the same row, \<^verbatim>\<open>dtor(src)\<close>.\<close>

definition column_remove_swap :: "'v column \<Rightarrow> nat \<Rightarrow> 'v column option" where
  "column_remove_swap c row =
     (if row < c_size c
      then let last_index = c_size c - 1
           in do {
             c1 \<leftarrow> column_write c row None;
             c2 \<leftarrow> (if row \<noteq> last_index
                    then do { x \<leftarrow> column_read c1 last_index; column_write c1 row x }
                    else Some c1);
             c3 \<leftarrow> column_write c2 last_index None;
             Some (c3\<lparr>c_size := c_size c3 - 1\<rparr>)
           }
      else None)"

record 'v table =
  t_id :: table_id
  t_key :: archetype_key
  t_entities :: "entity list"
  t_columns :: "'v column list"
  t_lookup_keys :: "component_id list"
  t_lookup_vals :: "nat list"
  t_lookup_mask :: nat

definition table_size :: "'v table \<Rightarrow> nat" where
  "table_size t = length (t_entities t)"

definition table_has :: "'v table \<Rightarrow> component_id \<Rightarrow> bool" where
  "table_has t cid = key_contains (t_key t) cid"

text \<open>\<^verbatim>\<open>column_index\<close> asserts that the lower bound is not the end of the key.\<close>

definition table_column_index :: "'v table \<Rightarrow> component_id \<Rightarrow> nat option" where
  "table_column_index t cid =
     (let i = lower_bound (t_key t) cid in if i < length (t_key t) then Some i else None)"

text \<open>
  \<^verbatim>\<open>get_column(cid)\<close> is \<^verbatim>\<open>columns[column_index(cid)]\<close>; the model returns the position of
  the column, and the caller reads and writes \<open>t_columns t\<close> there.
\<close>

definition table_get_column :: "'v table \<Rightarrow> component_id \<Rightarrow> nat option" where
  "table_get_column t cid = do {
     i \<leftarrow> table_column_index t cid;
     if i < length (t_columns t) then Some i else None
   }"

text \<open>Reading and writing \<^verbatim>\<open>get_column(cid).ptr_at_unsafe(row)\<close>.\<close>

definition table_read :: "'v table \<Rightarrow> nat \<Rightarrow> component_id \<Rightarrow> 'v option option" where
  "table_read t row cid = do {
     i \<leftarrow> table_get_column t cid;
     column_read (t_columns t ! i) row
   }"

definition table_write :: "'v table \<Rightarrow> nat \<Rightarrow> component_id \<Rightarrow> 'v option \<Rightarrow> 'v table option" where
  "table_write t row cid x = do {
     i \<leftarrow> table_get_column t cid;
     c \<leftarrow> column_write (t_columns t ! i) row x;
     Some (t\<lparr>t_columns := (t_columns t)[i := c]\<rparr>)
   }"

definition table_add_row :: "'v table \<Rightarrow> entity \<Rightarrow> (nat \<times> 'v table) option" where
  "table_add_row t e = do {
     let row = length (t_entities t);
     cols \<leftarrow> map_all column_push_defaults (t_columns t);
     Some (row, t\<lparr>t_entities := t_entities t @ [e], t_columns := cols\<rparr>)
   }"

text \<open>
  The entity part of both swap-removals: the last entity overwrites \<open>row\<close> unless \<open>row\<close> is
  the last row, then \<^verbatim>\<open>pop_back\<close>; the result names the entity that moved, or
  \<^verbatim>\<open>INVALID_ENTITY\<close>.
\<close>

definition entities_remove_swap :: "entity list \<Rightarrow> nat \<Rightarrow> entity \<times> entity list" where
  "entities_remove_swap es row =
     (let last_index = length es - 1
      in if row \<noteq> last_index
         then (es ! last_index, butlast (es[row := es ! last_index]))
         else (Entity INVALID_ENTITY, butlast es))"

definition table_remove_row_swap :: "'v table \<Rightarrow> nat \<Rightarrow> (entity \<times> 'v table) option" where
  "table_remove_row_swap t row =
     (if row < table_size t
      then do {
        let (swapped_in_entity, es) = entities_remove_swap (t_entities t) row;
        cols \<leftarrow> map_all (\<lambda>c. column_remove_swap c row) (t_columns t);
        Some (swapped_in_entity, t\<lparr>t_entities := es, t_columns := cols\<rparr>)
      }
      else None)"

definition table_remove_row_swap_nodestroy :: "'v table \<Rightarrow> nat \<Rightarrow> (entity \<times> 'v table) option" where
  "table_remove_row_swap_nodestroy t row =
     (if row < table_size t
      then do {
        let (swapped_in_entity, es) = entities_remove_swap (t_entities t) row;
        cols \<leftarrow> map_all (\<lambda>c. column_remove_swap_nodestroy c row) (t_columns t);
        Some (swapped_in_entity, t\<lparr>t_entities := es, t_columns := cols\<rparr>)
      }
      else None)"

text \<open>
  The loop body of \<^verbatim>\<open>add_row_uninitialized\<close>: \<^verbatim>\<open>reserve\<close> when the column is full, then
  \<^verbatim>\<open>++c.size\<close>; the new cell stays raw.
\<close>

definition column_add_uninitialized :: "'v column \<Rightarrow> 'v column option" where
  "column_add_uninitialized c = do {
     c1 \<leftarrow> (if c_size c = c_capacity c
            then column_reserve c (if c_capacity c = 0 then 8 else c_capacity c * 2)
            else Some c);
     Some (c1\<lparr>c_size := c_size c1 + 1\<rparr>)
   }"

definition table_add_row_uninitialized :: "'v table \<Rightarrow> entity \<Rightarrow> (nat \<times> 'v table) option" where
  "table_add_row_uninitialized t e = do {
     let row = length (t_entities t);
     cols \<leftarrow> map_all column_add_uninitialized (t_columns t);
     Some (row, t\<lparr>t_entities := t_entities t @ [e], t_columns := cols\<rparr>)
   }"

text \<open>
  \<^verbatim>\<open>table::reserve(val)\<close>: \<^verbatim>\<open>entities.reserve(val)\<close> changes the capacity of the vector only;
  every column reserves \<open>val\<close> cells.
\<close>

definition table_reserve :: "'v table \<Rightarrow> nat \<Rightarrow> 'v table option" where
  "table_reserve t val = do {
     cols \<leftarrow> map_all (\<lambda>c. column_reserve c val) (t_columns t);
     Some (t\<lparr>t_columns := cols\<rparr>)
   }"

definition table_default_construct_at :: "'v table \<Rightarrow> nat \<Rightarrow> component_id \<Rightarrow> 'v table option" where
  "table_default_construct_at t row cid = do {
     i \<leftarrow> table_get_column t cid;
     table_write t row cid (Some (ci_default_ctor (c_info (t_columns t ! i))))
   }"

definition table_copy_construct_at :: "'v table \<Rightarrow> nat \<Rightarrow> component_id \<Rightarrow> 'v \<Rightarrow> 'v table option" where
  "table_copy_construct_at t row cid src = table_write t row cid (Some src)"

subsection \<open>The hashed column lookup\<close>

definition next_pow2_u32 :: "32 word \<Rightarrow> 32 word" where
  "next_pow2_u32 v0 =
     (if v0 \<le> 1 then 1
      else let v = v0 - 1;
               v = v OR drop_bit 1 v;
               v = v OR drop_bit 2 v;
               v = v OR drop_bit 4 v;
               v = v OR drop_bit 8 v;
               v = v OR drop_bit 16 v
           in v + 1)"

definition hash_cid :: "32 word \<Rightarrow> 32 word" where
  "hash_cid cid =
     (let x = cid;
          x = x XOR drop_bit 16 x;
          x = x * 0x7feb352d;
          x = x XOR drop_bit 15 x;
          x = x * 0x846ca68b;
          x = x XOR drop_bit 16 x
      in x)"

text \<open>
  The probe loop \<^verbatim>\<open>while (lookup_keys_[slot] != INVALID_ID) slot = (slot + 1u) & lookup_mask_\<close>
  of \<^verbatim>\<open>build_lookup\<close>. The fuel is the number of slots: a probe that has visited every slot
  without finding a free one never ends.
\<close>

fun probe_free :: "component_id list \<Rightarrow> 32 word \<Rightarrow> 32 word \<Rightarrow> nat \<Rightarrow> 32 word option" where
  "probe_free keys msk slot 0 = None"
| "probe_free keys msk slot (Suc fuel) =
     (if unat slot < length keys
      then if keys ! unat slot \<noteq> INVALID_ID then probe_free keys msk ((slot + 1) AND msk) fuel
           else Some slot
      else None)"

fun build_lookup_loop ::
  "component_id list \<Rightarrow> 32 word \<Rightarrow> nat \<Rightarrow> component_id list \<times> nat list
     \<Rightarrow> (component_id list \<times> nat list) option" where
  "build_lookup_loop [] msk i (keys, vals) = Some (keys, vals)"
| "build_lookup_loop (cid # cids) msk i (keys, vals) = do {
     slot \<leftarrow> probe_free keys msk (hash_cid (word_of_nat cid) AND msk) (length keys);
     build_lookup_loop cids msk (i + 1) (keys[unat slot := cid], vals[unat slot := i])
   }"

definition table_build_lookup :: "'v table \<Rightarrow> 'v table option" where
  "table_build_lookup t =
     (let n = (word_of_nat (length (t_key t)) :: 32 word)
      in if n = 0
         then Some (t\<lparr>t_lookup_keys := [], t_lookup_vals := [], t_lookup_mask := 0\<rparr>)
         else let cap = next_pow2_u32 (n * 2);
                  msk = cap - 1
              in do {
                (keys, vals) \<leftarrow> build_lookup_loop (take (unat n) (t_key t)) msk 0
                                  (replicate (unat cap) INVALID_ID, replicate (unat cap) 0);
                Some (t\<lparr>t_lookup_keys := keys, t_lookup_vals := vals, t_lookup_mask := unat msk\<rparr>)
              })"

definition table_finalize_schema :: "'v table \<Rightarrow> 'v table option" where
  "table_finalize_schema t = table_build_lookup t"

text \<open>The \<^verbatim>\<open>while (true)\<close> probe of \<^verbatim>\<open>column_index_fast_impl\<close>, with the same fuel.\<close>

fun probe_find :: "component_id list \<Rightarrow> nat list \<Rightarrow> 32 word \<Rightarrow> component_id \<Rightarrow> 32 word \<Rightarrow> nat \<Rightarrow> nat option" where
  "probe_find keys vals msk cid slot 0 = None"
| "probe_find keys vals msk cid slot (Suc fuel) =
     (if unat slot < length keys \<and> unat slot < length vals
      then let k = keys ! unat slot
           in if k = cid then Some (vals ! unat slot)
              else if k = INVALID_ID then None
              else probe_find keys vals msk cid ((slot + 1) AND msk) fuel
      else None)"

definition table_column_index_fast :: "'v table \<Rightarrow> component_id \<Rightarrow> nat option" where
  "table_column_index_fast t cid =
     (if t_lookup_mask t = 0
      then let i = lower_bound (t_key t) cid
           in if i < length (t_key t) \<and> t_key t ! i = cid then Some (i mod 2 ^ 32) else None
      else probe_find (t_lookup_keys t) (t_lookup_vals t) (word_of_nat (t_lookup_mask t)) cid
             (hash_cid (word_of_nat cid) AND word_of_nat (t_lookup_mask t))
             (length (t_lookup_keys t)))"

text \<open>
  \<^verbatim>\<open>get_array<T>\<close> returns the \<^verbatim>\<open>data\<close> pointer of a column. A pointer to a column buffer is
  modelled by the table and the column it belongs to.
\<close>

datatype array_ptr = Null_array | Array_of table_id nat

definition table_get_array :: "'v component_registry \<Rightarrow> 'v table \<Rightarrow> type_index \<Rightarrow> array_ptr option" where
  "table_get_array reg t ty = do {
     cid \<leftarrow> registry_get_id reg ty;
     if table_has t cid
     then do {
       i \<leftarrow> table_column_index_fast t cid;
       if i < length (t_columns t)
       then Some (case c_data (t_columns t ! i) of None \<Rightarrow> Null_array | Some cells \<Rightarrow> Array_of (t_id t) i)
       else None
     }
     else None
   }"

subsection \<open>The table store\<close>

record 'v world_storage =
  s_schema_version :: "64 word"
  s_key_tables :: "(archetype_key \<times> table_id) list"
  s_tables :: "'v table list"

definition storage_create_table ::
  "'v component_registry \<Rightarrow> 'v world_storage \<Rightarrow> archetype_key \<Rightarrow> (table_id \<times> 'v world_storage) option" where
  "storage_create_table reg s key = do {
     let tid = length (s_tables s) mod 2 ^ 32;
     infos \<leftarrow> map_all (registry_get_info reg) key;
     t \<leftarrow> table_finalize_schema
            \<lparr>t_id = tid, t_key = key, t_entities = [], t_columns = map column_new infos,
             t_lookup_keys = [], t_lookup_vals = [], t_lookup_mask = 0\<rparr>;
     Some (tid, s\<lparr>s_key_tables := (if map_of (s_key_tables s) key = None
                                    then (key, tid) # s_key_tables s else s_key_tables s),
                  s_tables := s_tables s @ [t],
                  s_schema_version := s_schema_version s + 1\<rparr>)
   }"

definition storage_get_or_create_table ::
  "'v component_registry \<Rightarrow> 'v world_storage \<Rightarrow> archetype_key \<Rightarrow> (table_id \<times> 'v world_storage) option" where
  "storage_get_or_create_table reg s key =
     (case map_of (s_key_tables s) key of
        Some tid \<Rightarrow> Some (tid, s)
      | None \<Rightarrow> storage_create_table reg s key)"

text \<open>\<^verbatim>\<open>get_table\<close> is \<^verbatim>\<open>tables_.at(id)\<close>.\<close>

definition storage_get_table :: "'v world_storage \<Rightarrow> table_id \<Rightarrow> 'v table option" where
  "storage_get_table s tid = (if tid < length (s_tables s) then Some (s_tables s ! tid) else None)"

definition storage_set_table :: "'v world_storage \<Rightarrow> table_id \<Rightarrow> 'v table \<Rightarrow> 'v world_storage" where
  "storage_set_table s tid t = s\<lparr>s_tables := (s_tables s)[tid := t]\<rparr>"

definition storage_empty :: "'v world_storage" where
  "storage_empty = \<lparr>s_schema_version = 0, s_key_tables = [], s_tables = []\<rparr>"

text \<open>The constructor creates the table of the empty key.\<close>

definition storage_init :: "'v component_registry \<Rightarrow> 'v world_storage option" where
  "storage_init reg = map_option snd (storage_get_or_create_table reg storage_empty (make_archetype_key []))"


section \<open>The world (fecs.h, class world)\<close>

record location =
  loc_tid :: table_id
  loc_row :: nat

definition location_default :: location where
  "location_default = \<lparr>loc_tid = INVALID_TABLE, loc_row = 0\<rparr>"

definition location_valid :: "location \<Rightarrow> bool" where
  "location_valid l = (loc_tid l \<noteq> INVALID_TABLE)"

record 'v world =
  w_entities :: entity_manager
  w_registry :: "'v component_registry"
  w_storage :: "'v world_storage"
  w_empty_table :: table_id
  w_locations :: "location list"
  w_version :: "64 word"

text \<open>
  The constructor: \<^verbatim>\<open>storage_(registry_)\<close> creates the table of the empty key, and
  \<^verbatim>\<open>empty_table_\<close> is looked up again.
\<close>

definition world_new :: "'v world option" where
  "world_new = do {
     s \<leftarrow> storage_init registry_init;
     (tid, s') \<leftarrow> storage_get_or_create_table registry_init s (make_archetype_key []);
     Some \<lparr>w_entities = em_init, w_registry = registry_init, w_storage = s',
           w_empty_table = tid, w_locations = [], w_version = 0\<rparr>
   }"

definition world_register_component ::
  "'v world \<Rightarrow> type_index \<Rightarrow> nat \<Rightarrow> nat \<Rightarrow> 'v \<Rightarrow> component_id \<times> 'v world" where
  "world_register_component w ty sz al dflt =
     (let (cid, reg) = registry_add (w_registry w) ty sz al dflt in (cid, w\<lparr>w_registry := reg\<rparr>))"

definition bump_version :: "'v world \<Rightarrow> 'v world" where
  "bump_version w = w\<lparr>w_version := w_version w + 1\<rparr>"

text \<open>
  \<^verbatim>\<open>reserve<Cs...>(count)\<close>: the ids of the types (each \<^verbatim>\<open>get_id\<close> asserts that the type is
  registered), the table of their key, found or created, and \<^verbatim>\<open>table::reserve\<close> on it.
\<close>

definition world_reserve :: "'v world \<Rightarrow> type_index list \<Rightarrow> nat \<Rightarrow> 'v world option" where
  "world_reserve w tys count = do {
     ids \<leftarrow> map_all (registry_get_id (w_registry w)) tys;
     (tid, s) \<leftarrow> storage_get_or_create_table (w_registry w) (w_storage w) (make_archetype_key ids);
     t \<leftarrow> storage_get_table s tid;
     t' \<leftarrow> table_reserve t count;
     Some (bump_version (w\<lparr>w_storage := storage_set_table s tid t'\<rparr>))
   }"

definition world_alive :: "'v world \<Rightarrow> entity \<Rightarrow> bool" where
  "world_alive w e = em_alive (w_entities w) e"

text \<open>\<^verbatim>\<open>locations_.resize(static_cast<size_t>(index) + 1u)\<close> when the index is not in range.\<close>

definition ensure_location_capacity :: "location list \<Rightarrow> fecs_id \<Rightarrow> location list" where
  "ensure_location_capacity locs index =
     (if unat index \<ge> length locs
      then locs @ replicate (unat index + 1 - length locs) location_default
      else locs)"

text \<open>The unchecked reads and writes \<^verbatim>\<open>locations_[i]\<close>.\<close>

definition location_at :: "'v world \<Rightarrow> fecs_id \<Rightarrow> location option" where
  "location_at w index =
     (if unat index < length (w_locations w) then Some (w_locations w ! unat index) else None)"

definition set_location :: "'v world \<Rightarrow> fecs_id \<Rightarrow> location \<Rightarrow> 'v world option" where
  "set_location w index l =
     (if unat index < length (w_locations w)
      then Some (w\<lparr>w_locations := (w_locations w)[unat index := l]\<rparr>)
      else None)"

definition set_table :: "'v world \<Rightarrow> table_id \<Rightarrow> 'v table \<Rightarrow> 'v world" where
  "set_table w tid t = w\<lparr>w_storage := storage_set_table (w_storage w) tid t\<rparr>"

text \<open>
  The fix-up after a swap-removal, in \<^verbatim>\<open>remove_row_dense_and_fixup\<close> and in
  \<^verbatim>\<open>migrate_entity_to_table\<close>: \<^verbatim>\<open>if (swapped.valid())\<close> the location of the entity that
  moved is rewritten.
\<close>

definition fixup_swapped :: "'v world \<Rightarrow> entity \<Rightarrow> location \<Rightarrow> 'v world option" where
  "fixup_swapped w swapped l =
     (if entity_valid swapped then set_location w (entity_index swapped) l else Some w)"

definition world_create_entity :: "'v world \<Rightarrow> (entity \<times> 'v world) option" where
  "world_create_entity w = do {
     (e, em) \<leftarrow> em_create_entity (w_entities w);
     let w1 = w\<lparr>w_entities := em,
                w_locations := ensure_location_capacity (w_locations w) (entity_index e)\<rparr>;
     t \<leftarrow> storage_get_table (w_storage w1) (w_empty_table w1);
     (row, t') \<leftarrow> table_add_row t e;
     w2 \<leftarrow> set_location (set_table w1 (w_empty_table w1) t') (entity_index e)
             \<lparr>loc_tid = w_empty_table w1, loc_row = row mod 2 ^ 32\<rparr>;
     Some (e, bump_version w2)
   }"

text \<open>
  \<^verbatim>\<open>remove_row_dense_and_fixup\<close>. \<^verbatim>\<open>loc\<close> is a reference to \<^verbatim>\<open>locations_[e.index()]\<close>: the
  location of the swapped-in entity is written first, from \<^verbatim>\<open>loc\<close>, and \<^verbatim>\<open>loc\<close> is
  invalidated after it.
\<close>

definition remove_row_dense_and_fixup :: "'v world \<Rightarrow> entity \<Rightarrow> 'v world option" where
  "remove_row_dense_and_fixup w e = do {
     loc \<leftarrow> location_at w (entity_index e);
     if location_valid loc
     then do {
       t \<leftarrow> storage_get_table (w_storage w) (loc_tid loc);
       (swapped, t') \<leftarrow> table_remove_row_swap t (loc_row loc);
       let w1 = set_table w (loc_tid loc) t';
       w2 \<leftarrow> fixup_swapped w1 swapped \<lparr>loc_tid = loc_tid loc, loc_row = loc_row loc\<rparr>;
       w3 \<leftarrow> set_location w2 (entity_index e) \<lparr>loc_tid = INVALID_TABLE, loc_row = 0\<rparr>;
       Some (bump_version w3)
     }
     else None
   }"

definition world_destroy_entity :: "'v world \<Rightarrow> entity \<Rightarrow> 'v world option" where
  "world_destroy_entity w e =
     (if \<not> em_alive (w_entities w) e then Some w
      else do {
        loc \<leftarrow> location_at w (entity_index e);
        w1 \<leftarrow> (if location_valid loc then remove_row_dense_and_fixup w e else Some w);
        Some (bump_version (w1\<lparr>w_entities := em_destroy_entity (w_entities w1) e\<rparr>))
      })"

definition world_get_location :: "'v world \<Rightarrow> entity \<Rightarrow> location" where
  "world_get_location w e =
     (if \<not> em_alive (w_entities w) e then location_default
      else let index = entity_index e
           in if unat index \<ge> length (w_locations w) then location_default
              else w_locations w ! unat index)"

text \<open>
  A pointer to a component is modelled by the cell it points to: the table, the column and
  the row. \<^verbatim>\<open>get_component_ptr\<close> asserts that the row is in range.
\<close>

datatype component_ptr = Nullptr | Cell table_id nat nat

definition table_get_component_ptr :: "'v table \<Rightarrow> table_id \<Rightarrow> nat \<Rightarrow> component_id \<Rightarrow> component_ptr option" where
  "table_get_component_ptr t tid row cid =
     (if row < table_size t
      then do { i \<leftarrow> table_get_column t cid; Some (Cell tid i row) }
      else None)"

definition world_try_get_component :: "'v world \<Rightarrow> entity \<Rightarrow> type_index \<Rightarrow> component_ptr option" where
  "world_try_get_component w e ty =
     (if \<not> world_alive w e then Some Nullptr
      else do {
        cid \<leftarrow> registry_get_id (w_registry w) ty;
        let index = entity_index e;
        if unat index \<ge> length (w_locations w) then Some Nullptr
        else let loc = w_locations w ! unat index
             in if \<not> location_valid loc then Some Nullptr
                else do {
                  t \<leftarrow> storage_get_table (w_storage w) (loc_tid loc);
                  if table_has t cid
                  then table_get_component_ptr t (loc_tid loc) (loc_row loc) cid
                  else Some Nullptr
                }
      })"

text \<open>
  Reading through a component pointer. The result is \<open>None\<close> for the null pointer, for a
  pointer outside the store, and for a cell that holds no constructed component.
\<close>

definition world_read :: "'v world \<Rightarrow> component_ptr \<Rightarrow> 'v option" where
  "world_read w p =
     (case p of
        Nullptr \<Rightarrow> None
      | Cell tid i row \<Rightarrow> do {
          t \<leftarrow> storage_get_table (w_storage w) tid;
          x \<leftarrow> (if i < length (t_columns t) then column_read (t_columns t ! i) row else None);
          x
        })"

text \<open>\<^verbatim>\<open>get_component<T>(e)\<close>, with its three assertions; the result is the value referred to.\<close>

definition world_get_component :: "'v world \<Rightarrow> entity \<Rightarrow> type_index \<Rightarrow> 'v option" where
  "world_get_component w e ty =
     (if \<not> world_alive w e then None
      else do {
        cid \<leftarrow> registry_get_id (w_registry w) ty;
        loc \<leftarrow> location_at w (entity_index e);
        if \<not> location_valid loc then None
        else do {
          t \<leftarrow> storage_get_table (w_storage w) (loc_tid loc);
          if \<not> table_has t cid then None
          else do {
            p \<leftarrow> table_get_component_ptr t (loc_tid loc) (loc_row loc) cid;
            world_read w p
          }
        }
      })"

definition get_table_for_signature ::
  "'v world \<Rightarrow> component_id list \<Rightarrow> (table_id \<times> 'v world) option" where
  "get_table_for_signature w ids = do {
     (tid, s) \<leftarrow> storage_get_or_create_table (w_registry w) (w_storage w) (make_archetype_key ids);
     Some (tid, w\<lparr>w_storage := s\<rparr>)
   }"

text \<open>
  \<^verbatim>\<open>intersect_sorted_ids\<close>: the component ids on which the two-index loop calls \<^verbatim>\<open>fn\<close>, in
  the order of the calls.
\<close>

fun intersect_sorted_ids :: "component_id list \<Rightarrow> component_id list \<Rightarrow> component_id list" where
  "intersect_sorted_ids (a # as) (b # bs) =
     (if a = b then a # intersect_sorted_ids as bs
      else if a < b then intersect_sorted_ids as (b # bs)
      else intersect_sorted_ids (a # as) bs)"
| "intersect_sorted_ids as bs = []"

text \<open>
  The callback of \<^verbatim>\<open>migrate_entity_to_table\<close> for a shared component:
  \<^verbatim>\<open>move_ctor(dst, src)\<close> from the old row to the new row, then \<^verbatim>\<open>dtor(src)\<close>. The tables
  are read from the store at each step, as the references of the source are.
\<close>

definition migrate_move :: "table_id \<Rightarrow> nat \<Rightarrow> table_id \<Rightarrow> nat \<Rightarrow> 'v world \<Rightarrow> component_id \<Rightarrow> 'v world option" where
  "migrate_move old_tid old_row new_tid new_row w cid = do {
     old_table \<leftarrow> storage_get_table (w_storage w) old_tid;
     x \<leftarrow> table_read old_table old_row cid;
     new_table \<leftarrow> storage_get_table (w_storage w) new_tid;
     new_table' \<leftarrow> table_write new_table new_row cid x;
     let w1 = set_table w new_tid new_table';
     old_table1 \<leftarrow> storage_get_table (w_storage w1) old_tid;
     old_table' \<leftarrow> table_write old_table1 old_row cid None;
     Some (set_table w1 old_tid old_table')
   }"

text \<open>The second loop: the components the new table does not have are destroyed in place.\<close>

definition migrate_destroy :: "table_id \<Rightarrow> nat \<Rightarrow> table_id \<Rightarrow> 'v world \<Rightarrow> component_id \<Rightarrow> 'v world option" where
  "migrate_destroy old_tid old_row new_tid w cid = do {
     new_table \<leftarrow> storage_get_table (w_storage w) new_tid;
     if table_has new_table cid then Some w
     else do {
       old_table \<leftarrow> storage_get_table (w_storage w) old_tid;
       old_table' \<leftarrow> table_write old_table old_row cid None;
       Some (set_table w old_tid old_table')
     }
   }"

text \<open>Running a fallible loop body over a vector, threading the world.\<close>

primrec for_each :: "('s \<Rightarrow> 'a \<Rightarrow> 's option) \<Rightarrow> 'a list \<Rightarrow> 's \<Rightarrow> 's option" where
  "for_each f [] s = Some s"
| "for_each f (x # xs) s = (case f s x of None \<Rightarrow> None | Some s' \<Rightarrow> for_each f xs s')"

definition migrate_entity_to_table :: "'v world \<Rightarrow> entity \<Rightarrow> table_id \<Rightarrow> (nat \<times> 'v world) option" where
  "migrate_entity_to_table w e new_tid = do {
     loc \<leftarrow> location_at w (entity_index e);
     if location_valid loc
     then do {
       let old_tid = loc_tid loc;
       let old_row = loc_row loc;
       old_table \<leftarrow> storage_get_table (w_storage w) old_tid;
       new_table \<leftarrow> storage_get_table (w_storage w) new_tid;
       (r, new_table') \<leftarrow> table_add_row_uninitialized new_table e;
       let new_row = r mod 2 ^ 32;
       let w1 = set_table w new_tid new_table';
       w2 \<leftarrow> for_each (migrate_move old_tid old_row new_tid new_row)
               (intersect_sorted_ids (t_key old_table) (t_key new_table)) w1;
       w3 \<leftarrow> for_each (migrate_destroy old_tid old_row new_tid) (t_key old_table) w2;
       old_table3 \<leftarrow> storage_get_table (w_storage w3) old_tid;
       (swapped, old_table') \<leftarrow> table_remove_row_swap_nodestroy old_table3 old_row;
       let w4 = set_table w3 old_tid old_table';
       w5 \<leftarrow> fixup_swapped w4 swapped \<lparr>loc_tid = old_tid, loc_row = old_row\<rparr>;
       w6 \<leftarrow> set_location w5 (entity_index e) \<lparr>loc_tid = new_tid, loc_row = new_row\<rparr>;
       Some (new_row, bump_version w6)
     }
     else None
   }"

text \<open>
  \<^verbatim>\<open>add_component<T>(e, opt_value)\<close>: \<open>opt_value\<close> is \<open>None\<close> for the overload without a value
  (\<^verbatim>\<open>nullptr\<close>), which default-constructs.
\<close>

definition world_add_component :: "'v world \<Rightarrow> entity \<Rightarrow> type_index \<Rightarrow> 'v option \<Rightarrow> 'v world option" where
  "world_add_component w e ty opt_value =
     (if \<not> world_alive w e then Some w
      else do {
        cid \<leftarrow> registry_get_id (w_registry w) ty;
        loc \<leftarrow> location_at w (entity_index e);
        if location_valid loc
        then do {
          old_table \<leftarrow> storage_get_table (w_storage w) (loc_tid loc);
          if table_has old_table cid then Some w
          else do {
            let ids = t_key old_table @ [cid];
            (new_tid, w1) \<leftarrow> get_table_for_signature w ids;
            (new_row, w2) \<leftarrow> migrate_entity_to_table w1 e new_tid;
            new_table \<leftarrow> storage_get_table (w_storage w2) new_tid;
            new_table' \<leftarrow> (case opt_value of
                            Some v \<Rightarrow> table_copy_construct_at new_table new_row cid v
                          | None \<Rightarrow> table_default_construct_at new_table new_row cid);
            Some (bump_version (set_table w2 new_tid new_table'))
          }
        }
        else None
      })"

definition world_remove_component :: "'v world \<Rightarrow> entity \<Rightarrow> type_index \<Rightarrow> 'v world option" where
  "world_remove_component w e ty =
     (if \<not> world_alive w e then Some w
      else do {
        cid \<leftarrow> registry_get_id (w_registry w) ty;
        loc \<leftarrow> location_at w (entity_index e);
        if location_valid loc
        then do {
          old_table \<leftarrow> storage_get_table (w_storage w) (loc_tid loc);
          if \<not> table_has old_table cid then Some w
          else do {
            let ids = t_key old_table;
            let i = lower_bound ids cid;
            if i < length ids \<and> ids ! i = cid
            then do {
              (new_tid, w1) \<leftarrow> get_table_for_signature w (take i ids @ drop (Suc i) ids);
              (new_row, w2) \<leftarrow> migrate_entity_to_table w1 e new_tid;
              Some (bump_version w2)
            }
            else None
          }
        }
        else None
      })"

section \<open>The render cache (fecs.h, RENDER\_CACHE)\<close>

record block =
  b_arrays :: "array_ptr list"
  b_n :: nat

record render_cache =
  rc_initialized :: bool
  rc_required :: "component_id list"
  rc_matching :: "table_id list"
  rc_blocks :: "block list"
  rc_cached_version :: "64 word"

definition render_cache_new :: render_cache where
  "render_cache_new =
     \<lparr>rc_initialized = False, rc_required = [], rc_matching = [], rc_blocks = [],
      rc_cached_version = - 1\<rparr>"

text \<open>The template parameters \<^verbatim>\<open>Cs...\<close> of the cache are the list \<open>cs\<close> of component types.\<close>

definition render_cache_init :: "type_index list \<Rightarrow> render_cache \<Rightarrow> 'v world \<Rightarrow> render_cache option" where
  "render_cache_init cs rc w = do {
     ids \<leftarrow> map_all (registry_get_id (w_registry w)) cs;
     Some (rc\<lparr>rc_required := remdups_adj (sort (rc_required rc @ ids)), rc_initialized := True\<rparr>)
   }"

fun contains_all_sorted :: "component_id list \<Rightarrow> component_id list \<Rightarrow> bool" where
  "contains_all_sorted (h # hs) (n # ns) =
     (if h = n then contains_all_sorted hs ns
      else if h < n then contains_all_sorted hs (n # ns)
      else False)"
| "contains_all_sorted hs ns = (ns = [])"

definition build_matching :: "render_cache \<Rightarrow> 'v world \<Rightarrow> render_cache option" where
  "build_matching rc w = do {
     let tc = length (s_tables (w_storage w));
     matching \<leftarrow> for_each
       (\<lambda>acc tid. do {
          t \<leftarrow> storage_get_table (w_storage w) tid;
          if length (t_key t) < length (rc_required rc) then Some acc
          else if contains_all_sorted (t_key t) (rc_required rc) then Some (acc @ [tid])
          else Some acc
        }) [0 ..< tc] [];
     Some (rc\<lparr>rc_matching := matching\<rparr>)
   }"

definition rebuild_blocks :: "type_index list \<Rightarrow> render_cache \<Rightarrow> 'v world \<Rightarrow> render_cache option" where
  "rebuild_blocks cs rc w = do {
     blocks \<leftarrow> for_each
       (\<lambda>acc tid. do {
          t \<leftarrow> storage_get_table (w_storage w) tid;
          let n = table_size t;
          if n = 0 then Some acc
          else do {
            arrays \<leftarrow> map_all (table_get_array (w_registry w) t) cs;
            Some (acc @ [\<lparr>b_arrays = arrays, b_n = n\<rparr>])
          }
        }) (rc_matching rc) [];
     Some (rc\<lparr>rc_blocks := blocks\<rparr>)
   }"

definition render_cache_refresh :: "type_index list \<Rightarrow> render_cache \<Rightarrow> 'v world \<Rightarrow> render_cache option" where
  "render_cache_refresh cs rc w = do {
     rc1 \<leftarrow> (if \<not> rc_initialized rc then render_cache_init cs rc w else Some rc);
     let v = w_version w;
     if v = rc_cached_version rc1 then Some rc1
     else do {
       rc2 \<leftarrow> build_matching rc1 w;
       rc3 \<leftarrow> rebuild_blocks cs rc2 w;
       Some (rc3\<lparr>rc_cached_version := v\<rparr>)
     }
   }"


section \<open>States of the store\<close>

text \<open>
  The states that the public operations of \<^verbatim>\<open>world\<close> produce from a new store, called with
  any arguments: a step is a call that completes.
\<close>

inductive world_reachable :: "'v world \<Rightarrow> bool" where
  reach_new: "world_new = Some w \<Longrightarrow> world_reachable w"
| reach_register: "world_reachable w \<Longrightarrow> world_reachable (snd (world_register_component w ty sz al dflt))"
| reach_reserve: "world_reachable w \<Longrightarrow> world_reserve w tys count = Some w' \<Longrightarrow> world_reachable w'"
| reach_create: "world_reachable w \<Longrightarrow> world_create_entity w = Some (e, w') \<Longrightarrow> world_reachable w'"
| reach_destroy: "world_reachable w \<Longrightarrow> world_destroy_entity w e = Some w' \<Longrightarrow> world_reachable w'"
| reach_add: "world_reachable w \<Longrightarrow> world_add_component w e ty opt_value = Some w'
     \<Longrightarrow> world_reachable w'"
| reach_remove: "world_reachable w \<Longrightarrow> world_remove_component w e ty = Some w' \<Longrightarrow> world_reachable w'"

text \<open>The length of the entities array equals the \<^verbatim>\<open>size\<close> field of every column.\<close>

definition table_sizes_ok :: "'v table \<Rightarrow> bool" where
  "table_sizes_ok t = list_all (\<lambda>c. c_size c = length (t_entities t)) (t_columns t)"

definition world_sizes_ok :: "'v world \<Rightarrow> bool" where
  "world_sizes_ok w = list_all table_sizes_ok (s_tables (w_storage w))"

text \<open>
  A well-formed column: the rows fit the buffer, and the buffer has \<^verbatim>\<open>capacity\<close> cells
  (\<^verbatim>\<open>nullptr\<close> exactly for capacity \<open>0\<close>).
\<close>

definition column_ok :: "'v column \<Rightarrow> bool" where
  "column_ok c =
     (c_size c \<le> c_capacity c \<and>
      (case c_data c of None \<Rightarrow> c_capacity c = 0 | Some cells \<Rightarrow> length cells = c_capacity c))"

text \<open>
  A well-formed table: the key is canonical, there is one column per component of the key,
  and every column is well-formed and as long as the entities array.
\<close>

definition table_ok :: "'v table \<Rightarrow> bool" where
  "table_ok t =
     (sorted (t_key t) \<and> distinct (t_key t) \<and> length (t_columns t) = length (t_key t) \<and>
      list_all (\<lambda>c. c_size c = length (t_entities t) \<and> column_ok c) (t_columns t))"

definition world_ok :: "'v world \<Rightarrow> bool" where
  "world_ok w = list_all table_ok (s_tables (w_storage w))"

text \<open>
  The table map is sound: every entry of \<^verbatim>\<open>key_tables_\<close> names a table that exists and has
  that key.
\<close>

definition key_tables_ok :: "'v world_storage \<Rightarrow> bool" where
  "key_tables_ok s =
     list_all (\<lambda>(key, tid). tid < length (s_tables s) \<and> t_key (s_tables s ! tid) = key)
       (s_key_tables s)"

text \<open>
  The registry is sound: every registered type has an id that \<^verbatim>\<open>type_infos_\<close> holds. The
  components of every table are registered, and every entity in a table has a slot in
  \<^verbatim>\<open>locations_\<close>.
\<close>

definition registry_ok :: "'v component_registry \<Rightarrow> bool" where
  "registry_ok reg = list_all (\<lambda>(ty, cid). cid < length (type_infos reg)) (type_ids reg)"

definition keys_registered :: "'v world \<Rightarrow> bool" where
  "keys_registered w =
     list_all (\<lambda>t. list_all (\<lambda>cid. cid < length (type_infos (w_registry w))) (t_key t))
       (s_tables (w_storage w))"

definition rows_located :: "'v world \<Rightarrow> bool" where
  "rows_located w =
     list_all (\<lambda>t. list_all (\<lambda>e. unat (entity_index e) < length (w_locations w)) (t_entities t))
       (s_tables (w_storage w))"

text \<open>
  A well-formed store: well-formed tables, a sound table map, a sound registry, registered
  components and located rows. It is within capacity when the next table id is below
  \<^verbatim>\<open>INVALID_TABLE\<close> and there are at most \<open>2^30\<close> component types, so that twice the length
  of a key fits the 32-bit capacity of the hashed lookup.
\<close>

definition store_wf :: "'v world \<Rightarrow> bool" where
  "store_wf w =
     (world_ok w \<and> key_tables_ok (w_storage w) \<and> registry_ok (w_registry w) \<and>
      keys_registered w \<and> rows_located w)"

definition within_capacity :: "'v world \<Rightarrow> bool" where
  "within_capacity w =
     (length (s_tables (w_storage w)) < 2 ^ 32 - 1 \<and> length (type_infos (w_registry w)) \<le> 2 ^ 30)"

definition store_ok :: "'v world \<Rightarrow> bool" where
  "store_ok w = (store_wf w \<and> within_capacity w)"

text \<open>
  A slot of the entity manager is in use when it exists and is not on the free list; an
  entity of the store is a handle that passes \<^verbatim>\<open>alive\<close> and whose slot is in use: a handle
  that \<^verbatim>\<open>create_entity\<close> returned and that has not been destroyed since.
\<close>

definition slot_live :: "entity_manager \<Rightarrow> fecs_id \<Rightarrow> bool" where
  "slot_live m ix = (unat ix < length (generations m) \<and> ix \<notin> set (fragment m))"

definition entity_live :: "'v world \<Rightarrow> entity \<Rightarrow> bool" where
  "entity_live w e = (world_alive w e \<and> entity_index e \<notin> set (fragment (w_entities w)))"

text \<open>
  Locations and rows agree, for the slots outside \<open>X\<close>: the location of every slot in use
  names a row that exists and holds the handle of the slot at its current generation, and
  every row holds a handle whose slot is in use and whose location is that row. \<open>ents\<close> is
  the list of the entities arrays of the tables.
\<close>

definition locations_ok ::
  "fecs_id set \<Rightarrow> entity_manager \<Rightarrow> location list \<Rightarrow> entity list list \<Rightarrow> bool" where
  "locations_ok X m locs ents =
     ((\<forall>ix. slot_live m ix \<and> ix \<notin> X \<longrightarrow>
          unat ix < length locs
        \<and> loc_tid (locs ! unat ix) < length ents
        \<and> loc_row (locs ! unat ix) < length (ents ! loc_tid (locs ! unat ix))
        \<and> ents ! loc_tid (locs ! unat ix) ! loc_row (locs ! unat ix)
            = entity_make ix (generations m ! unat ix))
    \<and> (\<forall>tid row. tid < length ents \<and> row < length (ents ! tid) \<longrightarrow>
          slot_live m (entity_index (ents ! tid ! row))
        \<and> entity_index (ents ! tid ! row) \<notin> X
        \<and> locs ! unat (entity_index (ents ! tid ! row)) = \<lparr>loc_tid = tid, loc_row = row\<rparr>))"

text \<open>
  The invariant of the store: a well-formed store whose free list is sound, with at most
  \<open>2^32 - 1\<close> slots and at most \<open>2^32 - 1\<close> tables (so that no slot index is
  \<^verbatim>\<open>INVALID_ID\<close> and no table id is \<^verbatim>\<open>INVALID_TABLE\<close>), in which locations and rows agree.
\<close>

definition world_inv :: "'v world \<Rightarrow> bool" where
  "world_inv w =
     (store_wf w \<and> em_inv (w_entities w) \<and>
      length (generations (w_entities w)) \<le> 2 ^ 32 - 1 \<and>
      length (s_tables (w_storage w)) \<le> 2 ^ 32 - 1 \<and>
      locations_ok {} (w_entities w) (w_locations w) (map t_entities (s_tables (w_storage w))))"


text \<open>
  The states that the public operations produce from a new store in a run in which every
  handle given to \<^verbatim>\<open>destroy_entity\<close>, \<^verbatim>\<open>add_component\<close> and \<^verbatim>\<open>remove_component\<close> is dead or
  an entity of the store, and in which the store stays within \<open>2^32 - 1\<close> entity slots,
  \<open>2^32 - 1\<close> tables and \<open>2^30\<close> component types.
\<close>

inductive world_run :: "'v world \<Rightarrow> bool" where
  run_new: "world_new = Some w \<Longrightarrow> world_run w"
| run_register: "world_run w
     \<Longrightarrow> length (type_infos (w_registry (snd (world_register_component w ty sz al dflt)))) \<le> 2 ^ 30
     \<Longrightarrow> world_run (snd (world_register_component w ty sz al dflt))"
| run_reserve: "world_run w \<Longrightarrow> world_reserve w tys count = Some w'
     \<Longrightarrow> length (s_tables (w_storage w')) \<le> 2 ^ 32 - 1 \<Longrightarrow> world_run w'"
| run_create: "world_run w \<Longrightarrow> world_create_entity w = Some (e, w')
     \<Longrightarrow> length (generations (w_entities w')) \<le> 2 ^ 32 - 1 \<Longrightarrow> world_run w'"
| run_destroy: "world_run w \<Longrightarrow> world_alive w e \<longrightarrow> entity_live w e
     \<Longrightarrow> world_destroy_entity w e = Some w' \<Longrightarrow> world_run w'"
| run_add: "world_run w \<Longrightarrow> world_alive w e \<longrightarrow> entity_live w e
     \<Longrightarrow> world_add_component w e ty opt_value = Some w'
     \<Longrightarrow> length (s_tables (w_storage w')) \<le> 2 ^ 32 - 1 \<Longrightarrow> world_run w'"
| run_remove: "world_run w \<Longrightarrow> world_alive w e \<longrightarrow> entity_live w e
     \<Longrightarrow> world_remove_component w e ty = Some w'
     \<Longrightarrow> length (s_tables (w_storage w')) \<le> 2 ^ 32 - 1 \<Longrightarrow> world_run w'"

text \<open>
  Two stores differ in the contents of column buffers only: the entity manager, the
  registry, the locations, the version, the table map and, table by table, the id, the key,
  the entities and the number of columns are the same.
\<close>

definition table_shape :: "'v table \<Rightarrow> table_id \<times> archetype_key \<times> entity list \<times> nat" where
  "table_shape t = (t_id t, t_key t, t_entities t, length (t_columns t))"

definition same_shape :: "'v world \<Rightarrow> 'v world \<Rightarrow> bool" where
  "same_shape w w' =
     (w_entities w' = w_entities w \<and> w_registry w' = w_registry w \<and>
      w_locations w' = w_locations w \<and> w_empty_table w' = w_empty_table w \<and>
      w_version w' = w_version w \<and>
      s_key_tables (w_storage w') = s_key_tables (w_storage w) \<and>
      s_schema_version (w_storage w') = s_schema_version (w_storage w) \<and>
      map table_shape (s_tables (w_storage w')) = map table_shape (s_tables (w_storage w)))"

section \<open>A small store\<close>

text \<open>
  The store after registering three component types (\<open>100\<close>, \<open>101\<close>, \<open>102\<close>, with default
  values \<open>7\<close>, \<open>8\<close>, \<open>9\<close>), creating three entities, giving the first two the components
  \<open>100\<close> and \<open>101\<close>, and destroying the third. The theorems below are instantiated on it.
\<close>

definition example_info :: "component_id \<Rightarrow> type_index \<Rightarrow> nat \<Rightarrow> nat component_info" where
  "example_info cid ty dflt =
     \<lparr>ci_id = cid, ci_type = ty, ci_size = 4, ci_alignment = 4, ci_default_ctor = dflt\<rparr>"

definition example_table :: "nat table" where
  "example_table =
     \<lparr>t_id = 2, t_key = [0, 1],
      t_entities = [entity_make 0 0, entity_make 1 0],
      t_columns =
        [\<lparr>c_info = example_info 0 100 7,
          c_data = Some [Some 42, Some 52, None, None, None, None, None, None],
          c_size = 2, c_capacity = 8\<rparr>,
         \<lparr>c_info = example_info 1 101 8,
          c_data = Some [Some 43, Some 53, None, None, None, None, None, None],
          c_size = 2, c_capacity = 8\<rparr>],
      t_lookup_keys = [0, 1, 4294967295, 4294967295],
      t_lookup_vals = [0, 1, 0, 0],
      t_lookup_mask = 3\<rparr>"

definition example_world :: "nat world" where
  "example_world =
     \<lparr>w_entities = \<lparr>generations = [0, 0, 1], fragment = [2], alive_count = 2\<rparr>,
      w_registry =
        \<lparr>type_ids = [(102, 2), (101, 1), (100, 0)],
         type_infos = [example_info 0 100 7, example_info 1 101 8, example_info 2 102 9]\<rparr>,
      w_storage =
        \<lparr>s_schema_version = 3,
         s_key_tables = [([0, 1], 2), ([0], 1), ([], 0)],
         s_tables =
           [\<lparr>t_id = 0, t_key = [], t_entities = [], t_columns = [],
             t_lookup_keys = [], t_lookup_vals = [], t_lookup_mask = 0\<rparr>,
            \<lparr>t_id = 1, t_key = [0], t_entities = [],
             t_columns =
               [\<lparr>c_info = example_info 0 100 7,
                 c_data = Some [None, None, None, None, None, None, None, None],
                 c_size = 0, c_capacity = 8\<rparr>],
             t_lookup_keys = [0, 4294967295], t_lookup_vals = [0, 0], t_lookup_mask = 1\<rparr>,
            example_table]\<rparr>,
      w_empty_table = 0,
      w_locations =
        [\<lparr>loc_tid = 2, loc_row = 0\<rparr>, \<lparr>loc_tid = 2, loc_row = 1\<rparr>,
         \<lparr>loc_tid = 4294967295, loc_row = 0\<rparr>],
      w_version = 13\<rparr>"

text \<open>
  A second small store, with the run that produces it: a new store; the component types
  \<open>100\<close>, \<open>101\<close>, \<open>102\<close> registered with the default values \<open>7\<close>, \<open>8\<close>, \<open>9\<close>;
  \<^verbatim>\<open>reserve\<close> of two rows for the components \<open>100\<close> and \<open>101\<close>; two entities created; the
  components \<open>100\<close> and \<open>101\<close> added to the first entity with the values \<open>42\<close> and \<open>43\<close>.
\<close>

definition small_world :: "nat world" where
  "small_world =
     \<lparr>w_entities = \<lparr>generations = [0, 0], fragment = [], alive_count = 2\<rparr>,
      w_registry =
        \<lparr>type_ids = [(102, 2), (101, 1), (100, 0)],
         type_infos = [example_info 0 100 7, example_info 1 101 8, example_info 2 102 9]\<rparr>,
      w_storage =
        \<lparr>s_schema_version = 3, s_key_tables = [([0], 2), ([0, 1], 1), ([], 0)],
         s_tables =
           [\<lparr>t_id = 0, t_key = [], t_entities = [entity_make 1 0], t_columns = [],
             t_lookup_keys = [], t_lookup_vals = [], t_lookup_mask = 0\<rparr>,
            \<lparr>t_id = 1, t_key = [0, 1], t_entities = [entity_make 0 0],
             t_columns =
               [\<lparr>c_info = example_info 0 100 7, c_data = Some [Some 42, None], c_size = 1,
                 c_capacity = 2\<rparr>,
                \<lparr>c_info = example_info 1 101 8, c_data = Some [Some 43, None], c_size = 1,
                 c_capacity = 2\<rparr>],
             t_lookup_keys = [0, 1, 4294967295, 4294967295], t_lookup_vals = [0, 1, 0, 0],
             t_lookup_mask = 3\<rparr>,
            \<lparr>t_id = 2, t_key = [0], t_entities = [],
             t_columns =
               [\<lparr>c_info = example_info 0 100 7,
                 c_data = Some [None, None, None, None, None, None, None, None], c_size = 0,
                 c_capacity = 8\<rparr>],
             t_lookup_keys = [0, 4294967295], t_lookup_vals = [0, 0], t_lookup_mask = 1\<rparr>]\<rparr>,
      w_empty_table = 0,
      w_locations =
        [\<lparr>loc_tid = 1, loc_row = 0\<rparr>, \<lparr>loc_tid = 0, loc_row = 0\<rparr>],
      w_version = 7\<rparr>"

text \<open>
  The store of that run after the two entities are created, before the components are
  added: both entities are rows of the table of the empty key.
\<close>

definition two_row_world :: "nat world" where
  "two_row_world =
     \<lparr>w_entities = \<lparr>generations = [0, 0], fragment = [], alive_count = 2\<rparr>,
      w_registry =
        \<lparr>type_ids = [(102, 2), (101, 1), (100, 0)],
         type_infos = [example_info 0 100 7, example_info 1 101 8, example_info 2 102 9]\<rparr>,
      w_storage =
        \<lparr>s_schema_version = 2, s_key_tables = [([0, 1], 1), ([], 0)],
         s_tables =
           [\<lparr>t_id = 0, t_key = [], t_entities = [entity_make 0 0, entity_make 1 0],
             t_columns = [], t_lookup_keys = [], t_lookup_vals = [], t_lookup_mask = 0\<rparr>,
            \<lparr>t_id = 1, t_key = [0, 1], t_entities = [],
             t_columns =
               [\<lparr>c_info = example_info 0 100 7, c_data = Some [None, None], c_size = 0,
                 c_capacity = 2\<rparr>,
                \<lparr>c_info = example_info 1 101 8, c_data = Some [None, None], c_size = 0,
                 c_capacity = 2\<rparr>],
             t_lookup_keys = [0, 1, 4294967295, 4294967295], t_lookup_vals = [0, 1, 0, 0],
             t_lookup_mask = 3\<rparr>]\<rparr>,
      w_empty_table = 0,
      w_locations =
        [\<lparr>loc_tid = 0, loc_row = 0\<rparr>, \<lparr>loc_tid = 0, loc_row = 1\<rparr>],
      w_version = 3\<rparr>"



section \<open>Entity handles: packing\<close>

lemma entity_index_make: "entity_index (entity_make i g) = i"
  unfolding entity_index_def entity_make_def
  by (simp, rule bit_word_eqI) (auto simp: bit_simps dest: bit_imp_le_length)

lemma entity_generation_make: "entity_generation (entity_make i g) = g"
  unfolding entity_generation_def entity_make_def
  by (simp, rule bit_word_eqI) (auto simp: bit_simps)

lemma entity_make_invalid_iff:
  "entity_value (entity_make i g) = INVALID_ENTITY \<longleftrightarrow> i = - 1 \<and> g = - 1"
proof
  assume h: "entity_value (entity_make i g) = INVALID_ENTITY"
  have "entity_index (entity_make i g) = entity_index (Entity INVALID_ENTITY)"
    and "entity_generation (entity_make i g) = entity_generation (Entity INVALID_ENTITY)"
    using h by (cases "entity_make i g"; simp)+
  moreover have "entity_index (Entity INVALID_ENTITY) = - 1"
    unfolding entity_index_def INVALID_ENTITY_def
    by (simp, rule bit_word_eqI) (auto simp: bit_simps)
  moreover have "entity_generation (Entity INVALID_ENTITY) = - 1"
    unfolding entity_generation_def INVALID_ENTITY_def
    by (simp, rule bit_word_eqI) (auto simp: bit_simps)
  ultimately show "i = - 1 \<and> g = - 1"
    by (simp add: entity_index_make entity_generation_make)
next
  assume "i = - 1 \<and> g = - 1"
  then show "entity_value (entity_make i g) = INVALID_ENTITY"
    unfolding entity_make_def INVALID_ENTITY_def
    by (simp, intro bit_word_eqI) (auto simp: bit_simps)
qed

text \<open>
  C10. Packing and unpacking a handle round-trip exactly: for every 32-bit index \<open>i\<close> and
  generation \<open>g\<close>, \<open>entity::make(i, g).index() = i\<close> and \<open>.generation() = g\<close>; and the
  handle is \<open>valid()\<close> exactly when the packed value is not the all-ones \<open>INVALID_ENTITY\<close>
  pattern, which is the handle of the one pair \<open>i = g = 0xFFFFFFFF\<close>.
\<close>

theorem entity_make_roundtrip:
  "entity_index (entity_make i g) = i
   \<and> entity_generation (entity_make i g) = g
   \<and> entity_valid (entity_make i g) = (entity_value (entity_make i g) \<noteq> INVALID_ENTITY)
   \<and> entity_valid (entity_make i g) = (entity_make i g \<noteq> entity_make 0xFFFFFFFF 0xFFFFFFFF)"
proof -
  have m: "(0xFFFFFFFF :: 32 word) = - 1"
    by simp
  have "entity_value (entity_make 0xFFFFFFFF 0xFFFFFFFF) = INVALID_ENTITY"
    unfolding m by (simp add: entity_make_invalid_iff)
  then have "(entity_make i g \<noteq> entity_make 0xFFFFFFFF 0xFFFFFFFF)
      = (entity_value (entity_make i g) \<noteq> INVALID_ENTITY)"
    by (metis entity.expand)
  then show ?thesis
    by (simp add: entity_index_make entity_generation_make entity_valid_def)
qed

section \<open>The frame scheduler: slice ranges\<close>

text \<open>
  C1. The slice ranges of a framebuffer of height \<open>H\<close> should cover the rows \<open>0..H-1\<close>
  exactly once. At \<open>H = 7\<close> the code computes the ranges below: the fifth range is the row
  \<open>7\<close>, which is not a row of the framebuffer, so the rows handed to the slices are not
  the rows \<open>0..6\<close>.
\<close>

theorem compute_slice_ranges_height_7:
  "compute_slice_ranges 7 =
     [\<lparr>y0 = 0, y1 = 3\<rparr>, \<lparr>y0 = 4, y1 = 4\<rparr>, \<lparr>y0 = 5, y1 = 5\<rparr>,
      \<lparr>y0 = 6, y1 = 6\<rparr>, \<lparr>y0 = 7, y1 = 7\<rparr>, \<lparr>y0 = 8, y1 = 6\<rparr>]
   \<and> slice_rows 7 = [0, 1, 2, 3, 4, 5, 6, 7]
   \<and> set (slice_rows 7) \<noteq> {0 .. sint (7 :: 32 word) - 1}"
proof -
  have r: "compute_slice_ranges 7 =
     [\<lparr>y0 = 0, y1 = 3\<rparr>, \<lparr>y0 = 4, y1 = 4\<rparr>, \<lparr>y0 = 5, y1 = 5\<rparr>,
      \<lparr>y0 = 6, y1 = 6\<rparr>, \<lparr>y0 = 7, y1 = 7\<rparr>, \<lparr>y0 = 8, y1 = 6\<rparr>]"
    by code_simp
  have s: "slice_rows 7 = [0, 1, 2, 3, 4, 5, 6, 7]"
    by code_simp
  have "(7::int) \<in> set (slice_rows 7)"
    unfolding s by simp
  moreover have "(7::int) \<notin> {0 .. sint (7 :: 32 word) - 1}"
    by simp
  ultimately have "set (slice_rows 7) \<noteq> {0 .. sint (7 :: 32 word) - 1}"
    by blast
  with r s show ?thesis
    by simp
qed

section \<open>The entity manager: identity of handles\<close>

lemma em_inv_init: "em_inv em_init"
  by (simp add: em_inv_def em_init_def)

lemma em_create_entity_inv:
  assumes "em_inv m" "em_create_entity m = Some (e, m')"
  shows "em_inv m'"
proof (cases "fragment m = []")
  case True
  with assms show ?thesis
    by (auto simp: em_inv_def em_create_entity_def list_all_iff split: if_splits)
next
  case False
  then obtain xs x where f: "fragment m = xs @ [x]"
    by (metis append_butlast_last_id)
  with assms show ?thesis
    by (auto simp: em_inv_def em_create_entity_def list_all_iff split: if_splits)
qed

lemma em_destroy_entity_inv:
  assumes "em_inv m" "\<not> em_alive m e \<or> entity_index e \<notin> set (fragment m)"
  shows "em_inv (em_destroy_entity m e)"
  using assms
  by (auto simp: em_inv_def em_destroy_entity_def em_alive_def Let_def list_all_iff split: if_splits)

lemma em_reachable_inv: "em_reachable m \<Longrightarrow> em_inv m"
  by (induction rule: em_reachable.induct)
     (auto intro: em_inv_init em_create_entity_inv em_destroy_entity_inv)

lemma unat_word_of_nat_le: "unat (word_of_nat n :: 32 word) \<le> n"
  by (simp add: unat_of_nat)

lemma em_create_entity_total:
  assumes "em_inv m"
  shows "\<exists>e m'. em_create_entity m = Some (e, m')"
proof (cases "fragment m = []")
  case True
  have "unat (word_of_nat (length (generations m)) :: 32 word) < Suc (length (generations m))"
    using unat_word_of_nat_le [of "length (generations m)"] by simp
  with True show ?thesis
    by (simp add: em_create_entity_def)
next
  case False
  then have "last (fragment m) \<in> set (fragment m)" by simp
  with assms False show ?thesis
    by (auto simp: em_inv_def em_create_entity_def list_all_iff)
qed

lemma em_create_two_distinct:
  assumes inv: "em_inv m" and cap: "length (generations m) < 2 ^ 32"
  shows "\<exists>e1 m1 e2 m2. em_create_entity m = Some (e1, m1) \<and> em_create_entity m1 = Some (e2, m2)
           \<and> entity_index e1 \<noteq> entity_index e2"
proof -
  obtain e1 m1 where c1: "em_create_entity m = Some (e1, m1)"
    using em_create_entity_total [OF inv] by blast
  have inv1: "em_inv m1"
    using em_create_entity_inv [OF inv c1] .
  obtain e2 m2 where c2: "em_create_entity m1 = Some (e2, m2)"
    using em_create_entity_total [OF inv1] by blast
  have "entity_index e1 \<noteq> entity_index e2"
  proof (cases "fragment m = []")
    case True
    let ?n = "length (generations m)"
    from True c1 have i1: "entity_index e1 = word_of_nat ?n" and f1: "fragment m1 = []"
      and g1: "length (generations m1) = Suc ?n"
      by (auto simp: em_create_entity_def entity_index_make split: if_splits)
    from f1 g1 c2 have i2: "entity_index e2 = word_of_nat (Suc ?n)"
      by (auto simp: em_create_entity_def entity_index_make split: if_splits)
    show ?thesis
      unfolding i1 i2 by simp
  next
    case False
    then obtain xs x where f: "fragment m = xs @ [x]"
      by (metis append_butlast_last_id)
    from f c1 have i1: "entity_index e1 = x" and f1: "fragment m1 = xs"
      and g1: "generations m1 = generations m"
      by (auto simp: em_create_entity_def entity_index_make split: if_splits)
    from inv f have xn: "x \<notin> set xs" and xr: "unat x < length (generations m)"
      by (auto simp: em_inv_def)
    show ?thesis
    proof (cases "xs = []")
      case True
      with f1 g1 c2 have "entity_index e2 = word_of_nat (length (generations m))"
        by (auto simp: em_create_entity_def entity_index_make split: if_splits)
      moreover have "unat (word_of_nat (length (generations m)) :: 32 word) = length (generations m)"
        using cap by (simp add: unat_of_nat)
      ultimately show ?thesis
        using xr i1 by auto
    next
      case False
      with f1 c2 have "entity_index e2 = last xs"
        by (auto simp: em_create_entity_def entity_index_make split: if_splits)
      with False xn i1 show ?thesis
        by (metis last_in_set)
    qed
  qed
  with c1 c2 show ?thesis by blast
qed

lemma word_lt_succ: "x \<noteq> - 1 \<Longrightarrow> x < x + 1" for x :: "32 word"
  using inc_less_eq_triv_imp [of x] by (auto simp: not_le [symmetric])

lemma em_destroy_not_alive:
  assumes "em_alive m e"
  shows "\<not> em_alive (em_destroy_entity m e) e"
  using assms by (auto simp: em_alive_def em_destroy_entity_def Let_def)

lemma em_destroy_entity_alive_eq:
  assumes "em_alive m e"
  shows "em_destroy_entity m e =
      m\<lparr>generations := (generations m)[unat (entity_index e) := entity_generation e + 1],
        fragment := fragment m @ [entity_index e], alive_count := alive_count m - 1\<rparr>"
proof -
  from assms have "generations m ! unat (entity_index e) = entity_generation e"
    by (auto simp: em_alive_def split: if_splits)
  with assms show ?thesis
    by (simp add: em_destroy_entity_def Let_def)
qed

lemma em_alive_in_range: "em_alive m e \<Longrightarrow> unat (entity_index e) < length (generations m)"
  by (auto simp: em_alive_def split: if_splits)

lemma em_destroy_then_create:
  assumes "em_alive m e"
  shows "\<exists>m'. em_create_entity (em_destroy_entity m e)
            = Some (entity_make (entity_index e) (entity_generation e + 1), m')"
  unfolding em_destroy_entity_alive_eq [OF assms]
  using em_alive_in_range [OF assms] by (simp add: em_create_entity_def)

lemma em_slot_free_destroy:
  assumes "em_alive m e"
  shows "em_slot_free (em_destroy_entity m e) (entity_index e) (entity_generation e + 1)"
  unfolding em_destroy_entity_alive_eq [OF assms]
  using em_alive_in_range [OF assms] by (simp add: em_slot_free_def)

lemma em_slot_free_create:
  assumes "em_slot_free m i g" "em_create_entity m = Some (e', m')"
  shows "(entity_index e' = i \<and> entity_generation e' = g) \<or> (entity_index e' \<noteq> i \<and> em_slot_free m' i g)"
proof -
  from assms(1) have ne: "fragment m \<noteq> []"
    by (auto simp: em_slot_free_def)
  then obtain xs x where f: "fragment m = xs @ [x]"
    by (metis append_butlast_last_id)
  from f assms(2) have e': "e' = entity_make x (generations m ! unat x)"
    and m': "fragment m' = xs" "generations m' = generations m"
    by (auto simp: em_create_entity_def split: if_splits)
  show ?thesis
  proof (cases "x = i")
    case True
    with assms(1) e' show ?thesis
      by (simp add: em_slot_free_def entity_index_make entity_generation_make)
  next
    case False
    with assms(1) f e' m' show ?thesis
      by (auto simp: em_slot_free_def entity_index_make)
  qed
qed

lemma em_slot_free_other_destroy:
  assumes "em_slot_free m i g" "\<not> (entity_index e0 = i \<and> em_alive m e0)"
  shows "em_slot_free (em_destroy_entity m e0) i g"
proof (cases "em_alive m e0")
  case False
  with assms(1) show ?thesis
    by (simp add: em_destroy_entity_def)
next
  case True
  with assms(2) have "unat (entity_index e0) \<noteq> unat i"
    by (simp add: word_unat_eq_iff)
  with assms(1) show ?thesis
    unfolding em_destroy_entity_alive_eq [OF True] by (simp add: em_slot_free_def)
qed

lemma em_next_recycled_generation:
  assumes "em_slot_free m i g" "em_run_clean m ops" "em_next_recycled m i ops = Some e'"
  shows "entity_index e' = i \<and> entity_generation e' = g"
  using assms
proof (induction m i ops rule: em_next_recycled.induct)
  case (1 m i)
  then show ?case by simp
next
  case (2 m i ops)
  from "2.prems"(3) obtain e1 m1 where c: "em_create_entity m = Some (e1, m1)"
    by (auto split: option.splits)
  show ?case
  proof (cases "entity_index e1 = i")
    case True
    with c "2.prems"(3) have "e' = e1" by simp
    with em_slot_free_create [OF "2.prems"(1) c] True show ?thesis by simp
  next
    case False
    with em_slot_free_create [OF "2.prems"(1) c] have "em_slot_free m1 i g" by simp
    moreover from c "2.prems"(2) have "em_run_clean m1 ops" by simp
    moreover from False c "2.prems"(3) have "em_next_recycled m1 i ops = Some e'" by simp
    ultimately show ?thesis
      using "2.IH" [of "(e1, m1)" e1 m1] c False by simp
  qed
next
  case (3 m i e0 ops)
  from "3.prems"(1) have "i \<in> set (fragment m)"
    by (simp add: em_slot_free_def)
  with "3.prems"(2) have n: "\<not> (entity_index e0 = i \<and> em_alive m e0)"
    and cl: "em_run_clean (em_destroy_entity m e0) ops"
    by auto
  from "3.prems"(3) have "em_next_recycled (em_destroy_entity m e0) i ops = Some e'"
    by simp
  with "3.IH" [OF em_slot_free_other_destroy [OF "3.prems"(1) n] cl] show ?case .
qed

lemma em_reachable_one_slot:
  "em_reachable \<lparr>generations = [word_of_nat n], fragment = [], alive_count = 1\<rparr>"
proof (induction n)
  case 0
  have "em_create_entity em_init
      = Some (entity_make 0 0, \<lparr>generations = [0], fragment = [], alive_count = 1\<rparr>)"
    by (simp add: em_create_entity_def em_init_def)
  from em_reach_create [OF em_reach_init this] show ?case by simp
next
  case (Suc n)
  let ?m = "\<lparr>generations = [word_of_nat n], fragment = [], alive_count = 1\<rparr>"
  let ?e = "entity_make 0 (word_of_nat n)"
  have v: "entity_valid ?e"
    by (simp add: entity_valid_def entity_make_invalid_iff)
  then have a: "em_alive ?m ?e"
    by (simp add: em_alive_def entity_index_make entity_generation_make)
  have d: "em_destroy_entity ?m ?e
      = \<lparr>generations = [word_of_nat n + 1], fragment = [0], alive_count = 0\<rparr>"
    unfolding em_destroy_entity_alive_eq [OF a]
    by (simp add: entity_index_make entity_generation_make)
  have r: "em_reachable (em_destroy_entity ?m ?e)"
    by (rule em_reach_destroy [OF Suc a]) simp
  have c: "em_create_entity (em_destroy_entity ?m ?e)
      = Some (entity_make 0 (word_of_nat n + 1),
              \<lparr>generations = [word_of_nat n + 1], fragment = [], alive_count = 1\<rparr>)"
    unfolding d by (simp add: em_create_entity_def)
  from em_reach_create [OF r c] show ?case
    by (simp add: add.commute)
qed

lemma em_reachable_fresh_slots:
  "em_reachable \<lparr>generations = replicate n 0, fragment = [], alive_count = word_of_nat n\<rparr>"
proof (induction n)
  case 0
  from em_reach_init show ?case
    by (simp add: em_init_def)
next
  case (Suc n)
  let ?m = "\<lparr>generations = replicate n (0 :: fecs_id), fragment = [], alive_count = word_of_nat n\<rparr>"
  have "unat (word_of_nat n :: 32 word) < Suc n"
    using unat_word_of_nat_le [of n] by simp
  then have "em_create_entity ?m
      = Some (entity_make (word_of_nat n) 0,
              \<lparr>generations = replicate (Suc n) 0, fragment = [], alive_count = word_of_nat (Suc n)\<rparr>)"
    by (simp add: em_create_entity_def replicate_append_same nth_append nth_Cons'
        flip: replicate_Suc)
  from em_reach_create [OF Suc this] show ?case .
qed

text \<open>
  The manager with \<open>n\<close> slots, all but slot \<open>0\<close> in use at generation \<open>0\<close>, slot \<open>0\<close> freed
  once. When \<open>n\<close> is a multiple of \<open>2^32\<close>, \<^verbatim>\<open>static_cast<fecs_id>(generations_.size())\<close> is
  \<open>0\<close>, and the second of two consecutive \<^verbatim>\<open>create_entity\<close> calls returns the handle that
  the first one returned.
\<close>

lemma em_full_reachable:
  assumes "0 < n"
  shows "em_reachable \<lparr>generations = (replicate n 0)[0 := 1], fragment = [0],
                        alive_count = word_of_nat n - 1\<rparr>"
proof -
  let ?m = "\<lparr>generations = replicate n (0 :: fecs_id), fragment = [], alive_count = word_of_nat n\<rparr>"
  have "entity_valid (entity_make 0 0)"
    by (simp add: entity_valid_def entity_make_invalid_iff)
  with assms have a: "em_alive ?m (entity_make 0 0)"
    by (simp add: em_alive_def entity_index_make entity_generation_make)
  have "em_reachable (em_destroy_entity ?m (entity_make 0 0))"
    by (rule em_reach_destroy [OF em_reachable_fresh_slots a]) simp
  then show ?thesis
    unfolding em_destroy_entity_alive_eq [OF a]
    by (simp add: entity_index_make entity_generation_make)
qed

lemma em_full_same_handle:
  assumes "0 < n" "(word_of_nat n :: fecs_id) = 0"
  shows "\<exists>m1 m2.
      em_create_entity \<lparr>generations = (replicate n 0)[0 := 1], fragment = [0],
                         alive_count = word_of_nat n - 1\<rparr> = Some (entity_make 0 1, m1)
    \<and> em_create_entity m1 = Some (entity_make 0 1, m2)"
  using assms by (simp add: em_create_entity_def nth_append)

text \<open>
  C5 (amended). In a manager whose free list is duplicate-free and in range, with fewer than
  \<open>2^32\<close> slots (every state that \<^verbatim>\<open>create_entity\<close>, and \<^verbatim>\<open>destroy_entity\<close> of handles whose
  slot is not free, produce has such a free list), two consecutive \<^verbatim>\<open>create_entity\<close> calls
  return handles of different slots. For every alive \<open>e\<close>, \<open>alive(e)\<close> is false after
  \<^verbatim>\<open>destroy_entity(e)\<close>; the slot is recycled by the very next \<^verbatim>\<open>create_entity\<close>; and in
  every run of \<^verbatim>\<open>create_entity\<close> and \<^verbatim>\<open>destroy_entity\<close> calls after it in which no call
  destroys a handle that passes \<^verbatim>\<open>alive\<close> while its slot is on the free list, the handle
  returned when the slot is next recycled carries the generation \<open>e.generation() + 1\<close>
  modulo \<open>2^32\<close>, which is strictly greater unless \<open>e.generation()\<close> is \<open>0xFFFFFFFF\<close>.
\<close>

theorem em_handle_identity:
  "(em_reachable m \<longrightarrow> em_inv m)
   \<and> (em_inv m \<and> length (generations m) < 2 ^ 32 \<longrightarrow>
      (\<exists>e1 m1 e2 m2. em_create_entity m = Some (e1, m1) \<and> em_create_entity m1 = Some (e2, m2)
          \<and> entity_index e1 \<noteq> entity_index e2))
   \<and> (em_alive m e \<longrightarrow>
        \<not> em_alive (em_destroy_entity m e) e
      \<and> em_next_recycled (em_destroy_entity m e) (entity_index e) [Op_create]
          = Some (entity_make (entity_index e) (entity_generation e + 1))
      \<and> (\<forall>ops e'. em_run_clean (em_destroy_entity m e) ops
              \<and> em_next_recycled (em_destroy_entity m e) (entity_index e) ops = Some e'
            \<longrightarrow> entity_index e' = entity_index e
              \<and> entity_generation e' = entity_generation e + 1
              \<and> (entity_generation e \<noteq> 0xFFFFFFFF \<longrightarrow> entity_generation e < entity_generation e')))"
proof (intro conjI impI allI)
  assume "em_reachable m"
  then show "em_inv m"
    by (rule em_reachable_inv)
next
  assume "em_inv m \<and> length (generations m) < 2 ^ 32"
  then show "\<exists>e1 m1 e2 m2. em_create_entity m = Some (e1, m1) \<and> em_create_entity m1 = Some (e2, m2)
      \<and> entity_index e1 \<noteq> entity_index e2"
    using em_create_two_distinct [of m] by blast
next
  assume "em_alive m e"
  then show "\<not> em_alive (em_destroy_entity m e) e"
    by (rule em_destroy_not_alive)
next
  assume "em_alive m e"
  from em_destroy_then_create [OF this]
  show "em_next_recycled (em_destroy_entity m e) (entity_index e) [Op_create]
      = Some (entity_make (entity_index e) (entity_generation e + 1))"
    by (auto simp: entity_index_make)
next
  fix ops e'
  assume a: "em_alive m e"
    and n: "em_run_clean (em_destroy_entity m e) ops
      \<and> em_next_recycled (em_destroy_entity m e) (entity_index e) ops = Some e'"
  from em_next_recycled_generation [OF em_slot_free_destroy [OF a] conjunct1 [OF n] conjunct2 [OF n]]
  show "entity_index e' = entity_index e" and g: "entity_generation e' = entity_generation e + 1"
    by simp_all
  assume "entity_generation e \<noteq> 0xFFFFFFFF"
  moreover have "(0xFFFFFFFF :: 32 word) = - 1"
    by simp
  ultimately have "entity_generation e \<noteq> - 1"
    by simp
  then show "entity_generation e < entity_generation e'"
    unfolding g by (rule word_lt_succ)
qed

text \<open>
  The amended C5 on the manager with the two slots \<open>0\<close> and \<open>1\<close> in use at generation
  \<open>0\<close>, which two \<^verbatim>\<open>create_entity\<close> calls produce: two more calls return the slots \<open>2\<close> and
  \<open>3\<close>; and after \<^verbatim>\<open>destroy_entity\<close> of the handle of slot \<open>0\<close>, the run that destroys the
  handle of slot \<open>1\<close> and creates two entities recycles slot \<open>1\<close> first and then slot \<open>0\<close>,
  with generation \<open>1\<close>.
\<close>

theorem em_handle_identity_witness:
  "em_reachable \<lparr>generations = [0, 0], fragment = [], alive_count = 2\<rparr>
   \<and> em_inv \<lparr>generations = [0, 0], fragment = [], alive_count = 2\<rparr>
   \<and> length (generations \<lparr>generations = [0, 0], fragment = [], alive_count = 2\<rparr>) < 2 ^ 32
   \<and> em_alive \<lparr>generations = [0, 0], fragment = [], alive_count = 2\<rparr> (entity_make 0 0)
   \<and> (\<exists>e1 m1 e2 m2.
         em_create_entity \<lparr>generations = [0, 0], fragment = [], alive_count = 2\<rparr> = Some (e1, m1)
         \<and> em_create_entity m1 = Some (e2, m2)
         \<and> entity_index e1 \<noteq> entity_index e2)
   \<and> \<not> em_alive (em_destroy_entity \<lparr>generations = [0, 0], fragment = [], alive_count = 2\<rparr>
          (entity_make 0 0)) (entity_make 0 0)
   \<and> em_next_recycled (em_destroy_entity \<lparr>generations = [0, 0], fragment = [], alive_count = 2\<rparr>
          (entity_make 0 0)) 0 [Op_create] = Some (entity_make 0 1)
   \<and> em_run_clean (em_destroy_entity \<lparr>generations = [0, 0], fragment = [], alive_count = 2\<rparr>
          (entity_make 0 0)) [Op_destroy (entity_make 1 0), Op_create, Op_create]
   \<and> em_next_recycled (em_destroy_entity \<lparr>generations = [0, 0], fragment = [], alive_count = 2\<rparr>
          (entity_make 0 0)) 0 [Op_destroy (entity_make 1 0), Op_create, Op_create]
        = Some (entity_make 0 1)
   \<and> entity_generation (entity_make 0 0) \<noteq> 0xFFFFFFFF
   \<and> entity_generation (entity_make 0 0) < entity_generation (entity_make 0 1)"
proof -
  let ?m = "\<lparr>generations = [0, 0], fragment = [], alive_count = 2\<rparr>"
  let ?e = "entity_make 0 0"
  let ?ops = "[Op_destroy (entity_make 1 0), Op_create, Op_create]"
  have r: "em_reachable ?m"
    using em_reachable_fresh_slots [of 2] by (simp add: numeral_2_eq_2)
  have i: "em_inv ?m" and l: "length (generations ?m) < 2 ^ 32"
    by (simp_all add: em_inv_def)
  have v: "entity_valid ?e" "entity_valid (entity_make 1 0)"
    by (simp_all add: entity_valid_def entity_make_invalid_iff)
  then have a: "em_alive ?m ?e"
    by (simp add: em_alive_def entity_index_make entity_generation_make)
  have g: "entity_generation ?e \<noteq> 0xFFFFFFFF"
    by (simp add: entity_generation_make)
  have d: "em_destroy_entity ?m ?e = \<lparr>generations = [1, 0], fragment = [0], alive_count = 1\<rparr>"
    unfolding em_destroy_entity_alive_eq [OF a]
    by (simp add: entity_index_make entity_generation_make)
  have a1: "em_alive \<lparr>generations = [1, 0], fragment = [0], alive_count = 1\<rparr> (entity_make 1 0)"
    using v by (simp add: em_alive_def entity_index_make entity_generation_make)
  have d1: "em_destroy_entity \<lparr>generations = [1, 0], fragment = [0], alive_count = 1\<rparr> (entity_make 1 0)
      = \<lparr>generations = [1, 1], fragment = [0, 1], alive_count = 0\<rparr>"
    unfolding em_destroy_entity_alive_eq [OF a1]
    by (simp add: entity_index_make entity_generation_make)
  have c: "em_run_clean (em_destroy_entity ?m ?e) ?ops"
    unfolding d by (simp add: d1 entity_index_make em_create_entity_def)
  have n: "em_next_recycled (em_destroy_entity ?m ?e) 0 ?ops = Some (entity_make 0 1)"
    unfolding d by (simp add: d1 em_create_entity_def entity_index_make)
  note t = em_handle_identity [of ?m ?e]
  from t i l have 1: "\<exists>e1 m1 e2 m2. em_create_entity ?m = Some (e1, m1)
      \<and> em_create_entity m1 = Some (e2, m2) \<and> entity_index e1 \<noteq> entity_index e2"
    by blast
  from t a have 2: "\<not> em_alive (em_destroy_entity ?m ?e) ?e"
    by blast
  have ix: "entity_index ?e = 0" and gx: "entity_generation ?e + 1 = 1"
    by (simp_all add: entity_index_make entity_generation_make)
  from t a have "em_next_recycled (em_destroy_entity ?m ?e) (entity_index ?e) [Op_create]
      = Some (entity_make (entity_index ?e) (entity_generation ?e + 1))"
    by blast
  then have 3: "em_next_recycled (em_destroy_entity ?m ?e) 0 [Op_create] = Some (entity_make 0 1)"
    unfolding ix gx .
  from t a have "\<forall>ops e'. em_run_clean (em_destroy_entity ?m ?e) ops
        \<and> em_next_recycled (em_destroy_entity ?m ?e) (entity_index ?e) ops = Some e'
      \<longrightarrow> entity_index e' = entity_index ?e
        \<and> entity_generation e' = entity_generation ?e + 1
        \<and> (entity_generation ?e \<noteq> 0xFFFFFFFF \<longrightarrow> entity_generation ?e < entity_generation e')"
    by blast
  from this [unfolded ix, rule_format, OF conjI [OF c n]] g
  have 4: "entity_generation ?e < entity_generation (entity_make 0 1)"
    by blast
  from r i l a 1 2 3 c n g 4 show ?thesis
    by blast
qed

text \<open>
  C5 as stated fails in three states that the interface of the manager produces.

  The generation wraps: the manager with the one slot \<open>0\<close> at generation \<open>0xFFFFFFFF\<close> is
  reached by creating an entity and then destroying and re-creating it \<open>2^32 - 1\<close> times;
  the handle of that slot is alive, and after its destruction the slot is recycled with
  generation \<open>0\<close>, which is not greater.

  A slot is freed twice: after \<^verbatim>\<open>create_entity\<close> and \<^verbatim>\<open>destroy_entity\<close> of the handle
  \<open>(0, 0)\<close>, the handle \<open>(0, 1)\<close>, which no call has returned, passes \<^verbatim>\<open>alive\<close>;
  \<^verbatim>\<open>destroy_entity\<close> of it puts slot \<open>0\<close> on the free list a second time, and the next two
  \<^verbatim>\<open>create_entity\<close> calls both return the handle \<open>(0, 2)\<close>. The same run shows the slot
  recycled with generation \<open>e.generation() + 2\<close>.

  The slot count wraps: with \<open>2^32\<close> slots, reached by \<open>2^32\<close> \<^verbatim>\<open>create_entity\<close> calls, and
  slot \<open>0\<close> freed, two consecutive \<^verbatim>\<open>create_entity\<close> calls both return the handle \<open>(0, 1)\<close>.
\<close>

theorem em_generation_wrap_counterexample:
  "(em_reachable \<lparr>generations = [0xFFFFFFFF], fragment = [], alive_count = 1\<rparr>
    \<and> em_alive \<lparr>generations = [0xFFFFFFFF], fragment = [], alive_count = 1\<rparr>
         (entity_make 0 0xFFFFFFFF)
    \<and> em_next_recycled
         (em_destroy_entity \<lparr>generations = [0xFFFFFFFF], fragment = [], alive_count = 1\<rparr>
            (entity_make 0 0xFFFFFFFF))
         (entity_index (entity_make 0 0xFFFFFFFF)) [Op_create] = Some (entity_make 0 0)
    \<and> \<not> entity_generation (entity_make 0 0xFFFFFFFF) < entity_generation (entity_make 0 0))
   \<and> (em_reachable \<lparr>generations = [0], fragment = [], alive_count = 1\<rparr>
    \<and> em_alive \<lparr>generations = [0], fragment = [], alive_count = 1\<rparr> (entity_make 0 0)
    \<and> em_alive (em_destroy_entity \<lparr>generations = [0], fragment = [], alive_count = 1\<rparr>
          (entity_make 0 0)) (entity_make 0 1)
    \<and> (\<exists>m1 m2.
          em_create_entity
            (em_destroy_entity
               (em_destroy_entity \<lparr>generations = [0], fragment = [], alive_count = 1\<rparr>
                  (entity_make 0 0))
               (entity_make 0 1)) = Some (entity_make 0 2, m1)
        \<and> em_create_entity m1 = Some (entity_make 0 2, m2))
    \<and> em_next_recycled
         (em_destroy_entity \<lparr>generations = [0], fragment = [], alive_count = 1\<rparr> (entity_make 0 0))
         0 [Op_destroy (entity_make 0 1), Op_create] = Some (entity_make 0 2))
   \<and> (em_reachable \<lparr>generations = (replicate (2 ^ 32) 0)[0 := 1], fragment = [0],
                       alive_count = word_of_nat (2 ^ 32) - 1\<rparr>
    \<and> em_inv \<lparr>generations = (replicate (2 ^ 32) 0)[0 := 1], fragment = [0],
                alive_count = word_of_nat (2 ^ 32) - 1\<rparr>
    \<and> (\<exists>m1 m2.
          em_create_entity \<lparr>generations = (replicate (2 ^ 32) 0)[0 := 1], fragment = [0],
                             alive_count = word_of_nat (2 ^ 32) - 1\<rparr> = Some (entity_make 0 1, m1)
        \<and> em_create_entity m1 = Some (entity_make 0 1, m2)))"
proof (intro conjI)
  let ?m = "\<lparr>generations = [0xFFFFFFFF :: 32 word], fragment = [], alive_count = 1\<rparr>"
  let ?e = "entity_make 0 0xFFFFFFFF"
  have "em_reachable \<lparr>generations = [word_of_nat 4294967295], fragment = [], alive_count = 1\<rparr>"
    by (rule em_reachable_one_slot)
  then show "em_reachable ?m"
    by simp
  have "entity_valid ?e"
    by (simp add: entity_valid_def entity_make_invalid_iff)
  then show a: "em_alive ?m ?e"
    by (simp add: em_alive_def entity_index_make entity_generation_make)
  have d: "em_destroy_entity ?m ?e = \<lparr>generations = [0], fragment = [0], alive_count = 0\<rparr>"
    unfolding em_destroy_entity_alive_eq [OF a]
    by (simp add: entity_index_make entity_generation_make)
  show "em_next_recycled (em_destroy_entity ?m ?e) (entity_index ?e) [Op_create]
      = Some (entity_make 0 0)"
    unfolding d by (simp add: em_create_entity_def entity_index_make)
  show "\<not> entity_generation ?e < entity_generation (entity_make 0 0)"
    by (simp add: entity_generation_make)
next
  let ?m = "\<lparr>generations = [0 :: 32 word], fragment = [], alive_count = 1\<rparr>"
  show "em_reachable ?m"
    using em_reachable_one_slot [of 0] by simp
  have v: "entity_valid (entity_make 0 0)" "entity_valid (entity_make 0 1)"
    by (simp_all add: entity_valid_def entity_make_invalid_iff)
  then show a: "em_alive ?m (entity_make 0 0)"
    by (simp add: em_alive_def entity_index_make entity_generation_make)
  have d: "em_destroy_entity ?m (entity_make 0 0)
      = \<lparr>generations = [1], fragment = [0], alive_count = 0\<rparr>"
    unfolding em_destroy_entity_alive_eq [OF a]
    by (simp add: entity_index_make entity_generation_make)
  show a1: "em_alive (em_destroy_entity ?m (entity_make 0 0)) (entity_make 0 1)"
    unfolding d using v by (simp add: em_alive_def entity_index_make entity_generation_make)
  have d1: "em_destroy_entity (em_destroy_entity ?m (entity_make 0 0)) (entity_make 0 1)
      = \<lparr>generations = [2], fragment = [0, 0], alive_count = - 1\<rparr>"
    unfolding em_destroy_entity_alive_eq [OF a1] unfolding d
    by (simp add: entity_index_make entity_generation_make)
  show "\<exists>m1 m2.
      em_create_entity (em_destroy_entity (em_destroy_entity ?m (entity_make 0 0)) (entity_make 0 1))
        = Some (entity_make 0 2, m1)
    \<and> em_create_entity m1 = Some (entity_make 0 2, m2)"
    unfolding d1 by (simp add: em_create_entity_def)
  show "em_next_recycled (em_destroy_entity ?m (entity_make 0 0)) 0
      [Op_destroy (entity_make 0 1), Op_create] = Some (entity_make 0 2)"
    by (simp add: d1) (simp add: em_create_entity_def entity_index_make)
next
  have p: "0 < (2 :: nat) ^ 32" and z: "(word_of_nat (2 ^ 32) :: fecs_id) = 0"
    by simp_all
  show "em_reachable \<lparr>generations = (replicate (2 ^ 32) 0)[0 := 1], fragment = [0],
                       alive_count = word_of_nat (2 ^ 32) - 1\<rparr>"
    by (rule em_full_reachable [OF p])
  then show "em_inv \<lparr>generations = (replicate (2 ^ 32) 0)[0 := 1], fragment = [0],
                       alive_count = word_of_nat (2 ^ 32) - 1\<rparr>"
    by (rule em_reachable_inv)
  show "\<exists>m1 m2.
      em_create_entity \<lparr>generations = (replicate (2 ^ 32) 0)[0 := 1], fragment = [0],
                         alive_count = word_of_nat (2 ^ 32) - 1\<rparr> = Some (entity_make 0 1, m1)
    \<and> em_create_entity m1 = Some (entity_make 0 1, m2)"
    by (rule em_full_same_handle [OF p z])
qed


section \<open>Dead handles\<close>

text \<open>
  C6. For a handle that is not alive (stale, destroyed or never created),
  \<^verbatim>\<open>destroy_entity\<close>, \<^verbatim>\<open>add_component\<close> and \<^verbatim>\<open>remove_component\<close> complete and leave the whole
  store unchanged, the version counter included, and \<^verbatim>\<open>try_get_component\<close> returns
  \<^verbatim>\<open>nullptr\<close>.
\<close>

theorem dead_handle_noop:
  assumes "\<not> world_alive w e"
  shows "world_destroy_entity w e = Some w
       \<and> world_add_component w e ty opt_value = Some w
       \<and> world_remove_component w e ty = Some w
       \<and> world_try_get_component w e ty = Some Nullptr"
  using assms
  by (simp add: world_destroy_entity_def world_add_component_def world_remove_component_def
      world_try_get_component_def world_alive_def)

section \<open>The render cache\<close>

lemma build_matching_fields:
  "build_matching rc w = Some rc' \<Longrightarrow>
     rc_initialized rc' = rc_initialized rc \<and> rc_cached_version rc' = rc_cached_version rc"
  by (auto simp: build_matching_def bind_eq_Some_conv)

lemma rebuild_blocks_fields:
  "rebuild_blocks cs rc w = Some rc' \<Longrightarrow>
     rc_initialized rc' = rc_initialized rc \<and> rc_cached_version rc' = rc_cached_version rc"
  by (auto simp: rebuild_blocks_def bind_eq_Some_conv)

lemma render_cache_init_fields:
  "render_cache_init cs rc w = Some rc' \<Longrightarrow>
     rc_initialized rc' \<and> rc_cached_version rc' = rc_cached_version rc"
  by (auto simp: render_cache_init_def bind_eq_Some_conv)

lemma render_cache_refresh_fields:
  assumes "render_cache_refresh cs rc w = Some rc'"
  shows "rc_initialized rc' \<and> rc_cached_version rc' = w_version w"
proof -
  from assms obtain rc1 where
    i: "(if \<not> rc_initialized rc then render_cache_init cs rc w else Some rc) = Some rc1"
    and r: "(if w_version w = rc_cached_version rc1 then Some rc1
             else do { rc2 \<leftarrow> build_matching rc1 w;
                       rc3 \<leftarrow> rebuild_blocks cs rc2 w;
                       Some (rc3\<lparr>rc_cached_version := w_version w\<rparr>) }) = Some rc'"
    by (auto simp: render_cache_refresh_def bind_eq_Some_conv Let_def)
  from i have i1: "rc_initialized rc1"
    by (auto split: if_splits dest: render_cache_init_fields)
  show ?thesis
  proof (cases "w_version w = rc_cached_version rc1")
    case True
    with r i1 show ?thesis by simp
  next
    case False
    with r obtain rc2 rc3 where "build_matching rc1 w = Some rc2" "rebuild_blocks cs rc2 w = Some rc3"
      and "rc' = rc3\<lparr>rc_cached_version := w_version w\<rparr>"
      by (auto simp: bind_eq_Some_conv)
    with i1 show ?thesis
      by (auto dest!: build_matching_fields rebuild_blocks_fields)
  qed
qed

lemma render_cache_refresh_unchanged:
  assumes "rc_initialized rc" "rc_cached_version rc = w_version w"
  shows "render_cache_refresh cs rc w = Some rc"
  using assms by (simp add: render_cache_refresh_def)

text \<open>
  C7. After a \<^verbatim>\<open>refresh\<close> that completes, a second \<^verbatim>\<open>refresh\<close> on the same store returns the
  cache as it is: the version, the matching tables and the blocks are those of the first
  call. The tables are not consulted: the second call returns the same cache on any store
  with the same version.
\<close>

theorem render_cache_refresh_idempotent:
  assumes "render_cache_refresh cs rc w = Some rc'"
  shows "render_cache_refresh cs rc' w = Some rc'
       \<and> (\<forall>w'. w_version w' = w_version w \<longrightarrow> render_cache_refresh cs rc' w' = Some rc')"
  using render_cache_refresh_fields [OF assms]
  by (simp add: render_cache_refresh_unchanged)


section \<open>Loops over vectors\<close>

lemma map_all_Cons_Some:
  "map_all f (x # xs) = Some ys \<longleftrightarrow>
     (\<exists>y ys'. f x = Some y \<and> map_all f xs = Some ys' \<and> ys = y # ys')"
  by (auto split: option.splits)

lemma map_all_Some_iff: "map_all f xs = Some ys \<longleftrightarrow> list_all2 (\<lambda>x y. f x = Some y) xs ys"
proof (induction xs arbitrary: ys)
  case Nil
  then show ?case by auto
next
  case (Cons x xs)
  show ?case
    unfolding map_all_Cons_Some list_all2_Cons1 Cons.IH by blast
qed

lemma map_all_length: "map_all f xs = Some ys \<Longrightarrow> length ys = length xs"
  by (simp add: map_all_Some_iff list_all2_lengthD)

lemma map_all_nth: "map_all f xs = Some ys \<Longrightarrow> i < length xs \<Longrightarrow> f (xs ! i) = Some (ys ! i)"
  unfolding map_all_Some_iff by (rule list_all2_nthD)

lemma map_all_list_all:
  assumes "map_all f xs = Some ys" "list_all P xs" "\<And>x y. P x \<Longrightarrow> f x = Some y \<Longrightarrow> Q y"
  shows "list_all Q ys"
proof -
  from assms(1) have "list_all2 (\<lambda>x y. f x = Some y) xs ys"
    by (simp add: map_all_Some_iff)
  with assms(2,3) show ?thesis
    by (auto simp: list_all_length list_all2_conv_all_nth)
qed

lemma map_all_total:
  assumes "list_all (\<lambda>x. \<exists>y. f x = Some y) xs"
  shows "\<exists>ys. map_all f xs = Some ys"
  using assms by (induction xs) auto

lemma for_each_invariant:
  assumes "for_each f xs s = Some s'" "P s" "\<And>s x s'. P s \<Longrightarrow> x \<in> set xs \<Longrightarrow> f s x = Some s' \<Longrightarrow> P s'"
  shows "P s'"
  using assms
proof (induction xs arbitrary: s)
  case Nil
  then show ?case by simp
next
  case (Cons x xs)
  from Cons.prems(1) obtain s1 where s1: "f s x = Some s1" and r: "for_each f xs s1 = Some s'"
    by (auto split: option.splits)
  have p1: "P s1"
    by (rule Cons.prems(3) [OF Cons.prems(2) _ s1]) simp
  show ?case
  proof (rule Cons.IH [OF r p1])
    fix t y t'
    assume "P t" "y \<in> set xs" "f t y = Some t'"
    then show "P t'"
      by (intro Cons.prems(3) [of t y t']) simp_all
  qed
qed

section \<open>Column sizes\<close>

lemma column_write_Some:
  "column_write c i x = Some c' \<longleftrightarrow>
     (\<exists>cells. c_data c = Some cells \<and> i < length cells \<and> c' = c\<lparr>c_data := Some (cells[i := x])\<rparr>)"
  by (auto simp: column_write_def split: option.splits)

lemma column_read_Some:
  "column_read c i = Some x \<longleftrightarrow> (\<exists>cells. c_data c = Some cells \<and> i < length cells \<and> x = cells ! i)"
  by (auto simp: column_read_def split: option.splits)

lemma column_write_fields:
  "column_write c i x = Some c' \<Longrightarrow>
     c_size c' = c_size c \<and> c_capacity c' = c_capacity c \<and> c_info c' = c_info c"
  by (auto simp: column_write_Some)

lemma column_grow_to_fields:
  "column_grow_to c n = Some c' \<Longrightarrow> c_size c' = c_size c \<and> c_info c' = c_info c"
  by (auto simp: column_grow_to_def split: option.splits if_splits)

lemma column_push_defaults_size:
  "column_push_defaults c = Some c' \<Longrightarrow> c_size c' = c_size c + 1"
  unfolding column_push_defaults_def
  by (auto simp: bind_eq_Some_conv column_write_Some split: if_splits dest: column_grow_to_fields)

lemma column_add_uninitialized_size:
  "column_add_uninitialized c = Some c' \<Longrightarrow> c_size c' = c_size c + 1"
  unfolding column_add_uninitialized_def column_reserve_def
  by (auto simp: bind_eq_Some_conv split: if_splits dest: column_grow_to_fields)

lemma column_remove_swap_size:
  "column_remove_swap c row = Some c' \<Longrightarrow> c_size c' = c_size c - 1"
  unfolding column_remove_swap_def Let_def
  by (auto simp: bind_eq_Some_conv column_write_Some column_read_Some split: if_splits)

lemma column_remove_swap_nodestroy_size:
  "column_remove_swap_nodestroy c row = Some c' \<Longrightarrow> c_size c' = c_size c - 1"
  unfolding column_remove_swap_nodestroy_def Let_def
  by (auto simp: bind_eq_Some_conv column_write_Some column_read_Some split: if_splits)

lemma entities_remove_swap_length:
  "length (snd (entities_remove_swap es row)) = length es - 1"
  by (simp add: entities_remove_swap_def Let_def)

lemma table_add_row_sizes:
  assumes "table_sizes_ok t" "table_add_row t e = Some (row, t')"
  shows "table_sizes_ok t'"
proof -
  from assms(2) obtain cols where m: "map_all column_push_defaults (t_columns t) = Some cols"
    and t': "t' = t\<lparr>t_entities := t_entities t @ [e], t_columns := cols\<rparr>"
    by (auto simp: table_add_row_def bind_eq_Some_conv Let_def)
  from assms(1) have "list_all (\<lambda>c. c_size c = length (t_entities t)) (t_columns t)"
    by (simp add: table_sizes_ok_def)
  from map_all_list_all [OF m this, of "\<lambda>c. c_size c = length (t_entities t) + 1"]
  show ?thesis
    unfolding t' by (simp add: table_sizes_ok_def column_push_defaults_size)
qed

lemma table_add_row_uninitialized_sizes:
  assumes "table_sizes_ok t" "table_add_row_uninitialized t e = Some (row, t')"
  shows "table_sizes_ok t'"
proof -
  from assms(2) obtain cols where m: "map_all column_add_uninitialized (t_columns t) = Some cols"
    and t': "t' = t\<lparr>t_entities := t_entities t @ [e], t_columns := cols\<rparr>"
    by (auto simp: table_add_row_uninitialized_def bind_eq_Some_conv Let_def)
  from assms(1) have "list_all (\<lambda>c. c_size c = length (t_entities t)) (t_columns t)"
    by (simp add: table_sizes_ok_def)
  from map_all_list_all [OF m this, of "\<lambda>c. c_size c = length (t_entities t) + 1"]
  show ?thesis
    unfolding t' by (simp add: table_sizes_ok_def column_add_uninitialized_size)
qed

lemma table_remove_row_swap_sizes:
  assumes "table_sizes_ok t" "table_remove_row_swap t row = Some (swapped, t')"
  shows "table_sizes_ok t'"
proof -
  from assms(2) obtain cols where
    m: "map_all (\<lambda>c. column_remove_swap c row) (t_columns t) = Some cols"
    and t': "t' = t\<lparr>t_entities := snd (entities_remove_swap (t_entities t) row), t_columns := cols\<rparr>"
    by (auto simp: table_remove_row_swap_def bind_eq_Some_conv Let_def split: if_splits prod.splits)
  from assms(1) have "list_all (\<lambda>c. c_size c = length (t_entities t)) (t_columns t)"
    by (simp add: table_sizes_ok_def)
  from map_all_list_all [OF m this, of "\<lambda>c. c_size c = length (t_entities t) - 1"]
  show ?thesis
    unfolding t' by (simp add: table_sizes_ok_def column_remove_swap_size entities_remove_swap_length)
qed

lemma table_remove_row_swap_nodestroy_sizes:
  assumes "table_sizes_ok t" "table_remove_row_swap_nodestroy t row = Some (swapped, t')"
  shows "table_sizes_ok t'"
proof -
  from assms(2) obtain cols where
    m: "map_all (\<lambda>c. column_remove_swap_nodestroy c row) (t_columns t) = Some cols"
    and t': "t' = t\<lparr>t_entities := snd (entities_remove_swap (t_entities t) row), t_columns := cols\<rparr>"
    by (auto simp: table_remove_row_swap_nodestroy_def bind_eq_Some_conv Let_def
        split: if_splits prod.splits)
  from assms(1) have "list_all (\<lambda>c. c_size c = length (t_entities t)) (t_columns t)"
    by (simp add: table_sizes_ok_def)
  from map_all_list_all [OF m this, of "\<lambda>c. c_size c = length (t_entities t) - 1"]
  show ?thesis
    unfolding t'
    by (simp add: table_sizes_ok_def column_remove_swap_nodestroy_size entities_remove_swap_length)
qed

lemma table_write_sizes:
  assumes "table_sizes_ok t" "table_write t row cid x = Some t'"
  shows "table_sizes_ok t'"
proof -
  from assms(2) obtain i c where i: "i < length (t_columns t)"
    and c: "column_write (t_columns t ! i) row x = Some c"
    and t': "t' = t\<lparr>t_columns := (t_columns t)[i := c]\<rparr>"
    by (auto simp: table_write_def table_get_column_def bind_eq_Some_conv split: if_splits)
  from assms(1) i have "c_size (t_columns t ! i) = length (t_entities t)"
    by (simp add: table_sizes_ok_def list_all_length)
  with column_write_fields [OF c] have "c_size c = length (t_entities t)"
    by simp
  with assms(1) i show ?thesis
    unfolding t' by (simp add: table_sizes_ok_def list_all_length nth_list_update)
qed

section \<open>Well-formed columns and tables\<close>

lemma table_ok_sizes: "table_ok t \<Longrightarrow> table_sizes_ok t"
  by (simp add: table_ok_def table_sizes_ok_def list_all_iff)

lemma world_ok_sizes: "world_ok w \<Longrightarrow> world_sizes_ok w"
  by (simp add: world_ok_def world_sizes_ok_def list_all_iff table_ok_sizes)

lemma column_write_ok: "column_write c i x = Some c' \<Longrightarrow> column_ok c \<Longrightarrow> column_ok c'"
  by (auto simp: column_write_Some column_ok_def)

lemma column_ok_size_update: "column_ok c \<Longrightarrow> n \<le> c_capacity c \<Longrightarrow> column_ok (c\<lparr>c_size := n\<rparr>)"
  by (auto simp: column_ok_def split: option.splits)

lemma column_write_total:
  "column_ok c \<Longrightarrow> i < c_capacity c \<Longrightarrow> \<exists>c'. column_write c i x = Some c'"
  by (auto simp: column_write_Some column_ok_def split: option.splits)

lemma column_grow_to_ok:
  assumes "column_ok c" "c_size c < n"
  shows "\<exists>c'. column_grow_to c n = Some c' \<and> column_ok c' \<and> c_size c' = c_size c
           \<and> c_capacity c' = n \<and> c_info c' = c_info c"
  using assms by (auto simp: column_grow_to_def column_ok_def split: option.splits)

lemma column_push_defaults_ok:
  assumes "column_ok c"
  shows "\<exists>c'. column_push_defaults c = Some c' \<and> column_ok c'"
proof -
  let ?n = "if c_capacity c = 0 then 8 else c_capacity c * 2"
  obtain c1 where c1: "(if c_size c = c_capacity c then column_grow_to c ?n else Some c) = Some c1"
    and ok1: "column_ok c1" and lt: "c_size c1 < c_capacity c1"
  proof (cases "c_size c = c_capacity c")
    case True
    then have "c_size c < ?n" by simp
    from column_grow_to_ok [OF assms this] True that show ?thesis
      by auto
  next
    case False
    with assms have "c_size c < c_capacity c"
      by (simp add: column_ok_def)
    with False assms that show ?thesis
      by simp
  qed
  from column_write_total [OF ok1 lt] obtain c2 where
    c2: "column_write c1 (c_size c1) (Some (ci_default_ctor (c_info c1))) = Some c2"
    by blast
  from column_write_ok [OF c2 ok1] column_write_fields [OF c2] lt
  have "column_ok (c2\<lparr>c_size := c_size c2 + 1\<rparr>)"
    by (intro column_ok_size_update) simp_all
  with c1 c2 show ?thesis
    unfolding column_push_defaults_def by (auto simp: bind_eq_Some_conv)
qed

lemma column_add_uninitialized_ok:
  assumes "column_ok c"
  shows "\<exists>c'. column_add_uninitialized c = Some c' \<and> column_ok c'"
proof -
  let ?n = "if c_capacity c = 0 then 8 else c_capacity c * 2"
  obtain c1 where c1: "(if c_size c = c_capacity c then column_reserve c ?n else Some c) = Some c1"
    and ok1: "column_ok c1" and lt: "c_size c1 < c_capacity c1"
  proof (cases "c_size c = c_capacity c")
    case True
    then have n: "c_size c < ?n" by simp
    with True have "column_reserve c ?n = column_grow_to c ?n"
      by (simp add: column_reserve_def)
    with column_grow_to_ok [OF assms n] True that show ?thesis
      by auto
  next
    case False
    with assms have "c_size c < c_capacity c"
      by (simp add: column_ok_def)
    with False assms that show ?thesis
      by simp
  qed
  from ok1 lt have "column_ok (c1\<lparr>c_size := c_size c1 + 1\<rparr>)"
    by (intro column_ok_size_update) simp_all
  with c1 show ?thesis
    unfolding column_add_uninitialized_def by (auto simp: bind_eq_Some_conv)
qed

lemma column_remove_swap_ok:
  assumes "column_ok c" "row < c_size c"
  shows "\<exists>c'. column_remove_swap c row = Some c' \<and> column_ok c'"
proof -
  from assms obtain cells where d: "c_data c = Some cells" and l: "length cells = c_capacity c"
    and s: "c_size c \<le> c_capacity c"
    by (cases "c_data c") (auto simp: column_ok_def)
  with assms(2) show ?thesis
    unfolding column_remove_swap_def Let_def
    by (auto simp: bind_eq_Some_conv column_write_Some column_read_Some column_ok_def)
qed

lemma column_remove_swap_nodestroy_ok:
  assumes "column_ok c" "row < c_size c"
  shows "\<exists>c'. column_remove_swap_nodestroy c row = Some c' \<and> column_ok c'"
proof -
  from assms obtain cells where d: "c_data c = Some cells" and l: "length cells = c_capacity c"
    and s: "c_size c \<le> c_capacity c"
    by (cases "c_data c") (auto simp: column_ok_def)
  with assms(2) show ?thesis
    unfolding column_remove_swap_nodestroy_def Let_def
    by (auto simp: bind_eq_Some_conv column_write_Some column_read_Some column_ok_def)
qed

lemma column_op_ok_unique:
  assumes "\<exists>c'. f c = Some c' \<and> column_ok c'" "f c = Some c'"
  shows "column_ok c'"
  using assms by auto

lemma map_all_columns_ok:
  assumes "list_all (\<lambda>c. c_size c = n \<and> column_ok c) cols"
    and "\<And>c. c_size c = n \<Longrightarrow> column_ok c \<Longrightarrow> \<exists>c'. f c = Some c' \<and> column_ok c'"
    and "\<And>c c'. f c = Some c' \<Longrightarrow> c_size c' = g (c_size c)"
  shows "\<exists>cols'. map_all f cols = Some cols' \<and> length cols' = length cols
           \<and> list_all (\<lambda>c. c_size c = g n \<and> column_ok c) cols'"
proof -
  from assms(1,2) have "list_all (\<lambda>c. \<exists>c'. f c = Some c') cols"
    by (auto simp: list_all_iff)
  from map_all_total [OF this] obtain cols' where m: "map_all f cols = Some cols'"
    by blast
  have "list_all (\<lambda>c. c_size c = g n \<and> column_ok c) cols'"
  proof (rule map_all_list_all [OF m assms(1)])
    fix c c'
    assume "c_size c = n \<and> column_ok c" "f c = Some c'"
    with assms(2) [of c] assms(3) [of c c'] show "c_size c' = g n \<and> column_ok c'"
      by auto
  qed
  with m map_all_length [OF m] show ?thesis
    by blast
qed

lemma table_add_row_ok:
  assumes "table_ok t"
  shows "\<exists>t'. table_add_row t e = Some (length (t_entities t), t') \<and> table_ok t'
           \<and> t_key t' = t_key t \<and> t_id t' = t_id t \<and> t_entities t' = t_entities t @ [e]"
proof -
  from assms have c: "list_all (\<lambda>c. c_size c = length (t_entities t) \<and> column_ok c) (t_columns t)"
    by (simp add: table_ok_def)
  from map_all_columns_ok [OF c, of column_push_defaults "\<lambda>n. n + 1"]
  obtain cols where "map_all column_push_defaults (t_columns t) = Some cols"
    "length cols = length (t_columns t)"
    "list_all (\<lambda>c. c_size c = length (t_entities t) + 1 \<and> column_ok c) cols"
    using column_push_defaults_ok column_push_defaults_size by blast
  with assms show ?thesis
    by (simp add: table_add_row_def table_ok_def)
qed

lemma table_add_row_uninitialized_ok:
  assumes "table_ok t"
  shows "\<exists>t'. table_add_row_uninitialized t e = Some (length (t_entities t), t') \<and> table_ok t'
           \<and> t_key t' = t_key t \<and> t_id t' = t_id t \<and> t_entities t' = t_entities t @ [e]"
proof -
  from assms have c: "list_all (\<lambda>c. c_size c = length (t_entities t) \<and> column_ok c) (t_columns t)"
    by (simp add: table_ok_def)
  from map_all_columns_ok [OF c, of column_add_uninitialized "\<lambda>n. n + 1"]
  obtain cols where "map_all column_add_uninitialized (t_columns t) = Some cols"
    "length cols = length (t_columns t)"
    "list_all (\<lambda>c. c_size c = length (t_entities t) + 1 \<and> column_ok c) cols"
    using column_add_uninitialized_ok column_add_uninitialized_size by blast
  with assms show ?thesis
    by (simp add: table_add_row_uninitialized_def table_ok_def)
qed

lemma table_remove_row_swap_ok:
  assumes "table_ok t" "row < length (t_entities t)"
  shows "\<exists>t'. table_remove_row_swap t row = Some (fst (entities_remove_swap (t_entities t) row), t')
           \<and> table_ok t' \<and> t_key t' = t_key t \<and> t_id t' = t_id t
           \<and> t_entities t' = snd (entities_remove_swap (t_entities t) row)"
proof -
  from assms have c: "list_all (\<lambda>c. c_size c = length (t_entities t) \<and> column_ok c) (t_columns t)"
    by (simp add: table_ok_def)
  have "\<exists>cols. map_all (\<lambda>c. column_remove_swap c row) (t_columns t) = Some cols
      \<and> length cols = length (t_columns t)
      \<and> list_all (\<lambda>c. c_size c = length (t_entities t) - 1 \<and> column_ok c) cols"
  proof (rule map_all_columns_ok [OF c])
    fix c :: "'a column"
    assume "c_size c = length (t_entities t)" "column_ok c"
    with assms(2) show "\<exists>c'. column_remove_swap c row = Some c' \<and> column_ok c'"
      by (intro column_remove_swap_ok) simp_all
  next
    fix c c' :: "'a column"
    assume "column_remove_swap c row = Some c'"
    then show "c_size c' = c_size c - 1"
      by (rule column_remove_swap_size)
  qed
  then obtain cols where "map_all (\<lambda>c. column_remove_swap c row) (t_columns t) = Some cols"
    "length cols = length (t_columns t)"
    "list_all (\<lambda>c. c_size c = length (t_entities t) - 1 \<and> column_ok c) cols"
    by blast
  with assms show ?thesis
    by (simp add: table_remove_row_swap_def table_ok_def table_size_def entities_remove_swap_length
        case_prod_unfold Let_def)
qed

lemma table_remove_row_swap_nodestroy_ok:
  assumes "table_ok t" "row < length (t_entities t)"
  shows "\<exists>t'. table_remove_row_swap_nodestroy t row
              = Some (fst (entities_remove_swap (t_entities t) row), t')
           \<and> table_ok t' \<and> t_key t' = t_key t \<and> t_id t' = t_id t
           \<and> t_entities t' = snd (entities_remove_swap (t_entities t) row)"
proof -
  from assms have c: "list_all (\<lambda>c. c_size c = length (t_entities t) \<and> column_ok c) (t_columns t)"
    by (simp add: table_ok_def)
  have "\<exists>cols. map_all (\<lambda>c. column_remove_swap_nodestroy c row) (t_columns t) = Some cols
      \<and> length cols = length (t_columns t)
      \<and> list_all (\<lambda>c. c_size c = length (t_entities t) - 1 \<and> column_ok c) cols"
  proof (rule map_all_columns_ok [OF c])
    fix c :: "'a column"
    assume "c_size c = length (t_entities t)" "column_ok c"
    with assms(2) show "\<exists>c'. column_remove_swap_nodestroy c row = Some c' \<and> column_ok c'"
      by (intro column_remove_swap_nodestroy_ok) simp_all
  next
    fix c c' :: "'a column"
    assume "column_remove_swap_nodestroy c row = Some c'"
    then show "c_size c' = c_size c - 1"
      by (rule column_remove_swap_nodestroy_size)
  qed
  then obtain cols where "map_all (\<lambda>c. column_remove_swap_nodestroy c row) (t_columns t) = Some cols"
    "length cols = length (t_columns t)"
    "list_all (\<lambda>c. c_size c = length (t_entities t) - 1 \<and> column_ok c) cols"
    by blast
  with assms show ?thesis
    by (simp add: table_remove_row_swap_nodestroy_def table_ok_def table_size_def
        entities_remove_swap_length case_prod_unfold Let_def)
qed

lemma table_write_Some:
  "table_write t row cid x = Some t' \<longleftrightarrow>
     (\<exists>i cells. lower_bound (t_key t) cid = i \<and> i < length (t_key t) \<and> i < length (t_columns t)
        \<and> c_data (t_columns t ! i) = Some cells \<and> row < length cells
        \<and> t' = t\<lparr>t_columns := (t_columns t)[i := (t_columns t ! i)\<lparr>c_data := Some (cells[row := x])\<rparr>]\<rparr>)"
  unfolding table_write_def table_get_column_def table_column_index_def Let_def
  by (auto simp: bind_eq_Some_conv column_write_Some)

lemma table_read_Some:
  "table_read t row cid = Some x \<longleftrightarrow>
     (\<exists>i cells. lower_bound (t_key t) cid = i \<and> i < length (t_key t) \<and> i < length (t_columns t)
        \<and> c_data (t_columns t ! i) = Some cells \<and> row < length cells \<and> x = cells ! row)"
  unfolding table_read_def table_get_column_def table_column_index_def Let_def
  by (auto simp: bind_eq_Some_conv column_read_Some)

lemma table_write_ok:
  assumes "table_write t row cid x = Some t'" "table_ok t"
  shows "table_ok t'"
proof -
  from assms(1) obtain i cells where i: "i < length (t_columns t)"
    and d: "c_data (t_columns t ! i) = Some cells" "row < length cells"
    and t': "t' = t\<lparr>t_columns := (t_columns t)[i := (t_columns t ! i)\<lparr>c_data := Some (cells[row := x])\<rparr>]\<rparr>"
    unfolding table_write_Some by blast
  from assms(2) i have "c_size (t_columns t ! i) = length (t_entities t) \<and> column_ok (t_columns t ! i)"
    by (simp add: table_ok_def list_all_length)
  with d have "c_size ((t_columns t ! i)\<lparr>c_data := Some (cells[row := x])\<rparr>) = length (t_entities t)
      \<and> column_ok ((t_columns t ! i)\<lparr>c_data := Some (cells[row := x])\<rparr>)"
    by (simp add: column_ok_def)
  with assms(2) i show ?thesis
    unfolding t' by (simp add: table_ok_def list_all_length nth_list_update)
qed

lemma table_write_fields:
  "table_write t row cid x = Some t' \<Longrightarrow>
     t_key t' = t_key t \<and> t_id t' = t_id t \<and> t_entities t' = t_entities t
     \<and> length (t_columns t') = length (t_columns t)"
  by (auto simp: table_write_Some)

lemma table_add_row_pres:
  assumes "table_ok t" "table_add_row t e = Some (row, t')"
  shows "table_ok t'" and "row = length (t_entities t)" and "t_key t' = t_key t"
    and "t_id t' = t_id t" and "t_entities t' = t_entities t @ [e]"
  using table_add_row_ok [OF assms(1), of e] assms(2) by auto

lemma table_add_row_uninitialized_pres:
  assumes "table_ok t" "table_add_row_uninitialized t e = Some (row, t')"
  shows "table_ok t'" and "row = length (t_entities t)" and "t_key t' = t_key t"
    and "t_id t' = t_id t" and "t_entities t' = t_entities t @ [e]"
  using table_add_row_uninitialized_ok [OF assms(1), of e] assms(2) by auto

lemma table_remove_row_swap_in_range:
  "table_remove_row_swap t row = Some (swapped, t') \<Longrightarrow> row < length (t_entities t)"
  by (simp add: table_remove_row_swap_def table_size_def split: if_splits)

lemma table_remove_row_swap_nodestroy_in_range:
  "table_remove_row_swap_nodestroy t row = Some (swapped, t') \<Longrightarrow> row < length (t_entities t)"
  by (simp add: table_remove_row_swap_nodestroy_def table_size_def split: if_splits)

lemma table_remove_row_swap_pres:
  assumes "table_ok t" "table_remove_row_swap t row = Some (swapped, t')"
  shows "table_ok t'" and "row < length (t_entities t)" and "t_key t' = t_key t"
    and "t_id t' = t_id t" and "(swapped, t_entities t') = entities_remove_swap (t_entities t) row"
  using table_remove_row_swap_ok [OF assms(1) table_remove_row_swap_in_range [OF assms(2)]]
    assms(2) table_remove_row_swap_in_range [OF assms(2)] by auto

lemma table_remove_row_swap_nodestroy_pres:
  assumes "table_ok t" "table_remove_row_swap_nodestroy t row = Some (swapped, t')"
  shows "table_ok t'" and "row < length (t_entities t)" and "t_key t' = t_key t"
    and "t_id t' = t_id t" and "(swapped, t_entities t') = entities_remove_swap (t_entities t) row"
  using table_remove_row_swap_nodestroy_ok
      [OF assms(1) table_remove_row_swap_nodestroy_in_range [OF assms(2)]]
    assms(2) table_remove_row_swap_nodestroy_in_range [OF assms(2)] by auto

section \<open>Reserving capacity\<close>

lemma column_reserve_size: "column_reserve c n = Some c' \<Longrightarrow> c_size c' = c_size c"
  by (auto simp: column_reserve_def split: if_splits dest: column_grow_to_fields)

lemma column_reserve_ok:
  assumes "column_ok c"
  shows "\<exists>c'. column_reserve c n = Some c' \<and> column_ok c'"
proof (cases "n \<le> c_capacity c")
  case True
  with assms show ?thesis
    by (simp add: column_reserve_def)
next
  case False
  with assms have "c_size c < n"
    by (simp add: column_ok_def)
  from column_grow_to_ok [OF assms this] False show ?thesis
    by (auto simp: column_reserve_def)
qed

lemma table_reserve_sizes:
  assumes "table_sizes_ok t" "table_reserve t n = Some t'"
  shows "table_sizes_ok t'"
proof -
  from assms(2) obtain cols where m: "map_all (\<lambda>c. column_reserve c n) (t_columns t) = Some cols"
    and t': "t' = t\<lparr>t_columns := cols\<rparr>"
    by (auto simp: table_reserve_def bind_eq_Some_conv)
  from assms(1) have "list_all (\<lambda>c. c_size c = length (t_entities t)) (t_columns t)"
    by (simp add: table_sizes_ok_def)
  from map_all_list_all [OF m this, of "\<lambda>c. c_size c = length (t_entities t)"]
  show ?thesis
    unfolding t' by (simp add: table_sizes_ok_def column_reserve_size)
qed

lemma table_reserve_ok:
  assumes "table_ok t"
  shows "\<exists>t'. table_reserve t n = Some t' \<and> table_ok t' \<and> t_key t' = t_key t \<and> t_id t' = t_id t
           \<and> t_entities t' = t_entities t"
proof -
  from assms have c: "list_all (\<lambda>c. c_size c = length (t_entities t) \<and> column_ok c) (t_columns t)"
    by (simp add: table_ok_def)
  from map_all_columns_ok [OF c, of "\<lambda>c. column_reserve c n" "\<lambda>k. k"]
  obtain cols where "map_all (\<lambda>c. column_reserve c n) (t_columns t) = Some cols"
    "length cols = length (t_columns t)"
    "list_all (\<lambda>c. c_size c = length (t_entities t) \<and> column_ok c) cols"
    using column_reserve_ok column_reserve_size by blast
  with assms show ?thesis
    by (simp add: table_reserve_def table_ok_def)
qed

lemma table_reserve_pres:
  assumes "table_ok t" "table_reserve t n = Some t'"
  shows "table_ok t'" and "t_key t' = t_key t" and "t_id t' = t_id t"
    and "t_entities t' = t_entities t"
  using table_reserve_ok [OF assms(1), of n] assms(2) by auto


section \<open>Well-formed tables in the store\<close>

lemma world_ok_get_table:
  "world_ok w \<Longrightarrow> storage_get_table (w_storage w) tid = Some t \<Longrightarrow> table_ok t"
  by (auto simp: world_ok_def storage_get_table_def list_all_length split: if_splits)

lemma world_ok_set_table:
  "world_ok w \<Longrightarrow> table_ok t \<Longrightarrow> world_ok (set_table w tid t)"
  by (cases "tid < length (s_tables (w_storage w))")
     (auto simp: world_ok_def set_table_def storage_set_table_def list_all_length
        nth_list_update)

lemma world_ok_storage_eq:
  "w_storage w' = w_storage w \<Longrightarrow> world_ok w' = world_ok w"
  by (simp add: world_ok_def)

lemma set_location_storage: "set_location w i l = Some w' \<Longrightarrow> w_storage w' = w_storage w"
  by (auto simp: set_location_def split: if_splits)

lemma fixup_swapped_storage: "fixup_swapped w e l = Some w' \<Longrightarrow> w_storage w' = w_storage w"
  by (auto simp: fixup_swapped_def split: if_splits dest: set_location_storage)

lemma bump_version_storage: "w_storage (bump_version w) = w_storage w"
  by (simp add: bump_version_def)

lemma table_build_lookup_fields:
  "table_build_lookup t = Some t' \<Longrightarrow>
     t_id t' = t_id t \<and> t_key t' = t_key t \<and> t_entities t' = t_entities t \<and> t_columns t' = t_columns t"
  unfolding table_build_lookup_def Let_def
  by (auto simp: bind_eq_Some_conv split: if_splits)

lemma distinct_remdups_adj_sorted: "sorted (xs :: nat list) \<Longrightarrow> distinct (remdups_adj xs)"
  by (induction xs rule: remdups_adj.induct) auto

lemma make_archetype_key_canonical:
  "sorted (make_archetype_key ids)" "distinct (make_archetype_key ids)"
  "set (make_archetype_key ids) = set ids"
  by (simp_all add: make_archetype_key_def canonicalise_def distinct_remdups_adj_sorted)

lemma storage_create_table_Some:
  assumes "storage_create_table reg s key = Some (tid, s')"
  shows "\<exists>infos t. map_all (registry_get_info reg) key = Some infos
    \<and> table_build_lookup
          \<lparr>t_id = length (s_tables s) mod 2 ^ 32, t_key = key, t_entities = [],
           t_columns = map column_new infos, t_lookup_keys = [], t_lookup_vals = [],
           t_lookup_mask = 0\<rparr> = Some t
    \<and> tid = length (s_tables s) mod 2 ^ 32
    \<and> s' = s\<lparr>s_key_tables := (if map_of (s_key_tables s) key = None
                                    then (key, tid) # s_key_tables s else s_key_tables s),
              s_tables := s_tables s @ [t],
              s_schema_version := s_schema_version s + 1\<rparr>"
  using assms unfolding storage_create_table_def Let_def table_finalize_schema_def
  by (auto simp: bind_eq_Some_conv)

lemma storage_create_table_new_table:
  assumes "storage_create_table reg s key = Some (tid, s')" "sorted key" "distinct key"
  shows "\<exists>t. s_tables s' = s_tables s @ [t] \<and> table_ok t \<and> t_key t = key \<and> t_entities t = []
           \<and> t_id t = tid"
proof -
  from storage_create_table_Some [OF assms(1)] obtain infos t where
    m: "map_all (registry_get_info reg) key = Some infos"
    and t: "table_build_lookup
          \<lparr>t_id = length (s_tables s) mod 2 ^ 32, t_key = key, t_entities = [],
           t_columns = map column_new infos, t_lookup_keys = [], t_lookup_vals = [],
           t_lookup_mask = 0\<rparr> = Some t"
    and tid: "tid = length (s_tables s) mod 2 ^ 32"
    and s': "s_tables s' = s_tables s @ [t]"
    by auto
  from table_build_lookup_fields [OF t] map_all_length [OF m] assms(2,3) have "table_ok t"
    by (simp add: table_ok_def list_all_iff column_new_def column_ok_def)
  with table_build_lookup_fields [OF t] s' tid show ?thesis
    by simp
qed

lemma storage_create_table_ok:
  assumes "list_all table_ok (s_tables s)" "storage_create_table reg s key = Some (tid, s')"
    "sorted key" "distinct key"
  shows "list_all table_ok (s_tables s')"
  using storage_create_table_new_table [OF assms(2,3,4)] assms(1) by auto

lemma get_table_for_signature_ok:
  assumes "world_ok w" "get_table_for_signature w ids = Some (tid, w')"
  shows "world_ok w'"
proof -
  from assms(2) obtain s where
    g: "storage_get_or_create_table (w_registry w) (w_storage w) (make_archetype_key ids) = Some (tid, s)"
    and w': "w' = w\<lparr>w_storage := s\<rparr>"
    by (auto simp: get_table_for_signature_def bind_eq_Some_conv)
  from g assms(1) have "list_all table_ok (s_tables s)"
    by (auto simp: storage_get_or_create_table_def world_ok_def make_archetype_key_canonical
        split: option.splits dest: storage_create_table_ok)
  then show ?thesis
    by (simp add: w' world_ok_def)
qed

lemma migrate_move_ok:
  assumes "world_ok w" "migrate_move old_tid old_row new_tid new_row w cid = Some w'"
  shows "world_ok w'"
proof -
  from assms(2) obtain x new_table new_table' old_table1 old_table' where
    1: "storage_get_table (w_storage w) new_tid = Some new_table"
    and 2: "table_write new_table new_row cid x = Some new_table'"
    and 3: "storage_get_table (w_storage (set_table w new_tid new_table')) old_tid = Some old_table1"
    and 4: "table_write old_table1 old_row cid None = Some old_table'"
    and 5: "w' = set_table (set_table w new_tid new_table') old_tid old_table'"
    unfolding migrate_move_def Let_def by (auto simp: bind_eq_Some_conv)
  have a: "world_ok (set_table w new_tid new_table')"
    using assms(1) 1 2 by (blast intro: world_ok_set_table table_write_ok [rotated] world_ok_get_table)
  show ?thesis
    unfolding 5 using a 3 4
    by (blast intro: world_ok_set_table table_write_ok [rotated] world_ok_get_table)
qed

lemma migrate_destroy_ok:
  assumes "world_ok w" "migrate_destroy old_tid old_row new_tid w cid = Some w'"
  shows "world_ok w'"
proof -
  from assms(2) consider "w' = w"
    | old_table old_table' where "storage_get_table (w_storage w) old_tid = Some old_table"
        "table_write old_table old_row cid None = Some old_table'"
        "w' = set_table w old_tid old_table'"
    unfolding migrate_destroy_def by (auto simp: bind_eq_Some_conv split: if_splits)
  then show ?thesis
    using assms(1)
    by cases (blast intro: world_ok_set_table table_write_ok [rotated] world_ok_get_table)+
qed

lemma migrate_entity_to_table_Some:
  assumes "migrate_entity_to_table w e new_tid = Some (new_row, w')"
  shows "\<exists>loc old_table new_table r new_table' w2 w3 old_table3 swapped old_table' w5 w6.
      location_at w (entity_index e) = Some loc \<and> location_valid loc
    \<and> storage_get_table (w_storage w) (loc_tid loc) = Some old_table
    \<and> storage_get_table (w_storage w) new_tid = Some new_table
    \<and> table_add_row_uninitialized new_table e = Some (r, new_table')
    \<and> new_row = r mod 2 ^ 32
    \<and> for_each (migrate_move (loc_tid loc) (loc_row loc) new_tid new_row)
              (intersect_sorted_ids (t_key old_table) (t_key new_table))
              (set_table w new_tid new_table') = Some w2
    \<and> for_each (migrate_destroy (loc_tid loc) (loc_row loc) new_tid) (t_key old_table) w2 = Some w3
    \<and> storage_get_table (w_storage w3) (loc_tid loc) = Some old_table3
    \<and> table_remove_row_swap_nodestroy old_table3 (loc_row loc) = Some (swapped, old_table')
    \<and> fixup_swapped (set_table w3 (loc_tid loc) old_table') swapped
          \<lparr>loc_tid = loc_tid loc, loc_row = loc_row loc\<rparr> = Some w5
    \<and> set_location w5 (entity_index e) \<lparr>loc_tid = new_tid, loc_row = new_row\<rparr> = Some w6
    \<and> w' = bump_version w6"
  using assms unfolding migrate_entity_to_table_def Let_def
  by (auto simp: bind_eq_Some_conv split: if_splits)

lemma migrate_entity_to_table_ok:
  fixes w :: "'v world"
  assumes "world_ok w" "migrate_entity_to_table w e new_tid = Some (new_row, w')"
  shows "world_ok w'"
proof -
  obtain loc :: location and old_table :: "'v table"
    and new_table r new_table' w2 w3 old_table3 swapped old_table' w5 w6
    where 1: "storage_get_table (w_storage w) new_tid = Some new_table"
    and 2: "table_add_row_uninitialized new_table e = Some (r, new_table')"
    and 3: "for_each (migrate_move (loc_tid loc) (loc_row loc) new_tid new_row)
              (intersect_sorted_ids (t_key old_table) (t_key new_table))
              (set_table w new_tid new_table') = Some w2"
    and 4: "for_each (migrate_destroy (loc_tid loc) (loc_row loc) new_tid) (t_key old_table) w2 = Some w3"
    and 5: "storage_get_table (w_storage w3) (loc_tid loc) = Some old_table3"
    and 6: "table_remove_row_swap_nodestroy old_table3 (loc_row loc) = Some (swapped, old_table')"
    and 7: "fixup_swapped (set_table w3 (loc_tid loc) old_table') swapped
          \<lparr>loc_tid = loc_tid loc, loc_row = loc_row loc\<rparr> = Some w5"
    and 8: "set_location w5 (entity_index e) \<lparr>loc_tid = new_tid, loc_row = new_row\<rparr> = Some w6"
    and 9: "w' = bump_version w6"
    using migrate_entity_to_table_Some [OF assms(2)] by blast
  have a1: "world_ok (set_table w new_tid new_table')"
    using assms(1) 1 2
    by (blast intro: world_ok_set_table table_add_row_uninitialized_pres(1) world_ok_get_table)
  have a2: "world_ok w2"
    by (rule for_each_invariant [where P = world_ok, OF 3 a1]) (rule migrate_move_ok)
  have a3: "world_ok w3"
    by (rule for_each_invariant [where P = world_ok, OF 4 a2]) (rule migrate_destroy_ok)
  have a4: "world_ok (set_table w3 (loc_tid loc) old_table')"
    using a3 5 6
    by (blast intro: world_ok_set_table table_remove_row_swap_nodestroy_pres(1)
        world_ok_get_table)
  have a5: "world_ok w5"
    using 7 a4 by (auto dest!: fixup_swapped_storage simp: world_ok_def)
  have "world_ok w6"
    using 8 a5 by (auto dest!: set_location_storage simp: world_ok_def)
  then show ?thesis
    unfolding 9 by (simp add: world_ok_def bump_version_storage)
qed

lemma world_create_entity_Some:
  assumes "world_create_entity w = Some (e, w')"
  shows "\<exists>em t row t' w2.
      em_create_entity (w_entities w) = Some (e, em)
    \<and> storage_get_table (w_storage w) (w_empty_table w) = Some t
    \<and> table_add_row t e = Some (row, t')
    \<and> set_location
          (set_table (w\<lparr>w_entities := em,
                         w_locations := ensure_location_capacity (w_locations w) (entity_index e)\<rparr>)
             (w_empty_table w) t')
          (entity_index e) \<lparr>loc_tid = w_empty_table w, loc_row = row mod 2 ^ 32\<rparr> = Some w2
    \<and> w' = bump_version w2"
  using assms unfolding world_create_entity_def Let_def
  by (auto simp: bind_eq_Some_conv)

lemma remove_row_dense_and_fixup_Some:
  assumes "remove_row_dense_and_fixup w e = Some w'"
  shows "\<exists>loc t swapped t' w2 w3.
      location_at w (entity_index e) = Some loc \<and> location_valid loc
    \<and> storage_get_table (w_storage w) (loc_tid loc) = Some t
    \<and> table_remove_row_swap t (loc_row loc) = Some (swapped, t')
    \<and> fixup_swapped (set_table w (loc_tid loc) t') swapped
          \<lparr>loc_tid = loc_tid loc, loc_row = loc_row loc\<rparr> = Some w2
    \<and> set_location w2 (entity_index e) \<lparr>loc_tid = INVALID_TABLE, loc_row = 0\<rparr> = Some w3
    \<and> w' = bump_version w3"
  using assms unfolding remove_row_dense_and_fixup_def Let_def
  by (auto simp: bind_eq_Some_conv split: if_splits)

lemma world_destroy_entity_Some:
  assumes "world_destroy_entity w e = Some w'" "em_alive (w_entities w) e"
  shows "\<exists>loc w1.
      location_at w (entity_index e) = Some loc
    \<and> (if location_valid loc then remove_row_dense_and_fixup w e else Some w) = Some w1
    \<and> w' = bump_version (w1\<lparr>w_entities := em_destroy_entity (w_entities w1) e\<rparr>)"
  using assms unfolding world_destroy_entity_def
  by (auto simp: bind_eq_Some_conv)

lemma get_table_for_signature_Some:
  assumes "get_table_for_signature w ids = Some (tid, w')"
  shows "\<exists>s. storage_get_or_create_table (w_registry w) (w_storage w) (make_archetype_key ids)
              = Some (tid, s) \<and> w' = w\<lparr>w_storage := s\<rparr>"
  using assms unfolding get_table_for_signature_def
  by (auto simp: bind_eq_Some_conv)

lemma world_add_component_Some:
  assumes "world_add_component w e ty opt_value = Some w'" "world_alive w e"
  shows "\<exists>cid loc old_table.
      registry_get_id (w_registry w) ty = Some cid
    \<and> location_at w (entity_index e) = Some loc \<and> location_valid loc
    \<and> storage_get_table (w_storage w) (loc_tid loc) = Some old_table
    \<and> (if table_has old_table cid then w' = w
        else \<exists>new_tid w1 new_row w2 new_table new_table'.
            get_table_for_signature w (t_key old_table @ [cid]) = Some (new_tid, w1)
          \<and> migrate_entity_to_table w1 e new_tid = Some (new_row, w2)
          \<and> storage_get_table (w_storage w2) new_tid = Some new_table
          \<and> (case opt_value of
                Some v \<Rightarrow> table_copy_construct_at new_table new_row cid v
              | None \<Rightarrow> table_default_construct_at new_table new_row cid) = Some new_table'
          \<and> w' = bump_version (set_table w2 new_tid new_table'))"
  using assms unfolding world_add_component_def Let_def
  by (auto simp: bind_eq_Some_conv split: if_splits)

lemma world_remove_component_Some:
  assumes "world_remove_component w e ty = Some w'" "world_alive w e"
  shows "\<exists>cid loc old_table.
      registry_get_id (w_registry w) ty = Some cid
    \<and> location_at w (entity_index e) = Some loc \<and> location_valid loc
    \<and> storage_get_table (w_storage w) (loc_tid loc) = Some old_table
    \<and> (if \<not> table_has old_table cid then w' = w
        else \<exists>new_tid w1 new_row w2.
            lower_bound (t_key old_table) cid < length (t_key old_table)
          \<and> t_key old_table ! lower_bound (t_key old_table) cid = cid
          \<and> get_table_for_signature w
                (take (lower_bound (t_key old_table) cid) (t_key old_table)
                 @ drop (Suc (lower_bound (t_key old_table) cid)) (t_key old_table))
              = Some (new_tid, w1)
          \<and> migrate_entity_to_table w1 e new_tid = Some (new_row, w2)
          \<and> w' = bump_version w2)"
  using assms unfolding world_remove_component_def Let_def
  by (auto simp: bind_eq_Some_conv split: if_splits)

lemma world_new_Some:
  "(world_new :: 'v world option) =
     Some \<lparr>w_entities = em_init, w_registry = registry_init,
           w_storage = \<lparr>s_schema_version = 1, s_key_tables = [([], 0)],
                        s_tables = [\<lparr>t_id = 0, t_key = [], t_entities = [], t_columns = [],
                                     t_lookup_keys = [], t_lookup_vals = [], t_lookup_mask = 0\<rparr>]\<rparr>,
           w_empty_table = 0, w_locations = [], w_version = 0\<rparr>"
  by (simp add: world_new_def storage_init_def storage_get_or_create_table_def
      make_archetype_key_def canonicalise_def storage_empty_def storage_create_table_def
      table_finalize_schema_def table_build_lookup_def)

lemma world_new_ok: "world_new = Some w \<Longrightarrow> world_ok w"
  by (auto simp: world_new_Some world_ok_def table_ok_def)


lemma world_register_component_storage:
  "w_storage (snd (world_register_component w ty sz al dflt)) = w_storage w"
  by (simp add: world_register_component_def Let_def split: prod.splits)

lemma world_create_entity_ok:
  fixes w :: "'v world"
  assumes "world_ok w" "world_create_entity w = Some (e, w')"
  shows "world_ok w'"
proof -
  obtain em and t :: "'v table" and row t' w2 where
    1: "storage_get_table (w_storage w) (w_empty_table w) = Some t"
    and 2: "table_add_row t e = Some (row, t')"
    and 3: "set_location
          (set_table (w\<lparr>w_entities := em,
                         w_locations := ensure_location_capacity (w_locations w) (entity_index e)\<rparr>)
             (w_empty_table w) t')
          (entity_index e) \<lparr>loc_tid = w_empty_table w, loc_row = row mod 2 ^ 32\<rparr> = Some w2"
    and 4: "w' = bump_version w2"
    using world_create_entity_Some [OF assms(2)] by blast
  have "table_ok t'"
    using assms(1) 1 2 by (blast intro: table_add_row_pres(1) world_ok_get_table)
  with assms(1) have "list_all table_ok (s_tables (w_storage w2))"
    using set_location_storage [OF 3]
    by (cases "w_empty_table w < length (s_tables (w_storage w))")
       (auto simp: world_ok_def set_table_def storage_set_table_def list_all_length nth_list_update)
  then show ?thesis
    unfolding 4 by (simp add: world_ok_def bump_version_storage)
qed

lemma remove_row_dense_and_fixup_ok:
  fixes w :: "'v world"
  assumes "world_ok w" "remove_row_dense_and_fixup w e = Some w'"
  shows "world_ok w'"
proof -
  obtain loc :: location and t :: "'v table" and swapped t' w2 w3 where
    1: "storage_get_table (w_storage w) (loc_tid loc) = Some t"
    and 2: "table_remove_row_swap t (loc_row loc) = Some (swapped, t')"
    and 3: "fixup_swapped (set_table w (loc_tid loc) t') swapped
          \<lparr>loc_tid = loc_tid loc, loc_row = loc_row loc\<rparr> = Some w2"
    and 4: "set_location w2 (entity_index e) \<lparr>loc_tid = INVALID_TABLE, loc_row = 0\<rparr> = Some w3"
    and 5: "w' = bump_version w3"
    using remove_row_dense_and_fixup_Some [OF assms(2)] by blast
  have "world_ok (set_table w (loc_tid loc) t')"
    using assms(1) 1 2
    by (blast intro: world_ok_set_table table_remove_row_swap_pres(1) world_ok_get_table)
  then show ?thesis
    unfolding 5 using fixup_swapped_storage [OF 3] set_location_storage [OF 4]
    by (simp add: world_ok_def bump_version_storage)
qed

lemma world_destroy_entity_ok:
  fixes w :: "'v world"
  assumes "world_ok w" "world_destroy_entity w e = Some w'"
  shows "world_ok w'"
proof (cases "em_alive (w_entities w) e")
  case False
  with assms show ?thesis
    by (simp add: world_destroy_entity_def)
next
  case True
  obtain loc :: location and w1 where
    1: "(if location_valid loc then remove_row_dense_and_fixup w e else Some w) = Some w1"
    and 2: "w' = bump_version (w1\<lparr>w_entities := em_destroy_entity (w_entities w1) e\<rparr>)"
    using world_destroy_entity_Some [OF assms(2) True] by blast
  from 1 assms(1) have "world_ok w1"
    by (auto split: if_splits dest: remove_row_dense_and_fixup_ok)
  then show ?thesis
    unfolding 2 by (simp add: world_ok_def bump_version_storage)
qed

lemma table_construct_ok:
  assumes "table_ok t"
    "(case opt_value of
        Some v \<Rightarrow> table_copy_construct_at t row cid v
      | None \<Rightarrow> table_default_construct_at t row cid) = Some t'"
  shows "table_ok t'"
  using assms
  by (auto simp: table_copy_construct_at_def table_default_construct_at_def bind_eq_Some_conv
      split: option.splits dest: table_write_ok [rotated])

lemma world_add_component_ok:
  fixes w :: "'v world"
  assumes "world_ok w" "world_add_component w e ty opt_value = Some w'"
  shows "world_ok w'"
proof (cases "world_alive w e")
  case False
  with assms show ?thesis
    by (simp add: world_add_component_def)
next
  case True
  obtain cid and loc :: location and old_table :: "'v table" where
    r: "if table_has old_table cid then w' = w
        else \<exists>new_tid w1 new_row w2 new_table new_table'.
            get_table_for_signature w (t_key old_table @ [cid]) = Some (new_tid, w1)
          \<and> migrate_entity_to_table w1 e new_tid = Some (new_row, w2)
          \<and> storage_get_table (w_storage w2) new_tid = Some new_table
          \<and> (case opt_value of
                Some v \<Rightarrow> table_copy_construct_at new_table new_row cid v
              | None \<Rightarrow> table_default_construct_at new_table new_row cid) = Some new_table'
          \<and> w' = bump_version (set_table w2 new_tid new_table')"
    using world_add_component_Some [OF assms(2) True] by blast
  show ?thesis
  proof (cases "table_has old_table cid")
    case True
    with r assms(1) show ?thesis by simp
  next
    case False
    with r obtain new_tid w1 new_row w2 new_table new_table' where
      1: "get_table_for_signature w (t_key old_table @ [cid]) = Some (new_tid, w1)"
      and 2: "migrate_entity_to_table w1 e new_tid = Some (new_row, w2)"
      and 3: "storage_get_table (w_storage w2) new_tid = Some new_table"
      and 4: "(case opt_value of
                Some v \<Rightarrow> table_copy_construct_at new_table new_row cid v
              | None \<Rightarrow> table_default_construct_at new_table new_row cid) = Some new_table'"
      and 5: "w' = bump_version (set_table w2 new_tid new_table')"
      by auto
    have "world_ok w2"
      using assms(1) 1 2
      by (blast intro: get_table_for_signature_ok migrate_entity_to_table_ok)
    then have "world_ok (set_table w2 new_tid new_table')"
      using 3 4 by (blast intro: world_ok_set_table table_construct_ok world_ok_get_table)
    then show ?thesis
      unfolding 5 by (simp add: world_ok_def bump_version_storage)
  qed
qed

lemma world_remove_component_ok:
  fixes w :: "'v world"
  assumes "world_ok w" "world_remove_component w e ty = Some w'"
  shows "world_ok w'"
proof (cases "world_alive w e")
  case False
  with assms show ?thesis
    by (simp add: world_remove_component_def)
next
  case True
  obtain cid and loc :: location and old_table :: "'v table" where
    r: "if \<not> table_has old_table cid then w' = w
        else \<exists>new_tid w1 new_row w2.
            lower_bound (t_key old_table) cid < length (t_key old_table)
          \<and> t_key old_table ! lower_bound (t_key old_table) cid = cid
          \<and> get_table_for_signature w
                (take (lower_bound (t_key old_table) cid) (t_key old_table)
                 @ drop (Suc (lower_bound (t_key old_table) cid)) (t_key old_table))
              = Some (new_tid, w1)
          \<and> migrate_entity_to_table w1 e new_tid = Some (new_row, w2)
          \<and> w' = bump_version w2"
    using world_remove_component_Some [OF assms(2) True] by blast
  show ?thesis
  proof (cases "table_has old_table cid")
    case False
    with r assms(1) show ?thesis by simp
  next
    case True
    with r obtain new_tid w1 new_row w2 where
      1: "get_table_for_signature w
                (take (lower_bound (t_key old_table) cid) (t_key old_table)
                 @ drop (Suc (lower_bound (t_key old_table) cid)) (t_key old_table))
              = Some (new_tid, w1)"
      and 2: "migrate_entity_to_table w1 e new_tid = Some (new_row, w2)"
      and 5: "w' = bump_version w2"
      by auto
    have "world_ok w2"
      using assms(1) 1 2
      by (blast intro: get_table_for_signature_ok migrate_entity_to_table_ok)
    then show ?thesis
      unfolding 5 by (simp add: world_ok_def bump_version_storage)
  qed
qed

lemma storage_get_or_create_table_ok:
  assumes "list_all table_ok (s_tables s)" "storage_get_or_create_table reg s (make_archetype_key ids) = Some (tid, s')"
  shows "list_all table_ok (s_tables s')"
  using assms
  by (auto simp: storage_get_or_create_table_def make_archetype_key_canonical
      split: option.splits dest: storage_create_table_ok)

lemma world_reserve_Some:
  assumes "world_reserve w tys n = Some w'"
  shows "\<exists>ids tid s t t'.
      map_all (registry_get_id (w_registry w)) tys = Some ids
    \<and> storage_get_or_create_table (w_registry w) (w_storage w) (make_archetype_key ids) = Some (tid, s)
    \<and> storage_get_table s tid = Some t
    \<and> table_reserve t n = Some t'
    \<and> w' = bump_version (w\<lparr>w_storage := storage_set_table s tid t'\<rparr>)"
  using assms unfolding world_reserve_def
  by (auto simp: bind_eq_Some_conv)

lemma world_reserve_ok:
  fixes w :: "'v world"
  assumes "world_ok w" "world_reserve w tys n = Some w'"
  shows "world_ok w'"
proof -
  from world_reserve_Some [OF assms(2)] obtain ids tid s and t t' :: "'v table" where
    g: "storage_get_or_create_table (w_registry w) (w_storage w) (make_archetype_key ids) = Some (tid, s)"
    and t: "storage_get_table s tid = Some t"
    and r: "table_reserve t n = Some t'"
    and w': "w' = bump_version (w\<lparr>w_storage := storage_set_table s tid t'\<rparr>)"
    by blast
  from assms(1) have "list_all table_ok (s_tables (w_storage w))"
    by (simp add: world_ok_def)
  from storage_get_or_create_table_ok [OF this g] have a: "list_all table_ok (s_tables s)" .
  with t have "table_ok t"
    by (auto simp: storage_get_table_def list_all_length split: if_splits)
  from table_reserve_pres(1) [OF this r] a
  have "list_all table_ok ((s_tables s)[tid := t'])"
    by (cases "tid < length (s_tables s)") (auto simp: list_all_length nth_list_update)
  then show ?thesis
    unfolding w' by (simp add: world_ok_def bump_version_def storage_set_table_def)
qed

lemma world_reachable_ok: "world_reachable w \<Longrightarrow> world_ok w"
proof (induction rule: world_reachable.induct)
  case (reach_new w)
  then show ?case by (rule world_new_ok)
next
  case (reach_register w ty sz al dflt)
  then show ?case
    by (simp add: world_ok_def world_register_component_storage)
next
  case (reach_reserve w tys count w')
  then show ?case by (blast intro: world_reserve_ok)
next
  case (reach_create w e w')
  then show ?case by (blast intro: world_create_entity_ok)
next
  case (reach_destroy w e w')
  then show ?case by (blast intro: world_destroy_entity_ok)
next
  case (reach_add w e ty opt_value w')
  then show ?case by (blast intro: world_add_component_ok)
next
  case (reach_remove w e ty w')
  then show ?case by (blast intro: world_remove_component_ok)
qed


section \<open>The size invariant of tables\<close>

text \<open>
  C4. In every table the length of the entities array equals the \<^verbatim>\<open>size\<close> field of every
  column. Each of \<^verbatim>\<open>add_row\<close>, \<^verbatim>\<open>add_row_uninitialized\<close>, \<^verbatim>\<open>remove_row_swap\<close> and
  \<^verbatim>\<open>remove_row_swap_nodestroy\<close> preserves the equality across all columns; on a
  well-formed table the two additions always complete, and so do the two removals of a row
  that exists. The equality, and the well-formedness, hold in every table of every store
  that the public operations produce.
\<close>

theorem table_sizes_invariant:
  "(table_sizes_ok t \<longrightarrow>
      (\<forall>e row t'. table_add_row t e = Some (row, t') \<longrightarrow> table_sizes_ok t')
    \<and> (\<forall>e row t'. table_add_row_uninitialized t e = Some (row, t') \<longrightarrow> table_sizes_ok t')
    \<and> (\<forall>row swapped t'. table_remove_row_swap t row = Some (swapped, t') \<longrightarrow> table_sizes_ok t')
    \<and> (\<forall>row swapped t'. table_remove_row_swap_nodestroy t row = Some (swapped, t')
          \<longrightarrow> table_sizes_ok t'))
   \<and> (table_ok t \<longrightarrow>
      (\<forall>e. \<exists>row t'. table_add_row t e = Some (row, t'))
    \<and> (\<forall>e. \<exists>row t'. table_add_row_uninitialized t e = Some (row, t'))
    \<and> (\<forall>row. row < table_size t \<longrightarrow>
          (\<exists>swapped t'. table_remove_row_swap t row = Some (swapped, t'))
        \<and> (\<exists>swapped t'. table_remove_row_swap_nodestroy t row = Some (swapped, t'))))
   \<and> (world_reachable w \<longrightarrow> world_sizes_ok w \<and> world_ok w)"
proof (intro conjI impI allI)
  fix e row t'
  assume "table_sizes_ok t" "table_add_row t e = Some (row, t')"
  then show "table_sizes_ok t'" by (rule table_add_row_sizes)
next
  fix e row t'
  assume "table_sizes_ok t" "table_add_row_uninitialized t e = Some (row, t')"
  then show "table_sizes_ok t'" by (rule table_add_row_uninitialized_sizes)
next
  fix row swapped t'
  assume "table_sizes_ok t" "table_remove_row_swap t row = Some (swapped, t')"
  then show "table_sizes_ok t'" by (rule table_remove_row_swap_sizes)
next
  fix row swapped t'
  assume "table_sizes_ok t" "table_remove_row_swap_nodestroy t row = Some (swapped, t')"
  then show "table_sizes_ok t'" by (rule table_remove_row_swap_nodestroy_sizes)
next
  fix e
  assume "table_ok t"
  from table_add_row_ok [OF this] show "\<exists>row t'. table_add_row t e = Some (row, t')"
    by blast
next
  fix e
  assume "table_ok t"
  from table_add_row_uninitialized_ok [OF this]
  show "\<exists>row t'. table_add_row_uninitialized t e = Some (row, t')"
    by blast
next
  fix row
  assume "table_ok t" "row < table_size t"
  then show "\<exists>swapped t'. table_remove_row_swap t row = Some (swapped, t')"
    using table_remove_row_swap_ok [of t row] by (auto simp: table_size_def)
next
  fix row
  assume "table_ok t" "row < table_size t"
  then show "\<exists>swapped t'. table_remove_row_swap_nodestroy t row = Some (swapped, t')"
    using table_remove_row_swap_nodestroy_ok [of t row] by (auto simp: table_size_def)
next
  assume "world_reachable w"
  then show "world_sizes_ok w" "world_ok w"
    by (simp_all add: world_reachable_ok world_ok_sizes)
qed

lemma example_table_ok: "table_ok example_table"
  by (simp add: example_table_def table_ok_def column_ok_def)

lemma example_world_ok: "world_ok example_world"
  using example_table_ok by (simp add: example_world_def world_ok_def table_ok_def column_ok_def)


theorem dead_handle_noop_witness:
  "\<not> world_alive example_world (entity_make 2 0)
   \<and> world_destroy_entity example_world (entity_make 2 0) = Some example_world
   \<and> world_add_component example_world (entity_make 2 0) 100 (Some 5) = Some example_world
   \<and> world_remove_component example_world (entity_make 2 0) 100 = Some example_world
   \<and> world_try_get_component example_world (entity_make 2 0) 100 = Some Nullptr"
proof -
  have "\<not> world_alive example_world (entity_make 2 0)"
    by (simp add: world_alive_def em_alive_def example_world_def entity_index_make
        entity_generation_make)
  with dead_handle_noop [of example_world "entity_make 2 0" 100 "Some 5"] show ?thesis
    by simp
qed

lemma probe_find_unfold:
  "probe_find keys vals msk cid slot fuel =
     (if fuel = 0 then None
      else if unat slot < length keys \<and> unat slot < length vals
           then if keys ! unat slot = cid then Some (vals ! unat slot)
                else if keys ! unat slot = INVALID_ID then None
                else probe_find keys vals msk cid ((slot + 1) AND msk) (fuel - 1)
           else None)"
  by (cases fuel) (simp_all add: Let_def)

lemma upt_3: "[0 ..< 3] = [0, 1, 2 :: nat]"
  by code_simp

lemma example_refresh:
  "render_cache_refresh [100, 101] render_cache_new example_world =
     Some \<lparr>rc_initialized = True, rc_required = [0, 1], rc_matching = [2],
           rc_blocks = [\<lparr>b_arrays = [Array_of 2 0, Array_of 2 1], b_n = 2\<rparr>],
           rc_cached_version = 13\<rparr>"
proof -
  have i: "render_cache_init [100, 101] render_cache_new example_world
      = Some \<lparr>rc_initialized = True, rc_required = [0, Suc 0], rc_matching = [], rc_blocks = [],
           rc_cached_version = - 1\<rparr>"
    by (simp add: render_cache_init_def render_cache_new_def example_world_def registry_get_id_def)
  have m: "build_matching \<lparr>rc_initialized = True, rc_required = [0, Suc 0], rc_matching = [], rc_blocks = [],
           rc_cached_version = - 1\<rparr> example_world
      = Some \<lparr>rc_initialized = True, rc_required = [0, Suc 0], rc_matching = [2], rc_blocks = [],
           rc_cached_version = - 1\<rparr>"
  proof -
    have u: "[0 ..< length (s_tables (w_storage example_world))] = [0, 1, 2]"
      by (simp add: example_world_def upt_3)
    show ?thesis
      unfolding build_matching_def Let_def u
      by (simp add: example_world_def example_table_def storage_get_table_def)
  qed
  have a0: "table_get_array (w_registry example_world) example_table 100 = Some (Array_of 2 0)"
    by (simp add: table_get_array_def example_world_def example_table_def registry_get_id_def
        table_has_def key_contains_def table_column_index_fast_def hash_cid_def
        probe_find_unfold INVALID_ID_def)
  have a1: "table_get_array (w_registry example_world) example_table 101 = Some (Array_of 2 (Suc 0))"
    by (simp add: table_get_array_def example_world_def example_table_def registry_get_id_def
        table_has_def key_contains_def table_column_index_fast_def hash_cid_def
        probe_find_unfold INVALID_ID_def)
  have t2: "storage_get_table (w_storage example_world) 2 = Some example_table"
    by (simp add: storage_get_table_def example_world_def)
  have n: "table_size example_table = 2"
    by (simp add: table_size_def example_table_def)
  have b: "rebuild_blocks [100, 101] \<lparr>rc_initialized = True, rc_required = [0, Suc 0], rc_matching = [2],
           rc_blocks = [], rc_cached_version = - 1\<rparr> example_world
      = Some \<lparr>rc_initialized = True, rc_required = [0, Suc 0], rc_matching = [2],
           rc_blocks = [\<lparr>b_arrays = [Array_of 2 0, Array_of 2 (Suc 0)], b_n = 2\<rparr>],
           rc_cached_version = - 1\<rparr>"
    by (simp add: rebuild_blocks_def t2 n a0 a1)
  have v: "w_version example_world = 13"
    by (simp add: example_world_def)
  have f: "\<not> rc_initialized render_cache_new"
    by (simp add: render_cache_new_def)
  show ?thesis
    by (simp add: render_cache_refresh_def i m b v f)
qed

theorem render_cache_refresh_idempotent_witness:
  "render_cache_refresh [100, 101] render_cache_new example_world =
     Some \<lparr>rc_initialized = True, rc_required = [0, 1], rc_matching = [2],
           rc_blocks = [\<lparr>b_arrays = [Array_of 2 0, Array_of 2 1], b_n = 2\<rparr>],
           rc_cached_version = 13\<rparr>
   \<and> render_cache_refresh [100, 101]
        \<lparr>rc_initialized = True, rc_required = [0, 1], rc_matching = [2],
         rc_blocks = [\<lparr>b_arrays = [Array_of 2 0, Array_of 2 1], b_n = 2\<rparr>],
         rc_cached_version = 13\<rparr> example_world =
     Some \<lparr>rc_initialized = True, rc_required = [0, 1], rc_matching = [2],
           rc_blocks = [\<lparr>b_arrays = [Array_of 2 0, Array_of 2 1], b_n = 2\<rparr>],
           rc_cached_version = 13\<rparr>"
  using render_cache_refresh_idempotent [OF example_refresh] example_refresh by blast


section \<open>Columns of a canonical key\<close>

lemma lower_bound_sorted:
  assumes "sorted ids" "distinct ids" "i < length ids"
  shows "lower_bound ids (ids ! i) = i"
  using assms
proof (induction ids arbitrary: i)
  case Nil
  then show ?case by simp
next
  case (Cons x xs)
  show ?case
  proof (cases i)
    case 0
    then show ?thesis by (simp add: lower_bound_def)
  next
    case (Suc j)
    with Cons.prems have j: "j < length xs" and lt: "x < xs ! j"
      by (auto simp: less_le)
    from Cons.prems have "sorted xs" "distinct xs" by auto
    from Cons.IH [OF this j] lt Suc show ?thesis
      by (simp add: lower_bound_def)
  qed
qed

lemma lower_bound_member:
  assumes "sorted ids" "distinct ids" "cid \<in> set ids"
  shows "lower_bound ids cid < length ids \<and> ids ! lower_bound ids cid = cid"
proof -
  from assms(3) obtain i where "i < length ids" "ids ! i = cid"
    by (auto simp: in_set_conv_nth)
  with lower_bound_sorted [OF assms(1,2), of i] show ?thesis
    by simp
qed

lemma lower_bound_inj:
  assumes "sorted ids" "distinct ids" "cid \<in> set ids" "cid' \<in> set ids"
    "lower_bound ids cid = lower_bound ids cid'"
  shows "cid = cid'"
  using lower_bound_member [OF assms(1,2,3)] lower_bound_member [OF assms(1,2,4)] assms(5)
  by metis

lemma intersect_sorted_ids_subset:
  assumes "sorted as" "distinct as" "sorted bs" "distinct bs"
  shows "set (intersect_sorted_ids as bs) = set as \<inter> set bs \<and> distinct (intersect_sorted_ids as bs)"
  using assms
proof (induction as bs rule: intersect_sorted_ids.induct)
  case (1 a as b bs)
  then show ?case
    by (auto simp: less_le)
qed simp_all

section \<open>Reading a component\<close>

lemma world_read_Cell:
  assumes "storage_get_table (w_storage w) tid = Some t" "table_get_column t cid = Some i"
  shows "world_read w (Cell tid i row) = Some a \<longleftrightarrow> table_read t row cid = Some (Some a)"
  using assms unfolding world_read_def table_read_def table_get_column_def
  by (auto simp: bind_eq_Some_conv split: if_splits)

lemma world_get_component_SomeD:
  assumes "world_get_component w e ty = Some a"
  shows "world_alive w e \<and>
     (\<exists>cid loc t. registry_get_id (w_registry w) ty = Some cid
        \<and> location_at w (entity_index e) = Some loc \<and> location_valid loc
        \<and> storage_get_table (w_storage w) (loc_tid loc) = Some t
        \<and> table_has t cid \<and> loc_row loc < table_size t
        \<and> table_read t (loc_row loc) cid = Some (Some a))"
proof -
  from assms have al: "world_alive w e"
    by (auto simp: world_get_component_def split: if_splits)
  from assms al obtain cid and loc :: location and t i where
    1: "registry_get_id (w_registry w) ty = Some cid"
    and 2: "location_at w (entity_index e) = Some loc" "location_valid loc"
    and 3: "storage_get_table (w_storage w) (loc_tid loc) = Some t"
    and 4: "table_has t cid" "loc_row loc < table_size t"
    and 5: "table_get_column t cid = Some i"
    and 6: "world_read w (Cell (loc_tid loc) i (loc_row loc)) = Some a"
    unfolding world_get_component_def table_get_component_ptr_def
    by (auto simp: bind_eq_Some_conv split: if_splits)
  from 6 have "table_read t (loc_row loc) cid = Some (Some a)"
    unfolding world_read_Cell [OF 3 5] .
  with al 1 2 3 4 show ?thesis
    by blast
qed

lemma world_get_component_SomeI:
  assumes "world_alive w e" "registry_get_id (w_registry w) ty = Some cid"
    "location_at w (entity_index e) = Some loc" "location_valid loc"
    "storage_get_table (w_storage w) (loc_tid loc) = Some t"
    "table_has t cid" "loc_row loc < table_size t"
    "table_read t (loc_row loc) cid = Some (Some a)"
  shows "world_get_component w e ty = Some a"
proof -
  from assms(8) obtain i where i: "table_get_column t cid = Some i"
    by (auto simp: table_read_def bind_eq_Some_conv)
  from assms(8) have "world_read w (Cell (loc_tid loc) i (loc_row loc)) = Some a"
    unfolding world_read_Cell [OF assms(5) i] .
  with assms(1-7) i show ?thesis
    unfolding world_get_component_def table_get_component_ptr_def
    by simp
qed


section \<open>Tables of the store under updates\<close>

lemma set_table_simps [simp]:
  "s_tables (w_storage (set_table w tid t)) = (s_tables (w_storage w))[tid := t]"
  "s_key_tables (w_storage (set_table w tid t)) = s_key_tables (w_storage w)"
  "s_schema_version (w_storage (set_table w tid t)) = s_schema_version (w_storage w)"
  "w_locations (set_table w tid t) = w_locations w"
  "w_entities (set_table w tid t) = w_entities w"
  "w_registry (set_table w tid t) = w_registry w"
  "w_version (set_table w tid t) = w_version w"
  "w_empty_table (set_table w tid t) = w_empty_table w"
  by (simp_all add: set_table_def storage_set_table_def)

lemma bump_version_simps [simp]:
  "w_storage (bump_version w) = w_storage w"
  "w_locations (bump_version w) = w_locations w"
  "w_entities (bump_version w) = w_entities w"
  "w_registry (bump_version w) = w_registry w"
  "w_empty_table (bump_version w) = w_empty_table w"
  "w_version (bump_version w) = w_version w + 1"
  by (simp_all add: bump_version_def)

lemma storage_get_table_Some:
  "storage_get_table s tid = Some t \<longleftrightarrow> tid < length (s_tables s) \<and> t = s_tables s ! tid"
  by (auto simp: storage_get_table_def)

lemma set_location_Some:
  "set_location w i l = Some w' \<longleftrightarrow>
     unat i < length (w_locations w) \<and> w' = w\<lparr>w_locations := (w_locations w)[unat i := l]\<rparr>"
  by (auto simp: set_location_def)

lemma location_at_Some:
  "location_at w i = Some l \<longleftrightarrow> unat i < length (w_locations w) \<and> l = w_locations w ! unat i"
  by (auto simp: location_at_def)

lemma table_read_write_same:
  "table_write t row cid x = Some t' \<Longrightarrow> table_read t' row cid = Some x"
  by (auto simp: table_write_Some table_read_Some)

lemma table_read_write_other:
  assumes "table_write t row cid x = Some t'" "sorted (t_key t)" "distinct (t_key t)"
    "cid \<in> set (t_key t)" "cid' \<in> set (t_key t)" "cid' \<noteq> cid"
  shows "table_read t' row' cid' = table_read t row' cid'"
proof -
  from lower_bound_inj [OF assms(2,3,5,4)] assms(6)
  have ne: "lower_bound (t_key t) cid' \<noteq> lower_bound (t_key t) cid"
    by blast
  from assms(1) obtain cells where
    t': "t' = t\<lparr>t_columns := (t_columns t)[lower_bound (t_key t) cid :=
            (t_columns t ! lower_bound (t_key t) cid)\<lparr>c_data := Some (cells[row := x])\<rparr>]\<rparr>"
    by (auto simp: table_write_Some)
  show ?thesis
    unfolding t' table_read_def table_get_column_def table_column_index_def Let_def
    using ne by (simp add: nth_list_update)
qed

lemma table_read_write_other_row:
  assumes "table_write t row cid x = Some t'" "row' \<noteq> row"
  shows "table_read t' row' cid' = table_read t row' cid'"
proof -
  from assms(1) obtain cells where i: "lower_bound (t_key t) cid < length (t_columns t)"
    and d: "c_data (t_columns t ! lower_bound (t_key t) cid) = Some cells"
    and t': "t' = t\<lparr>t_columns := (t_columns t)[lower_bound (t_key t) cid :=
            (t_columns t ! lower_bound (t_key t) cid)\<lparr>c_data := Some (cells[row := x])\<rparr>]\<rparr>"
    by (auto simp: table_write_Some)
  show ?thesis
    unfolding t' table_read_def table_get_column_def table_column_index_def Let_def
    using assms(2) i d by (auto simp: nth_list_update column_read_def)
qed

lemma migrate_move_Some:
  assumes "migrate_move old_tid old_row new_tid new_row w cid = Some w'"
  shows "\<exists>x new_table' old_table'.
      old_tid < length (s_tables (w_storage w)) \<and> new_tid < length (s_tables (w_storage w))
    \<and> table_read (s_tables (w_storage w) ! old_tid) old_row cid = Some x
    \<and> table_write (s_tables (w_storage w) ! new_tid) new_row cid x = Some new_table'
    \<and> table_write ((s_tables (w_storage w))[new_tid := new_table'] ! old_tid) old_row cid None
        = Some old_table'
    \<and> w' = set_table (set_table w new_tid new_table') old_tid old_table'"
  using assms unfolding migrate_move_def Let_def
  by (auto simp: bind_eq_Some_conv storage_get_table_Some)

lemma migrate_destroy_Some:
  assumes "migrate_destroy old_tid old_row new_tid w cid = Some w'"
  shows "new_tid < length (s_tables (w_storage w)) \<and>
     (if table_has (s_tables (w_storage w) ! new_tid) cid then w' = w
      else \<exists>old_table'. old_tid < length (s_tables (w_storage w))
        \<and> table_write (s_tables (w_storage w) ! old_tid) old_row cid None = Some old_table'
        \<and> w' = set_table w old_tid old_table')"
  using assms unfolding migrate_destroy_def Let_def
  by (auto simp: bind_eq_Some_conv storage_get_table_Some split: if_splits)

lemma for_each_invariant_rem:
  assumes "for_each f xs s = Some s'" "P xs s"
    "\<And>x ys s s'. P (x # ys) s \<Longrightarrow> f s x = Some s' \<Longrightarrow> P ys s'"
  shows "P [] s'"
  using assms(1,2)
proof (induction xs arbitrary: s)
  case Nil
  then show ?case by simp
next
  case (Cons x xs)
  from Cons.prems(1) obtain s1 where s1: "f s x = Some s1" and r: "for_each f xs s1 = Some s'"
    by (auto split: option.splits)
  from assms(3) [OF Cons.prems(2) s1] have "P xs s1" .
  from Cons.IH [OF r this] show ?case .
qed


section \<open>Migration moves the shared components\<close>

lemma same_shape_refl: "same_shape w w"
  by (simp add: same_shape_def)

lemma same_shape_trans: "same_shape w w' \<Longrightarrow> same_shape w' w'' \<Longrightarrow> same_shape w w''"
  by (simp add: same_shape_def)

lemma same_shape_nth:
  assumes "same_shape w w'" "tid < length (s_tables (w_storage w))"
  shows "tid < length (s_tables (w_storage w'))"
    and "t_key (s_tables (w_storage w') ! tid) = t_key (s_tables (w_storage w) ! tid)"
    and "t_entities (s_tables (w_storage w') ! tid) = t_entities (s_tables (w_storage w) ! tid)"
    and "t_id (s_tables (w_storage w') ! tid) = t_id (s_tables (w_storage w) ! tid)"
proof -
  from assms(1) have m: "map table_shape (s_tables (w_storage w'))
      = map table_shape (s_tables (w_storage w))"
    by (simp add: same_shape_def)
  from arg_cong [OF m, of length] assms(2) show l: "tid < length (s_tables (w_storage w'))"
    by simp
  from arg_cong [OF m, of "\<lambda>xs. xs ! tid"] assms(2) l
  have "table_shape (s_tables (w_storage w') ! tid) = table_shape (s_tables (w_storage w) ! tid)"
    by simp
  then show "t_key (s_tables (w_storage w') ! tid) = t_key (s_tables (w_storage w) ! tid)"
    and "t_entities (s_tables (w_storage w') ! tid) = t_entities (s_tables (w_storage w) ! tid)"
    and "t_id (s_tables (w_storage w') ! tid) = t_id (s_tables (w_storage w) ! tid)"
    by (simp_all add: table_shape_def)
qed

lemma same_shape_length:
  "same_shape w w' \<Longrightarrow> length (s_tables (w_storage w')) = length (s_tables (w_storage w))"
  using map_eq_imp_length_eq by (auto simp: same_shape_def)

lemma table_write_shape: "table_write t row cid x = Some t' \<Longrightarrow> table_shape t' = table_shape t"
  by (auto simp: table_write_Some table_shape_def)

lemma same_shape_set_table:
  assumes "tid < length (s_tables (w_storage w))"
    "table_shape t = table_shape (s_tables (w_storage w) ! tid)"
  shows "same_shape w (set_table w tid t)"
  using assms by (simp add: same_shape_def map_update list_update_same_conv)

lemma migrate_move_shape:
  assumes "migrate_move old_tid old_row new_tid new_row w cid = Some w'"
  shows "same_shape w w'"
proof -
  from migrate_move_Some [OF assms] obtain x new_table' old_table' where
    o: "old_tid < length (s_tables (w_storage w))" and n: "new_tid < length (s_tables (w_storage w))"
    and 1: "table_write (s_tables (w_storage w) ! new_tid) new_row cid x = Some new_table'"
    and 2: "table_write ((s_tables (w_storage w))[new_tid := new_table'] ! old_tid) old_row cid None
        = Some old_table'"
    and w': "w' = set_table (set_table w new_tid new_table') old_tid old_table'"
    by blast
  have a: "same_shape w (set_table w new_tid new_table')"
    by (rule same_shape_set_table [OF n]) (rule table_write_shape [OF 1])
  have b: "same_shape (set_table w new_tid new_table') w'"
    unfolding w' using o table_write_shape [OF 2]
    by (intro same_shape_set_table) simp_all
  from same_shape_trans [OF a b] show ?thesis .
qed

lemma migrate_destroy_shape:
  assumes "migrate_destroy old_tid old_row new_tid w cid = Some w'"
  shows "same_shape w w'"
proof (cases "table_has (s_tables (w_storage w) ! new_tid) cid")
  case True
  with migrate_destroy_Some [OF assms] show ?thesis
    by (simp add: same_shape_refl)
next
  case False
  with migrate_destroy_Some [OF assms] obtain old_table' where
    "old_tid < length (s_tables (w_storage w))"
    "table_write (s_tables (w_storage w) ! old_tid) old_row cid None = Some old_table'"
    "w' = set_table w old_tid old_table'"
    by auto
  then show ?thesis
    by (auto intro!: same_shape_set_table dest: table_write_shape)
qed

lemma for_each_shape:
  assumes "for_each f cs w = Some w'" "\<And>s c s'. f s c = Some s' \<Longrightarrow> same_shape s s'"
  shows "same_shape w w'"
proof (rule for_each_invariant [where P = "same_shape w", OF assms(1) same_shape_refl])
  fix s c s'
  assume "same_shape w s" "f s c = Some s'"
  with assms(2) show "same_shape w s'"
    by (blast intro: same_shape_trans)
qed

lemma world_ok_nth:
  "world_ok w \<Longrightarrow> tid < length (s_tables (w_storage w)) \<Longrightarrow> table_ok (s_tables (w_storage w) ! tid)"
  by (simp add: world_ok_def list_all_length)

lemma migrate_move_content:
  fixes s :: "'v world"
  assumes mv: "migrate_move old_tid old_row new_tid new_row s c = Some s'"
    and ok: "world_ok s" and ne: "old_tid \<noteq> new_tid"
    and c: "c \<in> set (t_key (s_tables (w_storage s) ! old_tid))"
      "c \<in> set (t_key (s_tables (w_storage s) ! new_tid))"
  shows "table_read (s_tables (w_storage s') ! new_tid) new_row c
           = table_read (s_tables (w_storage s) ! old_tid) old_row c"
    and "\<And>cid row. cid \<in> set (t_key (s_tables (w_storage s) ! new_tid)) \<Longrightarrow> cid \<noteq> c \<Longrightarrow>
           table_read (s_tables (w_storage s') ! new_tid) row cid
           = table_read (s_tables (w_storage s) ! new_tid) row cid"
    and "\<And>cid row. cid \<in> set (t_key (s_tables (w_storage s) ! old_tid)) \<Longrightarrow> cid \<noteq> c \<Longrightarrow>
           table_read (s_tables (w_storage s') ! old_tid) row cid
           = table_read (s_tables (w_storage s) ! old_tid) row cid"
proof -
  let ?T = "s_tables (w_storage s)"
  from migrate_move_Some [OF mv] obtain x new_table' old_table' where
    o: "old_tid < length ?T" and n: "new_tid < length ?T"
    and r: "table_read (?T ! old_tid) old_row c = Some x"
    and 1: "table_write (?T ! new_tid) new_row c x = Some new_table'"
    and 2: "table_write (?T[new_tid := new_table'] ! old_tid) old_row c None = Some old_table'"
    and s': "s' = set_table (set_table s new_tid new_table') old_tid old_table'"
    by blast
  from 2 ne have 2: "table_write (?T ! old_tid) old_row c None = Some old_table'"
    by simp
  have tn: "s_tables (w_storage s') ! new_tid = new_table'"
    unfolding s' using ne n by simp
  have to: "s_tables (w_storage s') ! old_tid = old_table'"
    unfolding s' using o by simp
  note okn = world_ok_nth [OF ok n] and oko = world_ok_nth [OF ok o]
  show "table_read (s_tables (w_storage s') ! new_tid) new_row c = table_read (?T ! old_tid) old_row c"
    unfolding tn r by (rule table_read_write_same [OF 1])
  show "table_read (s_tables (w_storage s') ! new_tid) row cid = table_read (?T ! new_tid) row cid"
    if "cid \<in> set (t_key (?T ! new_tid))" "cid \<noteq> c" for cid row
    unfolding tn using okn that c(2)
    by (intro table_read_write_other [OF 1]) (simp_all add: table_ok_def)
  show "table_read (s_tables (w_storage s') ! old_tid) row cid = table_read (?T ! old_tid) row cid"
    if "cid \<in> set (t_key (?T ! old_tid))" "cid \<noteq> c" for cid row
    unfolding to using oko that c(1)
    by (intro table_read_write_other [OF 2]) (simp_all add: table_ok_def)
qed

lemma migrate_move_loop:
  fixes w :: "'v world"
  assumes loop: "for_each (migrate_move old_tid old_row new_tid new_row) cs w = Some w'"
    and ok: "world_ok w" and ne: "old_tid \<noteq> new_tid"
    and o: "old_tid < length (s_tables (w_storage w))"
    and n: "new_tid < length (s_tables (w_storage w))"
    and d: "distinct cs"
    and sub: "set cs \<subseteq> set (t_key (s_tables (w_storage w) ! old_tid))
                     \<inter> set (t_key (s_tables (w_storage w) ! new_tid))"
    and cid: "cid \<in> set cs"
  shows "table_read (s_tables (w_storage w') ! new_tid) new_row cid
           = table_read (s_tables (w_storage w) ! old_tid) old_row cid"
proof -
  let ?T = "\<lambda>s. s_tables (w_storage s)"
  let ?x = "table_read (?T w ! old_tid) old_row cid"
  define P where "P ys s \<longleftrightarrow>
      distinct ys \<and> set ys \<subseteq> set cs \<and> same_shape w s \<and> world_ok s \<and>
      (if cid \<in> set ys then table_read (?T s ! old_tid) old_row cid = ?x
       else table_read (?T s ! new_tid) new_row cid = ?x)" for ys s
  have init: "P cs w"
    using d ok cid by (simp add: P_def same_shape_refl)
  have step: "P ys s'" if p: "P (c # ys) s"
    and mv: "migrate_move old_tid old_row new_tid new_row s c = Some s'" for c ys s s'
  proof -
    from p have dy: "distinct ys" "c \<notin> set ys" and sy: "set ys \<subseteq> set cs" and cc: "c \<in> set cs"
      and sh: "same_shape w s" and oks: "world_ok s"
      by (auto simp: P_def)
    from same_shape_nth [OF sh o] same_shape_nth [OF sh n] sub cc
    have ko: "t_key (?T s ! old_tid) = t_key (?T w ! old_tid)"
      and kn: "t_key (?T s ! new_tid) = t_key (?T w ! new_tid)"
      and c: "c \<in> set (t_key (?T s ! old_tid))" "c \<in> set (t_key (?T s ! new_tid))"
      by auto
    note m = migrate_move_content [OF mv oks ne c]
    have sh': "same_shape w s'"
      using sh migrate_move_shape [OF mv] by (rule same_shape_trans)
    have ok': "world_ok s'"
      using oks mv by (rule migrate_move_ok)
    have "if cid \<in> set ys then table_read (?T s' ! old_tid) old_row cid = ?x
       else table_read (?T s' ! new_tid) new_row cid = ?x"
    proof (cases "cid = c")
      case True
      with p dy m(1) show ?thesis
        by (simp add: P_def)
    next
      case False
      from sub cid ko kn have "cid \<in> set (t_key (?T s ! old_tid))" "cid \<in> set (t_key (?T s ! new_tid))"
        by auto
      with m(2) [of cid new_row] m(3) [of cid old_row] False p show ?thesis
        by (simp add: P_def)
    qed
    with dy sy sh' ok' show ?thesis
      by (simp add: P_def)
  qed
  have "P [] w'"
  proof (rule for_each_invariant_rem
      [where P = P and f = "migrate_move old_tid old_row new_tid new_row", OF loop init])
    fix x ys s s'
    assume "P (x # ys) s" "migrate_move old_tid old_row new_tid new_row s x = Some s'"
    then show "P ys s'"
      by (rule step)
  qed
  then show ?thesis
    by (simp add: P_def)
qed


section \<open>Finding or creating the destination table\<close>

lemma key_tables_ok_lookup:
  assumes "key_tables_ok s" "map_of (s_key_tables s) key = Some tid"
  shows "tid < length (s_tables s) \<and> t_key (s_tables s ! tid) = key"
proof -
  from assms(2) have "(key, tid) \<in> set (s_key_tables s)"
    by (rule map_of_SomeD)
  with assms(1) show ?thesis
    by (auto simp: key_tables_ok_def list_all_iff)
qed

lemma get_table_for_signature_effect:
  fixes w :: "'v world"
  assumes g: "get_table_for_signature w ids = Some (new_tid, w1)"
    and kt: "key_tables_ok (w_storage w)"
    and bound: "length (s_tables (w_storage w)) < 2 ^ 32 - 1"
  shows "w_entities w1 = w_entities w \<and> w_registry w1 = w_registry w
    \<and> w_locations w1 = w_locations w \<and> w_empty_table w1 = w_empty_table w
    \<and> w_version w1 = w_version w
    \<and> take (length (s_tables (w_storage w))) (s_tables (w_storage w1)) = s_tables (w_storage w)
    \<and> length (s_tables (w_storage w)) \<le> length (s_tables (w_storage w1))
    \<and> length (s_tables (w_storage w1)) \<le> Suc (length (s_tables (w_storage w)))
    \<and> new_tid < length (s_tables (w_storage w1))
    \<and> new_tid < 2 ^ 32 - 1
    \<and> t_key (s_tables (w_storage w1) ! new_tid) = make_archetype_key ids
    \<and> key_tables_ok (w_storage w1)"
proof -
  let ?key = "make_archetype_key ids"
  from get_table_for_signature_Some [OF g] obtain s where
    s: "storage_get_or_create_table (w_registry w) (w_storage w) ?key = Some (new_tid, s)"
    and w1: "w1 = w\<lparr>w_storage := s\<rparr>"
    by blast
  show ?thesis
  proof (cases "map_of (s_key_tables (w_storage w)) ?key")
    case (Some tid)
    with s have e: "new_tid = tid" "s = w_storage w"
      by (simp_all add: storage_get_or_create_table_def)
    from key_tables_ok_lookup [OF kt Some] e kt bound w1 show ?thesis
      by simp
  next
    case None
    with s have c: "storage_create_table (w_registry w) (w_storage w) ?key = Some (new_tid, s)"
      by (simp add: storage_get_or_create_table_def)
    from storage_create_table_new_table [OF c make_archetype_key_canonical(1,2)]
    obtain t where t: "s_tables s = s_tables (w_storage w) @ [t]" "t_key t = ?key"
      by blast
    from storage_create_table_Some [OF c] None
    have tid: "new_tid = length (s_tables (w_storage w)) mod 2 ^ 32"
      and k: "s_key_tables s = (?key, new_tid) # s_key_tables (w_storage w)"
      by auto
    from bound have b: "length (s_tables (w_storage w)) mod 2 ^ 32 = length (s_tables (w_storage w))"
      by simp
    have "key_tables_ok s"
      using kt t unfolding key_tables_ok_def k tid b
      by (auto simp: list_all_iff nth_append)
    with t tid b bound w1 show ?thesis
      by simp
  qed
qed

section \<open>The two loops of a migration\<close>

lemma migrate_move_frame:
  assumes "migrate_move old_tid old_row new_tid new_row w cid = Some w'"
    "tid \<noteq> old_tid" "tid \<noteq> new_tid"
  shows "s_tables (w_storage w') ! tid = s_tables (w_storage w) ! tid"
  using migrate_move_Some [OF assms(1)] assms(2,3) by auto

lemma migrate_destroy_frame:
  assumes "migrate_destroy old_tid old_row new_tid w cid = Some w'" "tid \<noteq> old_tid"
  shows "s_tables (w_storage w') ! tid = s_tables (w_storage w) ! tid"
  using migrate_destroy_Some [OF assms(1)] assms(2) by (auto split: if_splits)

lemma for_each_frame:
  assumes "for_each f cs w = Some w'"
    "\<And>s c s'. f s c = Some s' \<Longrightarrow> s_tables (w_storage s') ! tid = s_tables (w_storage s) ! tid"
  shows "s_tables (w_storage w') ! tid = s_tables (w_storage w) ! tid"
proof (rule for_each_invariant
    [where P = "\<lambda>s. s_tables (w_storage s) ! tid = s_tables (w_storage w) ! tid", OF assms(1)])
  fix s c s'
  assume "s_tables (w_storage s) ! tid = s_tables (w_storage w) ! tid" "f s c = Some s'"
  with assms(2) [of s c s'] show "s_tables (w_storage s') ! tid = s_tables (w_storage w) ! tid"
    by simp
qed simp

lemma for_each_world_ok:
  assumes "for_each f cs w = Some w'" "world_ok w"
    "\<And>s c s'. world_ok s \<Longrightarrow> f s c = Some s' \<Longrightarrow> world_ok s'"
  shows "world_ok w'"
  by (rule for_each_invariant [where P = world_ok, OF assms(1,2)]) (rule assms(3))

lemma migrate_loops_effect:
  fixes w1 :: "'v world"
  assumes mv: "for_each (migrate_move old_tid old_row new_tid new_row) cs w1 = Some w2"
    and ds: "for_each (migrate_destroy old_tid old_row new_tid) ks w2 = Some w3"
    and ok: "world_ok w1" and ne: "old_tid \<noteq> new_tid"
    and o: "old_tid < length (s_tables (w_storage w1))"
    and n: "new_tid < length (s_tables (w_storage w1))"
    and d: "distinct cs"
    and sub: "set cs \<subseteq> set (t_key (s_tables (w_storage w1) ! old_tid))
                     \<inter> set (t_key (s_tables (w_storage w1) ! new_tid))"
  shows "same_shape w1 w3" and "world_ok w3"
    and "\<And>tid. tid \<noteq> old_tid \<Longrightarrow> tid \<noteq> new_tid \<Longrightarrow>
           s_tables (w_storage w3) ! tid = s_tables (w_storage w1) ! tid"
    and "\<And>cid. cid \<in> set cs \<Longrightarrow>
           table_read (s_tables (w_storage w3) ! new_tid) new_row cid
           = table_read (s_tables (w_storage w1) ! old_tid) old_row cid"
proof -
  have s12: "same_shape w1 w2"
    by (rule for_each_shape [OF mv]) (rule migrate_move_shape)
  have s23: "same_shape w2 w3"
    by (rule for_each_shape [OF ds]) (rule migrate_destroy_shape)
  from s12 s23 show "same_shape w1 w3"
    by (rule same_shape_trans)
  have ok2: "world_ok w2"
    by (rule for_each_world_ok [OF mv ok]) (rule migrate_move_ok)
  show "world_ok w3"
    by (rule for_each_world_ok [OF ds ok2]) (rule migrate_destroy_ok)
  have new23: "s_tables (w_storage w3) ! new_tid = s_tables (w_storage w2) ! new_tid"
    by (rule for_each_frame [OF ds]) (rule migrate_destroy_frame, assumption, rule ne [symmetric])
  show "s_tables (w_storage w3) ! tid = s_tables (w_storage w1) ! tid"
    if t: "tid \<noteq> old_tid" "tid \<noteq> new_tid" for tid
  proof -
    have "s_tables (w_storage w2) ! tid = s_tables (w_storage w1) ! tid"
      by (rule for_each_frame [OF mv]) (rule migrate_move_frame, assumption, rule t, rule t)
    moreover have "s_tables (w_storage w3) ! tid = s_tables (w_storage w2) ! tid"
      by (rule for_each_frame [OF ds]) (rule migrate_destroy_frame, assumption, rule t)
    ultimately show ?thesis
      by simp
  qed
  show "table_read (s_tables (w_storage w3) ! new_tid) new_row cid
           = table_read (s_tables (w_storage w1) ! old_tid) old_row cid"
    if "cid \<in> set cs" for cid
    unfolding new23 by (rule migrate_move_loop [OF mv ok ne o n d sub that])
qed

section \<open>The effect of a migration\<close>

lemma fixup_swapped_Some:
  "fixup_swapped w swapped l = Some w' \<longleftrightarrow>
     (if entity_valid swapped
      then unat (entity_index swapped) < length (w_locations w)
         \<and> w' = w\<lparr>w_locations := (w_locations w)[unat (entity_index swapped) := l]\<rparr>
      else w' = w)"
  by (auto simp: fixup_swapped_def set_location_Some)

lemma migrate_entity_to_table_effect:
  fixes w :: "'v world"
  assumes m: "migrate_entity_to_table w e new_tid = Some (new_row, w')"
    and ok: "world_ok w"
    and loc: "location_at w (entity_index e) = Some loc"
    and ne: "loc_tid loc \<noteq> new_tid"
  shows "\<exists>swapped.
      location_valid loc
    \<and> loc_tid loc < length (s_tables (w_storage w))
    \<and> new_tid < length (s_tables (w_storage w))
    \<and> loc_row loc < length (t_entities (s_tables (w_storage w) ! loc_tid loc))
    \<and> new_row = length (t_entities (s_tables (w_storage w) ! new_tid)) mod 2 ^ 32
    \<and> world_ok w'
    \<and> w_entities w' = w_entities w \<and> w_registry w' = w_registry w
    \<and> w_empty_table w' = w_empty_table w \<and> w_version w' = w_version w + 1
    \<and> s_key_tables (w_storage w') = s_key_tables (w_storage w)
    \<and> length (s_tables (w_storage w')) = length (s_tables (w_storage w))
    \<and> map t_key (s_tables (w_storage w')) = map t_key (s_tables (w_storage w))
    \<and> (\<forall>tid. tid \<noteq> loc_tid loc \<and> tid \<noteq> new_tid \<longrightarrow>
          s_tables (w_storage w') ! tid = s_tables (w_storage w) ! tid)
    \<and> t_entities (s_tables (w_storage w') ! new_tid)
        = t_entities (s_tables (w_storage w) ! new_tid) @ [e]
    \<and> (swapped, t_entities (s_tables (w_storage w') ! loc_tid loc))
        = entities_remove_swap (t_entities (s_tables (w_storage w) ! loc_tid loc)) (loc_row loc)
    \<and> unat (entity_index e) < length (w_locations w)
    \<and> (entity_valid swapped \<longrightarrow> unat (entity_index swapped) < length (w_locations w))
    \<and> w_locations w'
        = (if entity_valid swapped
           then (w_locations w)[unat (entity_index swapped) := \<lparr>loc_tid = loc_tid loc, loc_row = loc_row loc\<rparr>]
           else w_locations w)[unat (entity_index e) := \<lparr>loc_tid = new_tid, loc_row = new_row\<rparr>]
    \<and> (\<forall>cid \<in> set (t_key (s_tables (w_storage w) ! loc_tid loc))
                 \<inter> set (t_key (s_tables (w_storage w) ! new_tid)).
          table_read (s_tables (w_storage w') ! new_tid) new_row cid
          = table_read (s_tables (w_storage w) ! loc_tid loc) (loc_row loc) cid)"
proof -
  let ?T = "s_tables (w_storage w)"
  let ?o = "loc_tid loc" and ?r = "loc_row loc"
  obtain loc' :: location and old_table :: "'v table"
    and new_table r new_table' w2 w3 old_table3 swapped old_table' w5 w6
    where 0: "location_at w (entity_index e) = Some loc'" "location_valid loc'"
    and 1: "storage_get_table (w_storage w) (loc_tid loc') = Some old_table"
      "storage_get_table (w_storage w) new_tid = Some new_table"
    and 2: "table_add_row_uninitialized new_table e = Some (r, new_table')"
      "new_row = r mod 2 ^ 32"
    and 3: "for_each (migrate_move (loc_tid loc') (loc_row loc') new_tid new_row)
              (intersect_sorted_ids (t_key old_table) (t_key new_table))
              (set_table w new_tid new_table') = Some w2"
    and 4: "for_each (migrate_destroy (loc_tid loc') (loc_row loc') new_tid) (t_key old_table) w2 = Some w3"
    and 5: "storage_get_table (w_storage w3) (loc_tid loc') = Some old_table3"
    and 6: "table_remove_row_swap_nodestroy old_table3 (loc_row loc') = Some (swapped, old_table')"
    and 7: "fixup_swapped (set_table w3 (loc_tid loc') old_table') swapped
          \<lparr>loc_tid = loc_tid loc', loc_row = loc_row loc'\<rparr> = Some w5"
    and 8: "set_location w5 (entity_index e) \<lparr>loc_tid = new_tid, loc_row = new_row\<rparr> = Some w6"
    and 9: "w' = bump_version w6"
    using migrate_entity_to_table_Some [OF m] by blast
  from 0 loc have [simp]: "loc' = loc"
    by simp
  from 0 have v: "location_valid loc"
    by simp
  from 1 have o: "?o < length ?T" and n: "new_tid < length ?T"
    and ot: "old_table = ?T ! ?o" and nt: "new_table = ?T ! new_tid"
    by (simp_all add: storage_get_table_Some)
  note oko = world_ok_nth [OF ok o] and okn = world_ok_nth [OF ok n]
  note a = table_add_row_uninitialized_pres [OF okn 2(1) [unfolded nt]]
  define w1 where "w1 = set_table w new_tid new_table'"
  have ok1: "world_ok w1"
    unfolding w1_def using ok a(1) by (rule world_ok_set_table)
  have T1: "s_tables (w_storage w1) = ?T[new_tid := new_table']"
    by (simp add: w1_def)
  have o1: "?o < length (s_tables (w_storage w1))" and n1: "new_tid < length (s_tables (w_storage w1))"
    using o n by (simp_all add: T1)
  have old1: "s_tables (w_storage w1) ! ?o = ?T ! ?o"
    using ne by (simp add: T1)
  have new1: "s_tables (w_storage w1) ! new_tid = new_table'"
    using n by (simp add: T1)
  let ?cs = "intersect_sorted_ids (t_key (?T ! ?o)) (t_key (?T ! new_tid))"
  from oko okn have cs: "set ?cs = set (t_key (?T ! ?o)) \<inter> set (t_key (?T ! new_tid))" "distinct ?cs"
    by (simp_all add: table_ok_def intersect_sorted_ids_subset)
  have sub: "set ?cs \<subseteq> set (t_key (s_tables (w_storage w1) ! ?o))
                     \<inter> set (t_key (s_tables (w_storage w1) ! new_tid))"
    unfolding old1 new1 a(3) cs by simp
  from 3 have mv: "for_each (migrate_move ?o ?r new_tid new_row) ?cs w1 = Some w2"
    by (simp add: w1_def ot nt)
  from 4 have ds: "for_each (migrate_destroy ?o ?r new_tid) (t_key (?T ! ?o)) w2 = Some w3"
    by (simp add: ot)
  note L = migrate_loops_effect [OF mv ds ok1 ne o1 n1 cs(2) sub]
  note sh = same_shape_nth [OF L(1)] same_shape_length [OF L(1)]
  from L(1) have f3: "w_entities w3 = w_entities w" "w_registry w3 = w_registry w"
    "w_locations w3 = w_locations w" "w_empty_table w3 = w_empty_table w"
    "w_version w3 = w_version w" "s_key_tables (w_storage w3) = s_key_tables (w_storage w)"
    by (simp_all add: same_shape_def w1_def)
  have len3: "length (s_tables (w_storage w3)) = length ?T"
    using sh(5) by (simp add: T1)
  have keys3: "map t_key (s_tables (w_storage w3)) = map t_key ?T"
  proof (rule nth_equalityI)
    show "length (map t_key (s_tables (w_storage w3))) = length (map t_key ?T)"
      by (simp add: len3)
    fix i assume "i < length (map t_key (s_tables (w_storage w3)))"
    then have i: "i < length ?T"
      by (simp add: len3)
    then have "i < length (s_tables (w_storage w1))"
      by (simp add: T1)
    from sh(2) [OF this] i a(3) show "map t_key (s_tables (w_storage w3)) ! i = map t_key ?T ! i"
      by (cases "i = new_tid") (simp_all add: len3 T1)
  qed
  from 5 have ot3: "old_table3 = s_tables (w_storage w3) ! ?o"
    by (simp add: storage_get_table_Some)
  have o3: "?o < length (s_tables (w_storage w3))"
    using o by (simp add: len3)
  note rm = table_remove_row_swap_nodestroy_pres [OF world_ok_nth [OF L(2) o3] 6 [unfolded ot3, simplified]]
  have e3: "t_entities (s_tables (w_storage w3) ! ?o) = t_entities (?T ! ?o)"
    using sh(3) [OF o1] by (simp add: old1)
  have en3: "t_entities (s_tables (w_storage w3) ! new_tid) = t_entities (?T ! new_tid) @ [e]"
    using sh(3) [OF n1] by (simp add: new1 a(5))
  define w4 where "w4 = set_table w3 ?o old_table'"
  have ok4: "world_ok w4"
    unfolding w4_def using L(2) rm(1) by (rule world_ok_set_table)
  have T4: "s_tables (w_storage w4) = (s_tables (w_storage w3))[?o := old_table']"
    by (simp add: w4_def)
  from 7 have w5: "w5 = (if entity_valid swapped
      then w4\<lparr>w_locations := (w_locations w4)[unat (entity_index swapped) := \<lparr>loc_tid = ?o, loc_row = ?r\<rparr>]\<rparr>
      else w4)"
    and sw: "entity_valid swapped \<longrightarrow> unat (entity_index swapped) < length (w_locations w4)"
    by (simp_all add: fixup_swapped_Some w4_def split: if_splits)
  from 8 have w6: "w6 = w5\<lparr>w_locations := (w_locations w5)[unat (entity_index e) := \<lparr>loc_tid = new_tid, loc_row = new_row\<rparr>]\<rparr>"
    by (simp add: set_location_Some)
  have l4: "w_locations w4 = w_locations w"
    by (simp add: w4_def f3)
  have st: "w_storage w' = w_storage w4"
    by (simp add: 9 w6 w5)
  have T': "s_tables (w_storage w') = (s_tables (w_storage w3))[?o := old_table']"
    by (simp add: st T4)
  have "world_ok w'"
    using ok4 st by (simp add: world_ok_def)
  moreover have "w_entities w' = w_entities w \<and> w_registry w' = w_registry w
    \<and> w_empty_table w' = w_empty_table w \<and> w_version w' = w_version w + 1"
    by (simp add: 9 w6 w5 w4_def f3)
  moreover have "s_key_tables (w_storage w') = s_key_tables (w_storage w)"
    by (simp add: st w4_def f3)
  moreover have "length (s_tables (w_storage w')) = length ?T"
    by (simp add: T' len3)
  moreover have "map t_key (s_tables (w_storage w')) = map t_key ?T"
    unfolding T' map_update rm(3) keys3 [symmetric]
    by (simp add: list_update_same_conv o3)
  moreover have "s_tables (w_storage w') ! tid = ?T ! tid" if "tid \<noteq> ?o" "tid \<noteq> new_tid" for tid
    using that L(3) [OF that] by (simp add: T' T1)
  moreover have "t_entities (s_tables (w_storage w') ! new_tid) = t_entities (?T ! new_tid) @ [e]"
    using ne en3 by (simp add: T')
  moreover have "(swapped, t_entities (s_tables (w_storage w') ! ?o))
        = entities_remove_swap (t_entities (?T ! ?o)) ?r"
    using rm(5) o3 by (simp add: T' e3)
  moreover from 0 have "unat (entity_index e) < length (w_locations w)"
    by (simp add: location_at_Some)
  moreover from sw have "entity_valid swapped \<longrightarrow> unat (entity_index swapped) < length (w_locations w)"
    by (simp add: l4)
  moreover have "w_locations w'
        = (if entity_valid swapped
           then (w_locations w)[unat (entity_index swapped) := \<lparr>loc_tid = ?o, loc_row = ?r\<rparr>]
           else w_locations w)[unat (entity_index e) := \<lparr>loc_tid = new_tid, loc_row = new_row\<rparr>]"
    by (simp add: 9 w6 w5 l4)
  moreover have "table_read (s_tables (w_storage w') ! new_tid) new_row cid
          = table_read (?T ! ?o) ?r cid"
    if "cid \<in> set (t_key (?T ! ?o)) \<inter> set (t_key (?T ! new_tid))" for cid
  proof -
    from that cs(1) have "cid \<in> set ?cs"
      by simp
    from L(4) [OF this] ne show ?thesis
      by (simp add: T' old1)
  qed
  moreover from rm(2) have "?r < length (t_entities (?T ! ?o))"
    by (simp add: e3)
  moreover from a(2) 2(2) have "new_row = length (t_entities (?T ! new_tid)) mod 2 ^ 32"
    by simp
  ultimately show ?thesis
    using v o n by blast
qed


section \<open>Adding a component keeps the components already held\<close>

lemma table_construct_Some:
  assumes "(case v of Some x \<Rightarrow> table_copy_construct_at t row cid x
                    | None \<Rightarrow> table_default_construct_at t row cid) = Some t'"
  shows "\<exists>x. table_write t row cid (Some x) = Some t'"
  using assms
  by (auto simp: table_copy_construct_at_def table_default_construct_at_def bind_eq_Some_conv
      split: option.splits)

lemma add_component_keeps:
  fixes w :: "'v world"
  assumes ok: "world_ok w" and kt: "key_tables_ok (w_storage w)"
    and bound: "length (s_tables (w_storage w)) < 2 ^ 32 - 1"
    and g: "world_get_component w e ty = Some a"
    and add: "world_add_component w e tyC v = Some w'"
  shows "world_get_component w' e ty = Some a"
proof -
  let ?T = "s_tables (w_storage w)"
  from world_get_component_SomeD [OF g] obtain cid and loc :: location and t :: "'v table" where
    al: "world_alive w e"
    and reg: "registry_get_id (w_registry w) ty = Some cid"
    and loc: "location_at w (entity_index e) = Some loc" "location_valid loc"
    and t: "storage_get_table (w_storage w) (loc_tid loc) = Some t"
    and has: "table_has t cid" and row: "loc_row loc < table_size t"
    and rd: "table_read t (loc_row loc) cid = Some (Some a)"
    by blast
  from world_add_component_Some [OF add al] loc t obtain cidC where
    regC: "registry_get_id (w_registry w) tyC = Some cidC"
    and rest: "if table_has t cidC then w' = w
        else \<exists>new_tid w1 new_row w2 new_table new_table'.
            get_table_for_signature w (t_key t @ [cidC]) = Some (new_tid, w1)
          \<and> migrate_entity_to_table w1 e new_tid = Some (new_row, w2)
          \<and> storage_get_table (w_storage w2) new_tid = Some new_table
          \<and> (case v of
                Some x \<Rightarrow> table_copy_construct_at new_table new_row cidC x
              | None \<Rightarrow> table_default_construct_at new_table new_row cidC) = Some new_table'
          \<and> w' = bump_version (set_table w2 new_tid new_table')"
    by auto
  show ?thesis
  proof (cases "table_has t cidC")
    case True
    with rest g show ?thesis
      by simp
  next
    case False
    with rest obtain new_tid w1 new_row w2 new_table new_table' where
      gts: "get_table_for_signature w (t_key t @ [cidC]) = Some (new_tid, w1)"
      and mig: "migrate_entity_to_table w1 e new_tid = Some (new_row, w2)"
      and nt: "storage_get_table (w_storage w2) new_tid = Some new_table"
      and con: "(case v of
                Some x \<Rightarrow> table_copy_construct_at new_table new_row cidC x
              | None \<Rightarrow> table_default_construct_at new_table new_row cidC) = Some new_table'"
      and w': "w' = bump_version (set_table w2 new_tid new_table')"
      by auto
    let ?o = "loc_tid loc" and ?r = "loc_row loc"
    from t have o: "?o < length ?T" and t_def: "t = ?T ! ?o"
      by (simp_all add: storage_get_table_Some)
    note G = get_table_for_signature_effect [OF gts kt bound]
    let ?T1 = "s_tables (w_storage w1)"
    from G have tk: "take (length ?T) ?T1 = ?T"
      by simp
    have old1: "?T1 ! ?o = t"
      using arg_cong [OF tk, of "\<lambda>xs. xs ! ?o"] o by (simp add: t_def)
    from G have key1: "t_key (?T1 ! new_tid) = make_archetype_key (t_key t @ [cidC])"
      by simp
    have cC: "cidC \<in> set (t_key (?T1 ! new_tid))" and cA: "cid \<in> set (t_key (?T1 ! new_tid))"
      using has by (simp_all add: key1 make_archetype_key_canonical table_has_def key_contains_def)
    from False cC have ne: "?o \<noteq> new_tid"
      by (auto simp: old1 table_has_def key_contains_def)
    from has False have neq: "cid \<noteq> cidC"
      by auto
    have ok1: "world_ok w1"
      using ok gts by (rule get_table_for_signature_ok)
    from loc(1) G have loc1: "location_at w1 (entity_index e) = Some loc"
      by (simp add: location_at_Some)
    from migrate_entity_to_table_effect [OF mig ok1 loc1 ne] obtain swapped where
      E: "new_tid < length ?T1" "world_ok w2"
        "w_entities w2 = w_entities w1" "w_registry w2 = w_registry w1"
        "length (s_tables (w_storage w2)) = length ?T1"
        "map t_key (s_tables (w_storage w2)) = map t_key ?T1"
        "t_entities (s_tables (w_storage w2) ! new_tid) = t_entities (?T1 ! new_tid) @ [e]"
        "new_row = length (t_entities (?T1 ! new_tid)) mod 2 ^ 32"
        "unat (entity_index e) < length (w_locations w1)"
        "w_locations w2
        = (if entity_valid swapped
           then (w_locations w1)[unat (entity_index swapped) := \<lparr>loc_tid = ?o, loc_row = ?r\<rparr>]
           else w_locations w1)[unat (entity_index e) := \<lparr>loc_tid = new_tid, loc_row = new_row\<rparr>]"
        "\<forall>cid \<in> set (t_key (?T1 ! ?o)) \<inter> set (t_key (?T1 ! new_tid)).
          table_read (s_tables (w_storage w2) ! new_tid) new_row cid
          = table_read (?T1 ! ?o) ?r cid"
      by blast
    from nt have nt_def: "new_table = s_tables (w_storage w2) ! new_tid"
      by (simp add: storage_get_table_Some)
    from arg_cong [OF E(6), of "\<lambda>xs. xs ! new_tid"] E(1,5)
    have key2: "t_key new_table = t_key (?T1 ! new_tid)"
      by (simp add: nt_def)
    from E(11) has cA have rd2: "table_read new_table new_row cid = Some (Some a)"
      by (simp add: old1 nt_def rd table_has_def key_contains_def)
    from table_construct_Some [OF con] obtain x where
      wr: "table_write new_table new_row cidC (Some x) = Some new_table'"
      by blast
    from E(2) E(1,5) have "table_ok new_table"
      unfolding nt_def by (intro world_ok_nth) simp_all
    then have sd: "sorted (t_key new_table)" "distinct (t_key new_table)"
      by (simp_all add: table_ok_def)
    have rd': "table_read new_table' new_row cid = Some (Some a)"
      unfolding table_read_write_other [OF wr sd _ _ neq, unfolded key2, OF cC cA] by (rule rd2)
    note f = table_write_fields [OF wr]
    show ?thesis
    proof (rule world_get_component_SomeI)
      show "world_alive w' e"
        using al G E(3) by (simp add: w' world_alive_def)
      show "registry_get_id (w_registry w') ty = Some cid"
        using reg G E(4) by (simp add: w')
      show "location_at w' (entity_index e) = Some \<lparr>loc_tid = new_tid, loc_row = new_row\<rparr>"
        using E(9,10) by (simp add: w' location_at_Some)
      show "location_valid \<lparr>loc_tid = new_tid, loc_row = new_row\<rparr>"
        using G by (simp add: location_valid_def INVALID_TABLE_def)
      show "storage_get_table (w_storage w') (loc_tid \<lparr>loc_tid = new_tid, loc_row = new_row\<rparr>)
          = Some new_table'"
        using E(1,5) by (simp add: w' storage_get_table_Some)
      show "table_has new_table' cid"
        using cA by (simp add: table_has_def key_contains_def f key2)
      show "loc_row \<lparr>loc_tid = new_tid, loc_row = new_row\<rparr> < table_size new_table'"
        using E(7,8) by (simp add: table_size_def f nt_def less_Suc_eq_le)
      show "table_read new_table' (loc_row \<lparr>loc_tid = new_tid, loc_row = new_row\<rparr>) cid
          = Some (Some a)"
        using rd' by simp
    qed
  qed
qed


section \<open>The hashed lookup is always built\<close>

lemma smear_step:
  fixes x u :: "32 word"
  assumes "\<And>n. bit x n \<longleftrightarrow> n < 32 \<and> (\<exists>j<a. bit u (n + j))"
  shows "bit (x OR drop_bit a x) n \<longleftrightarrow> n < 32 \<and> (\<exists>j<2 * a. bit u (n + j))"
proof -
  have "bit (x OR drop_bit a x) n \<longleftrightarrow> bit x n \<or> bit x (n + a)"
    by (simp add: bit_simps add.commute)
  also have "\<dots> \<longleftrightarrow> (n < 32 \<and> (\<exists>j<a. bit u (n + j))) \<or> (n + a < 32 \<and> (\<exists>j<a. bit u (n + a + j)))"
    unfolding assms ..
  also have "\<dots> \<longleftrightarrow> n < 32 \<and> (\<exists>j<2 * a. bit u (n + j))"
  proof (intro iffI; elim disjE conjE exE)
    fix j assume "n < 32" "j < a" "bit u (n + j)"
    then show "n < 32 \<and> (\<exists>j<2 * a. bit u (n + j))"
      by (intro conjI exI [of _ j]) simp_all
  next
    fix j assume "n + a < 32" "j < a" "bit u (n + a + j)"
    then show "n < 32 \<and> (\<exists>j<2 * a. bit u (n + j))"
      by (intro conjI exI [of _ "a + j"]) (simp_all add: add.assoc)
  next
    fix j assume n: "n < 32" and j: "j < 2 * a" and b: "bit u (n + j)"
    show "(n < 32 \<and> (\<exists>j<a. bit u (n + j))) \<or> (n + a < 32 \<and> (\<exists>j<a. bit u (n + a + j)))"
    proof (cases "j < a")
      case True
      with n b show ?thesis by blast
    next
      case False
      from b have "n + j < 32"
        by (auto dest: bit_imp_le_length)
      with False have "n + a < 32" by simp
      moreover from False j b have "j - a < a" "bit u (n + a + (j - a))"
        by simp_all
      ultimately show ?thesis by blast
    qed
  qed
  finally show ?thesis .
qed

lemma smear_bits:
  fixes u :: "32 word"
  defines "s \<equiv> (let v = u;
               v = v OR drop_bit 1 v;
               v = v OR drop_bit 2 v;
               v = v OR drop_bit 4 v;
               v = v OR drop_bit 8 v;
               v = v OR drop_bit 16 v
           in v)"
  shows "bit s n \<longleftrightarrow> n < 32 \<and> (\<exists>j<32. bit u (n + j))"
proof -
  let ?a = "u OR drop_bit 1 u"
  let ?b = "?a OR drop_bit 2 ?a"
  let ?c = "?b OR drop_bit 4 ?b"
  let ?d = "?c OR drop_bit 8 ?c"
  let ?e = "?d OR drop_bit 16 ?d"
  have 0: "bit u n \<longleftrightarrow> n < 32 \<and> (\<exists>j<1. bit u (n + j))" for n
    by (auto dest: bit_imp_le_length)
  have 1: "bit ?a n \<longleftrightarrow> n < 32 \<and> (\<exists>j<2. bit u (n + j))" for n
    using smear_step [of u 1 u n, OF 0] by simp
  have 2: "bit ?b n \<longleftrightarrow> n < 32 \<and> (\<exists>j<4. bit u (n + j))" for n
    using smear_step [of ?a 2 u n, OF 1] by simp
  have 3: "bit ?c n \<longleftrightarrow> n < 32 \<and> (\<exists>j<8. bit u (n + j))" for n
    using smear_step [of ?b 4 u n, OF 2] by simp
  have 4: "bit ?d n \<longleftrightarrow> n < 32 \<and> (\<exists>j<16. bit u (n + j))" for n
    using smear_step [of ?c 8 u n, OF 3] by simp
  have 5: "bit ?e n \<longleftrightarrow> n < 32 \<and> (\<exists>j<32. bit u (n + j))" for n
    using smear_step [of ?d 16 u n, OF 4] by simp
  show ?thesis
    unfolding s_def Let_def by (rule 5)
qed

lemma word_bits_below:
  fixes u :: "32 word"
  assumes "u < 2 ^ k" "bit u j"
  shows "j < k"
proof -
  from assms(1) have "u AND mask k = u"
    by (rule less_mask_eq)
  with assms(2) have "bit (u AND mask k) j"
    by simp
  then show ?thesis
    by (simp add: bit_simps)
qed

lemma word_below_bits:
  fixes u :: "32 word"
  assumes "\<And>j. bit u j \<Longrightarrow> j < k" "k < 32"
  shows "u < 2 ^ k"
proof -
  have "u AND mask k = u"
    by (rule bit_word_eqI) (auto simp: bit_simps dest: assms(1))
  with assms(2) show ?thesis
    by (simp add: mask_eq_iff_w2p word_size)
qed

lemma unat_2p32: "k < 32 \<Longrightarrow> unat (2 ^ k :: 32 word) = 2 ^ k"
proof -
  assume k: "k < 32"
  have "(2 ^ k :: 32 word) = word_of_nat (2 ^ k)"
    by simp
  also have "unat \<dots> = 2 ^ k mod 2 ^ 32"
    by (simp only: unat_of_nat) simp
  also have "\<dots> = (2 :: nat) ^ k"
  proof (rule mod_less)
    from k show "(2 :: nat) ^ k < 2 ^ 32"
      by (rule power_strict_increasing) simp
  qed
  finally show ?thesis .
qed

lemma next_pow2_u32_pow2:
  assumes "1 < v" "v \<le> 2 ^ 31"
  shows "\<exists>k. 0 < k \<and> k \<le> 31 \<and> next_pow2_u32 v = 2 ^ k \<and> unat v \<le> 2 ^ k"
proof -
  define u where "u = v - 1"
  from assms(1) have v1: "v \<noteq> 1" "1 \<le> v"
    by auto
  then have u0: "u \<noteq> 0"
    by (simp add: u_def)
  from v1(2) have uu: "unat u = unat v - 1"
    unfolding u_def by (simp add: unat_sub)
  with assms have u31: "u < 2 ^ 31"
    by (simp add: word_less_nat_alt word_le_nat_alt)
  note u = u0 u31
  define A where "A = {j. bit u j}"
  have fin: "finite A"
    unfolding A_def by (rule finite_subset [of _ "{..<32}"]) (auto dest: bit_imp_le_length)
  from u(1) have ne: "A \<noteq> {}"
    unfolding A_def by (auto simp: bit_eq_iff)
  define k where "k = Suc (Max A)"
  from Max_in [OF fin ne] have mx: "bit u (Max A)"
    by (simp add: A_def)
  from word_bits_below [OF u(2) mx] have k31: "k \<le> 31" and k0: "0 < k"
    by (simp_all add: k_def)
  have below: "j < k" if "bit u j" for j
  proof -
    from that have "j \<in> A"
      by (simp add: A_def)
    from Max_ge [OF fin this] show ?thesis
      by (simp add: k_def)
  qed
  let ?s = "(let v = u;
               v = v OR drop_bit 1 v;
               v = v OR drop_bit 2 v;
               v = v OR drop_bit 4 v;
               v = v OR drop_bit 8 v;
               v = v OR drop_bit 16 v
           in v)"
  have s: "?s = mask k"
  proof (rule bit_word_eqI)
    fix n assume n: "n < LENGTH(32)"
    have "bit ?s n \<longleftrightarrow> n < k"
    proof
      assume "bit ?s n"
      then obtain j where "bit u (n + j)"
        unfolding smear_bits by blast
      from below [OF this] show "n < k"
        by simp
    next
      assume "n < k"
      then have "Max A - n < 32" "bit u (n + (Max A - n))"
        using k31 mx by (simp_all add: k_def)
      with n show "bit ?s n"
        unfolding smear_bits by auto
    qed
    with n show "bit ?s n \<longleftrightarrow> bit (mask k :: 32 word) n"
      by (simp add: bit_simps)
  qed
  from assms(1) have "\<not> v \<le> 1"
    by (simp add: not_le)
  then have "next_pow2_u32 v = ?s + 1"
    by (simp add: next_pow2_u32_def Let_def u_def)
  then have np: "next_pow2_u32 v = 2 ^ k"
    unfolding s by (simp add: inc_mask_eq_exp)
  from word_below_bits [of u k] below k31 have "u < 2 ^ k"
    by simp
  then have "unat u < 2 ^ k"
    using k31 by (simp add: word_less_nat_alt unat_2p32)
  moreover from assms(1) uu have "unat v = Suc (unat u)"
    by (simp add: word_less_nat_alt)
  ultimately have "unat v \<le> 2 ^ k"
    by simp
  with k0 k31 np show ?thesis
    by blast
qed

lemma unat_and_mask32: "unat (w AND mask k) = unat w mod 2 ^ k" for w :: "32 word"
proof -
  have "unat (w AND mask k) = unat (take_bit k w)"
    by (simp only: take_bit_eq_mask)
  also have "\<dots> = take_bit k (unat w)"
    by (rule unsigned_take_bit_eq)
  also have "\<dots> = unat w mod 2 ^ k"
    by (rule take_bit_eq_mod)
  finally show ?thesis .
qed

lemma unat_next_slot:
  fixes slot :: "32 word"
  assumes "k \<le> 32"
  shows "unat ((slot + 1) AND mask k) = (unat slot + 1) mod 2 ^ k"
proof -
  from assms have d: "(2 :: nat) ^ k dvd 2 ^ 32"
    by (rule le_imp_power_dvd)
  have "unat (slot + 1) = (unat slot + 1) mod 2 ^ 32"
    by (simp add: unat_word_ariths)
  then have "unat (slot + 1) mod 2 ^ k = (unat slot + 1) mod 2 ^ k"
    by (simp only: mod_mod_cancel [OF d])
  then show ?thesis
    unfolding unat_and_mask32 .
qed

lemma probe_free_finds:
  assumes "length keys = 2 ^ k" "k \<le> 32" "unat slot < 2 ^ k"
    "\<exists>j<fuel. keys ! ((unat slot + j) mod 2 ^ k) = INVALID_ID"
  shows "\<exists>s. probe_free keys (mask k) slot fuel = Some s \<and> unat s < length keys
           \<and> keys ! unat s = INVALID_ID"
  using assms(3,4)
proof (induction fuel arbitrary: slot)
  case 0
  then show ?case by simp
next
  case (Suc fuel)
  show ?case
  proof (cases "keys ! unat slot = INVALID_ID")
    case True
    with Suc.prems(1) assms(1) show ?thesis
      by simp
  next
    case False
    from Suc.prems(2) obtain j where j: "j < Suc fuel"
      and f: "keys ! ((unat slot + j) mod 2 ^ k) = INVALID_ID"
      by blast
    from False f Suc.prems(1) have "j \<noteq> 0"
      by (cases j) auto
    then obtain j' where j': "j = Suc j'"
      by (cases j) auto
    let ?n = "(slot + 1) AND mask k"
    have n: "unat ?n = (unat slot + 1) mod 2 ^ k"
      by (rule unat_next_slot [OF assms(2)])
    then have r: "unat ?n < 2 ^ k"
      by simp
    have "(unat ?n + j') mod 2 ^ k = (unat slot + j) mod 2 ^ k"
      unfolding n j' by (simp add: mod_add_left_eq)
    with f j j' have "\<exists>j<fuel. keys ! ((unat ?n + j) mod 2 ^ k) = INVALID_ID"
      by auto
    from Suc.IH [OF r this] False Suc.prems(1) assms(1) show ?thesis
      by simp
  qed
qed

lemma probe_free_total:
  assumes "length keys = 2 ^ k" "k \<le> 32" "unat slot < 2 ^ k"
    "length (filter (\<lambda>x. x \<noteq> INVALID_ID) keys) < length keys"
  shows "\<exists>s. probe_free keys (mask k) slot (length keys) = Some s \<and> unat s < length keys"
proof -
  have "\<not> (\<forall>x\<in>set keys. x \<noteq> INVALID_ID)"
  proof
    assume "\<forall>x\<in>set keys. x \<noteq> INVALID_ID"
    then have "filter (\<lambda>x. x \<noteq> INVALID_ID) keys = keys"
      by (rule filter_True)
    with assms(4) show False
      by simp
  qed
  then obtain f where f: "f < 2 ^ k" "keys ! f = INVALID_ID"
    using assms(1) by (auto simp: in_set_conv_nth)
  let ?m = "(2 :: nat) ^ k"
  let ?j = "(f + ?m - unat slot) mod ?m"
  have "(unat slot + ?j) mod ?m = (unat slot + (f + ?m - unat slot)) mod ?m"
    by (simp add: mod_add_right_eq)
  also from assms(3) have "\<dots> = (f + ?m) mod ?m"
    by simp
  also from f(1) have "\<dots> = f"
    by simp
  finally have "keys ! ((unat slot + ?j) mod ?m) = INVALID_ID"
    using f(2) by simp
  moreover have "?j < length keys"
    by (simp add: assms(1))
  ultimately have "\<exists>j<length keys. keys ! ((unat slot + j) mod ?m) = INVALID_ID"
    by blast
  from probe_free_finds [OF assms(1,2,3) this] show ?thesis
    by blast
qed

lemma length_filter_update:
  "length (filter P (xs[i := x])) \<le> Suc (length (filter P xs))"
proof (induction xs arbitrary: i)
  case Nil
  then show ?case by simp
next
  case (Cons y ys)
  show ?case
  proof (cases i)
    case 0
    then show ?thesis by simp
  next
    case (Suc j)
    with Cons.IH [of j] show ?thesis by simp
  qed
qed

lemma build_lookup_loop_total:
  assumes "length keys = 2 ^ k" "k \<le> 32"
    "length (filter (\<lambda>x. x \<noteq> INVALID_ID) keys) + length cids < 2 ^ k + (if cids = [] then 1 else 0)"
  shows "\<exists>keys' vals'. build_lookup_loop cids (mask k) i (keys, vals) = Some (keys', vals')"
  using assms(1,3)
proof (induction cids arbitrary: keys vals i)
  case Nil
  then show ?case by simp
next
  case (Cons cid cids)
  let ?h = "hash_cid (word_of_nat cid) AND mask k"
  have "unat ?h < 2 ^ k"
    by (simp add: unat_and_mask32)
  moreover from Cons.prems have "length (filter (\<lambda>x. x \<noteq> INVALID_ID) keys) < length keys"
    by simp
  ultimately obtain s where s: "probe_free keys (mask k) ?h (length keys) = Some s"
    using probe_free_total [OF Cons.prems(1) assms(2)] by blast
  have l: "length (keys[unat s := cid]) = 2 ^ k"
    using Cons.prems(1) by simp
  from length_filter_update [of "\<lambda>x. x \<noteq> INVALID_ID" keys "unat s" cid] Cons.prems(2)
  have "length (filter (\<lambda>x. x \<noteq> INVALID_ID) (keys[unat s := cid])) + length cids
      < 2 ^ k + (if cids = [] then 1 else 0)"
    by (simp split: if_splits)
  from Cons.IH [OF l this] s show ?case
    by simp
qed

lemma table_build_lookup_total:
  assumes "length (t_key t) \<le> 2 ^ 30"
  shows "\<exists>t'. table_build_lookup t = Some t'"
proof (cases "(word_of_nat (length (t_key t)) :: 32 word) = 0")
  case True
  then show ?thesis
    by (simp add: table_build_lookup_def)
next
  case False
  let ?n = "word_of_nat (length (t_key t)) :: 32 word"
  from assms have un: "unat ?n = length (t_key t)"
    by (simp add: unat_of_nat)
  with False have pos: "0 < length (t_key t)"
    by (cases "length (t_key t)") auto
  from un assms have u2: "unat (?n * 2) = 2 * length (t_key t)"
    by (simp add: unat_word_ariths)
  from pos have "1 < 2 * length (t_key t)"
    by (cases "t_key t") simp_all
  with u2 assms have "1 < ?n * 2" "?n * 2 \<le> 2 ^ 31"
    by (simp_all add: word_less_nat_alt word_le_nat_alt)
  from next_pow2_u32_pow2 [OF this] obtain k where k: "0 < k" "k \<le> 31"
    and np: "next_pow2_u32 (?n * 2) = 2 ^ k" and ge: "unat (?n * 2) \<le> 2 ^ k"
    by blast
  have m: "(2 ^ k :: 32 word) - 1 = mask k"
    by (simp add: mask_eq_decr_exp)
  from k have uc: "unat (2 ^ k :: 32 word) = 2 ^ k"
    by (simp add: unat_2p32)
  from ge u2 have "2 * length (t_key t) \<le> 2 ^ k"
    by simp
  with pos have "length (t_key t) < 2 ^ k"
    by linarith
  then have "length (filter (\<lambda>x. x \<noteq> INVALID_ID) (replicate (2 ^ k) INVALID_ID)) + length (t_key t)
      < 2 ^ k + (if t_key t = [] then 1 else 0)"
    by simp
  from build_lookup_loop_total [of "replicate (2 ^ k) INVALID_ID" k "t_key t" 0 "replicate (2 ^ k) 0", OF _ _ this] k
  obtain keys' vals' where
    "build_lookup_loop (t_key t) (mask k) 0 (replicate (2 ^ k) INVALID_ID, replicate (2 ^ k) 0)
      = Some (keys', vals')"
    by auto
  with False show ?thesis
    by (simp add: table_build_lookup_def Let_def np m uc un)
qed


section \<open>Adding a component always completes\<close>

lemma table_cell_in_range:
  assumes "table_ok t" "cid \<in> set (t_key t)" "row < length (t_entities t)"
  shows "\<exists>cells. lower_bound (t_key t) cid < length (t_key t)
           \<and> lower_bound (t_key t) cid < length (t_columns t)
           \<and> c_data (t_columns t ! lower_bound (t_key t) cid) = Some cells \<and> row < length cells"
proof -
  let ?i = "lower_bound (t_key t) cid"
  from assms(1,2) have i: "?i < length (t_key t)"
    using lower_bound_member [of "t_key t" cid] by (simp add: table_ok_def)
  with assms(1) have ic: "?i < length (t_columns t)"
    by (simp add: table_ok_def)
  with assms(1) have "c_size (t_columns t ! ?i) = length (t_entities t)" "column_ok (t_columns t ! ?i)"
    by (simp_all add: table_ok_def list_all_length)
  with assms(3) obtain cells where "c_data (t_columns t ! ?i) = Some cells" "row < length cells"
    by (cases "c_data (t_columns t ! ?i)") (auto simp: column_ok_def)
  with i ic show ?thesis
    by blast
qed

lemma table_read_total:
  assumes "table_ok t" "cid \<in> set (t_key t)" "row < length (t_entities t)"
  shows "\<exists>x. table_read t row cid = Some x"
  using table_cell_in_range [OF assms] by (auto simp: table_read_Some)

lemma table_write_total:
  assumes "table_ok t" "cid \<in> set (t_key t)" "row < length (t_entities t)"
  shows "\<exists>t'. table_write t row cid x = Some t'"
  using table_cell_in_range [OF assms] by (auto simp: table_write_Some)

lemma for_each_total:
  assumes "P s"
    "\<And>s c. P s \<Longrightarrow> c \<in> set cs \<Longrightarrow> \<exists>s'. f s c = Some s' \<and> P s'"
  shows "\<exists>s'. for_each f cs s = Some s' \<and> P s'"
  using assms
proof (induction cs arbitrary: s)
  case Nil
  then show ?case by simp
next
  case (Cons c cs)
  from Cons.prems(2) [OF Cons.prems(1), of c] obtain s1 where s1: "f s c = Some s1" "P s1"
    by auto
  have "\<exists>s'. for_each f cs s1 = Some s' \<and> P s'"
  proof (rule Cons.IH [OF s1(2)])
    fix s c' assume "P s" "c' \<in> set cs"
    then show "\<exists>s'. f s c' = Some s' \<and> P s'"
      using Cons.prems(2) [of s c'] by simp
  qed
  with s1(1) show ?case
    by simp
qed

lemma distinct_bounded_length:
  fixes xs :: "nat list"
  assumes "distinct xs" "\<forall>x\<in>set xs. x < n"
  shows "length xs \<le> n"
proof -
  from assms(1) have "length xs = card (set xs)"
    by (simp add: distinct_card)
  also from assms(2) have "\<dots> \<le> card {..<n}"
    by (intro card_mono) auto
  finally show ?thesis
    by simp
qed

lemma map_all_registry_get_info_total:
  assumes "\<forall>cid\<in>set key. cid < length (type_infos reg)"
  shows "\<exists>infos. map_all (registry_get_info reg) key = Some infos"
  using assms by (intro map_all_total) (simp add: list_all_iff registry_get_info_def)

lemma storage_create_table_total:
  assumes "\<forall>cid\<in>set key. cid < length (type_infos reg)" "distinct key"
    "length (type_infos reg) \<le> 2 ^ 30"
  shows "\<exists>tid s'. storage_create_table reg s key = Some (tid, s')"
proof -
  from map_all_registry_get_info_total [OF assms(1)] obtain infos where
    i: "map_all (registry_get_info reg) key = Some infos"
    by blast
  from distinct_bounded_length [OF assms(2,1)] assms(3) have "length key \<le> 2 ^ 30"
    by simp
  then obtain t' where "table_build_lookup
          \<lparr>t_id = length (s_tables s) mod 2 ^ 32, t_key = key, t_entities = [],
           t_columns = map column_new infos, t_lookup_keys = [], t_lookup_vals = [],
           t_lookup_mask = 0\<rparr> = Some t'"
    using table_build_lookup_total
      [of "\<lparr>t_id = length (s_tables s) mod 2 ^ 32, t_key = key, t_entities = [],
           t_columns = map column_new infos, t_lookup_keys = [], t_lookup_vals = [],
           t_lookup_mask = 0\<rparr>"]
    by auto
  with i show ?thesis
    by (simp add: storage_create_table_def table_finalize_schema_def Let_def)
qed

lemma get_table_for_signature_total:
  fixes w :: "'v world"
  assumes "\<forall>cid\<in>set ids. cid < length (type_infos (w_registry w))"
    "length (type_infos (w_registry w)) \<le> 2 ^ 30"
  shows "\<exists>tid w1. get_table_for_signature w ids = Some (tid, w1)"
proof (cases "map_of (s_key_tables (w_storage w)) (make_archetype_key ids)")
  case (Some tid)
  then show ?thesis
    by (simp add: get_table_for_signature_def storage_get_or_create_table_def)
next
  case None
  from assms(1) have "\<forall>cid\<in>set (make_archetype_key ids). cid < length (type_infos (w_registry w))"
    by (simp add: make_archetype_key_canonical)
  from storage_create_table_total [OF this make_archetype_key_canonical(2) assms(2)]
  obtain tid s' where
    "storage_create_table (w_registry w) (w_storage w) (make_archetype_key ids) = Some (tid, s')"
    by blast
  with None show ?thesis
    by (simp add: get_table_for_signature_def storage_get_or_create_table_def)
qed

lemma migrate_move_total:
  fixes s :: "'v world"
  assumes ok: "world_ok s"
    and o: "old_tid < length (s_tables (w_storage s))"
    and n: "new_tid < length (s_tables (w_storage s))"
    and ne: "old_tid \<noteq> new_tid"
    and c: "c \<in> set (t_key (s_tables (w_storage s) ! old_tid))"
      "c \<in> set (t_key (s_tables (w_storage s) ! new_tid))"
    and r: "old_row < length (t_entities (s_tables (w_storage s) ! old_tid))"
      "new_row < length (t_entities (s_tables (w_storage s) ! new_tid))"
  shows "\<exists>s'. migrate_move old_tid old_row new_tid new_row s c = Some s'"
proof -
  let ?T = "s_tables (w_storage s)"
  note oko = world_ok_nth [OF ok o] and okn = world_ok_nth [OF ok n]
  from table_read_total [OF oko c(1) r(1)] obtain x where
    x: "table_read (?T ! old_tid) old_row c = Some x"
    by blast
  from table_write_total [OF okn c(2) r(2)] obtain nt where
    nt: "table_write (?T ! new_tid) new_row c x = Some nt"
    by blast
  from table_write_total [OF oko c(1) r(1)] obtain ot where
    ot: "table_write (?T ! old_tid) old_row c None = Some ot"
    by blast
  from o n ne x nt ot show ?thesis
    by (simp add: migrate_move_def storage_get_table_def)
qed

lemma migrate_destroy_total:
  fixes s :: "'v world"
  assumes ok: "world_ok s"
    and o: "old_tid < length (s_tables (w_storage s))"
    and n: "new_tid < length (s_tables (w_storage s))"
    and c: "c \<in> set (t_key (s_tables (w_storage s) ! old_tid))"
    and r: "old_row < length (t_entities (s_tables (w_storage s) ! old_tid))"
  shows "\<exists>s'. migrate_destroy old_tid old_row new_tid s c = Some s'"
proof -
  from table_write_total [OF world_ok_nth [OF ok o] c r] obtain ot where
    "table_write (s_tables (w_storage s) ! old_tid) old_row c None = Some ot"
    by blast
  with o n show ?thesis
    by (simp add: migrate_destroy_def storage_get_table_def)
qed

lemma migrate_loops_total:
  fixes w1 :: "'v world"
  assumes ok: "world_ok w1"
    and o: "old_tid < length (s_tables (w_storage w1))"
    and n: "new_tid < length (s_tables (w_storage w1))"
    and ne: "old_tid \<noteq> new_tid"
    and cs: "set cs \<subseteq> set (t_key (s_tables (w_storage w1) ! old_tid))
                     \<inter> set (t_key (s_tables (w_storage w1) ! new_tid))"
    and ks: "set ks \<subseteq> set (t_key (s_tables (w_storage w1) ! old_tid))"
    and r: "old_row < length (t_entities (s_tables (w_storage w1) ! old_tid))"
      "new_row < length (t_entities (s_tables (w_storage w1) ! new_tid))"
  shows "\<exists>w2 w3. for_each (migrate_move old_tid old_row new_tid new_row) cs w1 = Some w2
           \<and> for_each (migrate_destroy old_tid old_row new_tid) ks w2 = Some w3"
proof -
  let ?P = "\<lambda>s. world_ok s \<and> same_shape w1 s"
  have p1: "?P w1"
    using ok by (simp add: same_shape_refl)
  have "\<exists>w2. for_each (migrate_move old_tid old_row new_tid new_row) cs w1 = Some w2 \<and> ?P w2"
  proof (rule for_each_total [where P = ?P, OF p1])
    fix s c
    assume p: "world_ok s \<and> same_shape w1 s" and c: "c \<in> set cs"
    then have oks: "world_ok s" and sh: "same_shape w1 s"
      by simp_all
    note so = same_shape_nth [OF sh o] and sn = same_shape_nth [OF sh n]
    from c cs have "c \<in> set (t_key (s_tables (w_storage s) ! old_tid))"
      "c \<in> set (t_key (s_tables (w_storage s) ! new_tid))"
      by (auto simp: so(2) sn(2))
    from migrate_move_total [OF oks so(1) sn(1) ne this] r obtain s' where
      s': "migrate_move old_tid old_row new_tid new_row s c = Some s'"
      by (auto simp: so(3) sn(3))
    from migrate_move_ok [OF oks s'] same_shape_trans [OF sh migrate_move_shape [OF s']] s'
    show "\<exists>s'. migrate_move old_tid old_row new_tid new_row s c = Some s'
        \<and> world_ok s' \<and> same_shape w1 s'"
      by blast
  qed
  then obtain w2 where w2: "for_each (migrate_move old_tid old_row new_tid new_row) cs w1 = Some w2"
    and p2: "?P w2"
    by blast
  have "\<exists>w3. for_each (migrate_destroy old_tid old_row new_tid) ks w2 = Some w3 \<and> ?P w3"
  proof (rule for_each_total [where P = ?P, OF p2])
    fix s c
    assume p: "world_ok s \<and> same_shape w1 s" and c: "c \<in> set ks"
    then have oks: "world_ok s" and sh: "same_shape w1 s"
      by simp_all
    note so = same_shape_nth [OF sh o] and sn = same_shape_nth [OF sh n]
    from c ks have "c \<in> set (t_key (s_tables (w_storage s) ! old_tid))"
      by (auto simp: so(2))
    from migrate_destroy_total [OF oks so(1) sn(1) this] r obtain s' where
      s': "migrate_destroy old_tid old_row new_tid s c = Some s'"
      by (auto simp: so(3))
    from migrate_destroy_ok [OF oks s'] same_shape_trans [OF sh migrate_destroy_shape [OF s']] s'
    show "\<exists>s'. migrate_destroy old_tid old_row new_tid s c = Some s'
        \<and> world_ok s' \<and> same_shape w1 s'"
      by blast
  qed
  with w2 show ?thesis
    by blast
qed

lemma fixup_swapped_total:
  assumes "entity_valid swapped \<longrightarrow> unat (entity_index swapped) < length (w_locations w)"
  shows "\<exists>w'. fixup_swapped w swapped l = Some w' \<and> length (w_locations w') = length (w_locations w)"
  using assms by (auto simp: fixup_swapped_def set_location_def)

lemma entities_remove_swap_swapped:
  assumes "row < length es"
  shows "entity_valid (fst (entities_remove_swap es row)) \<longrightarrow> fst (entities_remove_swap es row) \<in> set es"
  using assms
  by (auto simp: entities_remove_swap_def Let_def entity_valid_def)

lemma migrate_entity_to_table_total:
  fixes w :: "'v world"
  assumes ok: "world_ok w"
    and loc: "location_at w (entity_index e) = Some loc" and v: "location_valid loc"
    and o: "loc_tid loc < length (s_tables (w_storage w))"
    and n: "new_tid < length (s_tables (w_storage w))"
    and ne: "loc_tid loc \<noteq> new_tid"
    and row: "loc_row loc < length (t_entities (s_tables (w_storage w) ! loc_tid loc))"
    and located: "\<forall>e'\<in>set (t_entities (s_tables (w_storage w) ! loc_tid loc)).
        unat (entity_index e') < length (w_locations w)"
  shows "\<exists>r w'. migrate_entity_to_table w e new_tid = Some (r, w')"
proof -
  let ?T = "s_tables (w_storage w)"
  let ?o = "loc_tid loc" and ?r = "loc_row loc"
  note oko = world_ok_nth [OF ok o] and okn = world_ok_nth [OF ok n]
  from table_add_row_uninitialized_ok [OF okn, of e] obtain nt where
    a: "table_add_row_uninitialized (?T ! new_tid) e = Some (length (t_entities (?T ! new_tid)), nt)"
    and nt: "table_ok nt" "t_key nt = t_key (?T ! new_tid)"
      "t_entities nt = t_entities (?T ! new_tid) @ [e]"
    by blast
  let ?nr = "length (t_entities (?T ! new_tid)) mod 2 ^ 32"
  define w1 where "w1 = set_table w new_tid nt"
  have ok1: "world_ok w1"
    unfolding w1_def using ok nt(1) by (rule world_ok_set_table)
  have T1: "s_tables (w_storage w1) = ?T[new_tid := nt]"
    by (simp add: w1_def)
  have o1: "?o < length (s_tables (w_storage w1))" and n1: "new_tid < length (s_tables (w_storage w1))"
    using o n by (simp_all add: T1)
  have old1: "s_tables (w_storage w1) ! ?o = ?T ! ?o"
    using ne by (simp add: T1)
  have new1: "s_tables (w_storage w1) ! new_tid = nt"
    using n by (simp add: T1)
  let ?cs = "intersect_sorted_ids (t_key (?T ! ?o)) (t_key (?T ! new_tid))"
  from oko okn have cs: "set ?cs = set (t_key (?T ! ?o)) \<inter> set (t_key (?T ! new_tid))" "distinct ?cs"
    by (simp_all add: table_ok_def intersect_sorted_ids_subset)
  have sub: "set ?cs \<subseteq> set (t_key (s_tables (w_storage w1) ! ?o))
                     \<inter> set (t_key (s_tables (w_storage w1) ! new_tid))"
    unfolding old1 new1 nt(2) cs by simp
  have ks: "set (t_key (?T ! ?o)) \<subseteq> set (t_key (s_tables (w_storage w1) ! ?o))"
    unfolding old1 by simp
  have r1: "?r < length (t_entities (s_tables (w_storage w1) ! ?o))"
    unfolding old1 by (rule row)
  have "?nr \<le> length (t_entities (?T ! new_tid))"
    by simp
  then have r2: "?nr < length (t_entities (s_tables (w_storage w1) ! new_tid))"
    unfolding new1 nt(3) by simp
  from migrate_loops_total [OF ok1 o1 n1 ne sub ks r1 r2] obtain w2 w3 where
    mv: "for_each (migrate_move ?o ?r new_tid ?nr) ?cs w1 = Some w2"
    and ds: "for_each (migrate_destroy ?o ?r new_tid) (t_key (?T ! ?o)) w2 = Some w3"
    by blast
  note L = migrate_loops_effect [OF mv ds ok1 ne o1 n1 cs(2) sub]
  note sh = same_shape_nth [OF L(1) o1]
  have e3: "t_entities (s_tables (w_storage w3) ! ?o) = t_entities (?T ! ?o)"
    using sh(3) by (simp add: old1)
  from L(1) have l3: "w_locations w3 = w_locations w"
    by (simp add: same_shape_def w1_def)
  from row have r3: "?r < length (t_entities (s_tables (w_storage w3) ! ?o))"
    by (simp add: e3)
  from table_remove_row_swap_nodestroy_ok [OF world_ok_nth [OF L(2) sh(1)] r3] obtain ot where
    rm: "table_remove_row_swap_nodestroy (s_tables (w_storage w3) ! ?o) ?r
        = Some (fst (entities_remove_swap (t_entities (?T ! ?o)) ?r), ot)"
    by (auto simp: e3)
  let ?sw = "fst (entities_remove_swap (t_entities (?T ! ?o)) ?r)"
  from entities_remove_swap_swapped [OF row] located
  have "entity_valid ?sw \<longrightarrow> unat (entity_index ?sw) < length (w_locations (set_table w3 ?o ot))"
    by (auto simp: l3)
  from fixup_swapped_total [OF this, of "\<lparr>loc_tid = ?o, loc_row = ?r\<rparr>"] obtain w5 where
    w5: "fixup_swapped (set_table w3 ?o ot) ?sw \<lparr>loc_tid = ?o, loc_row = ?r\<rparr> = Some w5"
    and l5: "length (w_locations w5) = length (w_locations w)"
    by (auto simp: l3)
  from loc have "unat (entity_index e) < length (w_locations w5)"
    by (simp add: location_at_Some l5)
  then obtain w6 where
    w6: "set_location w5 (entity_index e) \<lparr>loc_tid = new_tid, loc_row = ?nr\<rparr> = Some w6"
    by (simp add: set_location_def)
  from loc v o n a mv ds sh(1) rm w5 w6 show ?thesis
    unfolding migrate_entity_to_table_def Let_def
    by (simp add: storage_get_table_def w1_def)
qed

lemma table_construct_total:
  assumes "table_ok t" "cid \<in> set (t_key t)" "row < length (t_entities t)"
  shows "\<exists>t'. (case v of Some x \<Rightarrow> table_copy_construct_at t row cid x
                        | None \<Rightarrow> table_default_construct_at t row cid) = Some t'"
proof (cases v)
  case None
  from table_cell_in_range [OF assms] have "table_get_column t cid = Some (lower_bound (t_key t) cid)"
    by (auto simp: table_get_column_def table_column_index_def)
  with table_write_total [OF assms] None show ?thesis
    by (simp add: table_default_construct_at_def)
next
  case (Some x)
  with table_write_total [OF assms] show ?thesis
    by (simp add: table_copy_construct_at_def)
qed

lemma registry_ok_get_id:
  assumes "registry_ok reg" "registry_get_id reg ty = Some cid"
  shows "cid < length (type_infos reg)"
proof -
  from assms(2) have "(ty, cid) \<in> set (type_ids reg)"
    unfolding registry_get_id_def by (rule map_of_SomeD)
  with assms(1) show ?thesis
    by (auto simp: registry_ok_def list_all_iff)
qed

lemma keys_registered_nth:
  assumes "keys_registered w" "tid < length (s_tables (w_storage w))"
  shows "\<forall>c\<in>set (t_key (s_tables (w_storage w) ! tid)). c < length (type_infos (w_registry w))"
  using assms nth_mem [OF assms(2)] by (auto simp: keys_registered_def list_all_iff)

lemma rows_located_nth:
  assumes "rows_located w" "tid < length (s_tables (w_storage w))"
  shows "\<forall>e\<in>set (t_entities (s_tables (w_storage w) ! tid)).
           unat (entity_index e) < length (w_locations w)"
  using assms nth_mem [OF assms(2)] by (auto simp: rows_located_def list_all_iff)

lemma world_add_component_total:
  fixes w :: "'v world"
  assumes st: "store_ok w"
    and regC: "registry_get_id (w_registry w) tyC = Some cidC"
    and g: "world_get_component w e ty = Some a"
  shows "\<exists>w'. world_add_component w e tyC v = Some w'"
proof -
  let ?T = "s_tables (w_storage w)"
  from st have ok: "world_ok w" and kt: "key_tables_ok (w_storage w)"
    and rok: "registry_ok (w_registry w)" and kr: "keys_registered w" and rl: "rows_located w"
    and bound: "length ?T < 2 ^ 32 - 1" and cap: "length (type_infos (w_registry w)) \<le> 2 ^ 30"
    by (simp_all add: store_ok_def store_wf_def within_capacity_def)
  from world_get_component_SomeD [OF g] obtain cid and loc :: location and t :: "'v table" where
    al: "world_alive w e"
    and loc: "location_at w (entity_index e) = Some loc" "location_valid loc"
    and t: "storage_get_table (w_storage w) (loc_tid loc) = Some t"
    and row: "loc_row loc < table_size t"
    by blast
  let ?o = "loc_tid loc"
  from t have o: "?o < length ?T" and t_def: "t = ?T ! ?o"
    by (simp_all add: storage_get_table_Some)
  show ?thesis
  proof (cases "table_has t cidC")
    case True
    with al regC loc t show ?thesis
      by (simp add: world_add_component_def)
  next
    case False
    from keys_registered_nth [OF kr o]
    have "\<forall>c\<in>set (t_key t). c < length (type_infos (w_registry w))"
      by (simp add: t_def)
    with registry_ok_get_id [OF rok regC]
    have "\<forall>c\<in>set (t_key t @ [cidC]). c < length (type_infos (w_registry w))"
      by simp
    from get_table_for_signature_total [OF this cap] obtain new_tid w1 where
      gts: "get_table_for_signature w (t_key t @ [cidC]) = Some (new_tid, w1)"
      by blast
    note G = get_table_for_signature_effect [OF gts kt bound]
    let ?T1 = "s_tables (w_storage w1)"
    from G have tk: "take (length ?T) ?T1 = ?T"
      by simp
    have old1: "?T1 ! ?o = t"
      using arg_cong [OF tk, of "\<lambda>xs. xs ! ?o"] o by (simp add: t_def)
    from G have key1: "t_key (?T1 ! new_tid) = make_archetype_key (t_key t @ [cidC])"
      by simp
    have cC: "cidC \<in> set (t_key (?T1 ! new_tid))"
      by (simp add: key1 make_archetype_key_canonical)
    from False cC have ne: "?o \<noteq> new_tid"
      by (auto simp: old1 table_has_def key_contains_def)
    have ok1: "world_ok w1"
      using ok gts by (rule get_table_for_signature_ok)
    from loc(1) G have loc1: "location_at w1 (entity_index e) = Some loc"
      by (simp add: location_at_Some)
    from G o have o1: "?o < length ?T1" and n1: "new_tid < length ?T1"
      by simp_all
    from row have row1: "loc_row loc < length (t_entities (?T1 ! ?o))"
      by (simp add: old1 table_size_def)
    from rows_located_nth [OF rl o] G have located: "\<forall>e'\<in>set (t_entities (?T1 ! ?o)).
        unat (entity_index e') < length (w_locations w1)"
      by (simp add: old1 t_def)
    from migrate_entity_to_table_total [OF ok1 loc1 loc(2) o1 n1 ne row1 located]
    obtain new_row w2 where mig: "migrate_entity_to_table w1 e new_tid = Some (new_row, w2)"
      by blast
    from migrate_entity_to_table_effect [OF mig ok1 loc1 ne] obtain swapped where
      E: "world_ok w2"
        "length (s_tables (w_storage w2)) = length ?T1"
        "map t_key (s_tables (w_storage w2)) = map t_key ?T1"
        "t_entities (s_tables (w_storage w2) ! new_tid) = t_entities (?T1 ! new_tid) @ [e]"
        "new_row = length (t_entities (?T1 ! new_tid)) mod 2 ^ 32"
      by blast
    let ?nt = "s_tables (w_storage w2) ! new_tid"
    from n1 E(2) have n2: "new_tid < length (s_tables (w_storage w2))"
      by simp
    from arg_cong [OF E(3), of "\<lambda>xs. xs ! new_tid"] n1 n2 have key2: "t_key ?nt = t_key (?T1 ! new_tid)"
      by simp
    have "new_row \<le> length (t_entities (?T1 ! new_tid))"
      unfolding E(5) by simp
    then have r2: "new_row < length (t_entities ?nt)"
      by (simp add: E(4))
    from cC have c2: "cidC \<in> set (t_key ?nt)"
      by (simp add: key2)
    from table_construct_total [OF world_ok_nth [OF E(1) n2] c2 r2, of v] obtain nt' where
      "(case v of Some x \<Rightarrow> table_copy_construct_at ?nt new_row cidC x
                | None \<Rightarrow> table_default_construct_at ?nt new_row cidC) = Some nt'"
      by blast
    with al regC loc t False gts mig n2 show ?thesis
      by (simp add: world_add_component_def storage_get_table_def)
  qed
qed


section \<open>The effect of the public operations on keys, entities and locations\<close>

lemma map_update_same:
  assumes "f t = f (xs ! i)"
  shows "map f (xs[i := t]) = map f xs"
proof (cases "i < length xs")
  case True
  with assms show ?thesis
    by (simp add: map_update list_update_same_conv)
next
  case False
  then have "length xs \<le> i"
    by (simp add: not_less)
  then have "xs[i := t] = xs"
    by (rule list_update_beyond)
  then show ?thesis
    by (rule arg_cong)
qed

lemma world_create_entity_effect:
  fixes w :: "'v world"
  assumes c: "world_create_entity w = Some (e, w')" and ok: "world_ok w"
  shows "\<exists>em. em_create_entity (w_entities w) = Some (e, em) \<and> w_entities w' = em
     \<and> w_registry w' = w_registry w \<and> w_empty_table w' = w_empty_table w
     \<and> s_key_tables (w_storage w') = s_key_tables (w_storage w)
     \<and> map t_key (s_tables (w_storage w')) = map t_key (s_tables (w_storage w))
     \<and> w_empty_table w < length (s_tables (w_storage w))
     \<and> map t_entities (s_tables (w_storage w'))
         = (map t_entities (s_tables (w_storage w)))
             [w_empty_table w := t_entities (s_tables (w_storage w) ! w_empty_table w) @ [e]]
     \<and> unat (entity_index e) < length (ensure_location_capacity (w_locations w) (entity_index e))
     \<and> w_locations w'
         = (ensure_location_capacity (w_locations w) (entity_index e))
             [unat (entity_index e) :=
                \<lparr>loc_tid = w_empty_table w,
                 loc_row = length (t_entities (s_tables (w_storage w) ! w_empty_table w)) mod 2 ^ 32\<rparr>]"
proof -
  let ?T = "s_tables (w_storage w)"
  from world_create_entity_Some [OF c] obtain em and t :: "'v table" and row t' w2 where
    em: "em_create_entity (w_entities w) = Some (e, em)"
    and t: "storage_get_table (w_storage w) (w_empty_table w) = Some t"
    and a: "table_add_row t e = Some (row, t')"
    and sl: "set_location
          (set_table (w\<lparr>w_entities := em,
                         w_locations := ensure_location_capacity (w_locations w) (entity_index e)\<rparr>)
             (w_empty_table w) t')
          (entity_index e) \<lparr>loc_tid = w_empty_table w, loc_row = row mod 2 ^ 32\<rparr> = Some w2"
    and w': "w' = bump_version w2"
    by blast
  from t have i: "w_empty_table w < length ?T" and t_def: "t = ?T ! w_empty_table w"
    by (simp_all add: storage_get_table_Some)
  note p = table_add_row_pres [OF world_ok_nth [OF ok i] a [unfolded t_def]]
  from sl have r: "unat (entity_index e) < length (ensure_location_capacity (w_locations w) (entity_index e))"
    and w2: "w2 = (set_table (w\<lparr>w_entities := em,
                         w_locations := ensure_location_capacity (w_locations w) (entity_index e)\<rparr>)
             (w_empty_table w) t')
          \<lparr>w_locations := (ensure_location_capacity (w_locations w) (entity_index e))
             [unat (entity_index e) := \<lparr>loc_tid = w_empty_table w, loc_row = row mod 2 ^ 32\<rparr>]\<rparr>"
    by (simp_all add: set_location_Some)
  have "map t_key (s_tables (w_storage w')) = map t_key ?T"
    unfolding w' w2 using p(3) by (simp add: map_update_same)
  moreover have "map t_entities (s_tables (w_storage w'))
         = (map t_entities ?T)[w_empty_table w := t_entities (?T ! w_empty_table w) @ [e]]"
    unfolding w' w2 using p(5) by (simp add: map_update)
  ultimately show ?thesis
    using em i r p(2) unfolding w' w2 by simp
qed

lemma entities_remove_swap_eq:
  "(sw, es') = entities_remove_swap es row \<longleftrightarrow>
     sw = fst (entities_remove_swap es row) \<and> es' = snd (entities_remove_swap es row)"
  by (cases "entities_remove_swap es row") auto

lemma remove_row_dense_and_fixup_effect:
  fixes w :: "'v world"
  assumes r: "remove_row_dense_and_fixup w e = Some w'" and ok: "world_ok w"
    and loc: "location_at w (entity_index e) = Some loc"
  shows "\<exists>swapped es'. location_valid loc
     \<and> loc_tid loc < length (s_tables (w_storage w))
     \<and> loc_row loc < length (t_entities (s_tables (w_storage w) ! loc_tid loc))
     \<and> (swapped, es') = entities_remove_swap (t_entities (s_tables (w_storage w) ! loc_tid loc)) (loc_row loc)
     \<and> w_entities w' = w_entities w \<and> w_registry w' = w_registry w
     \<and> w_empty_table w' = w_empty_table w
     \<and> s_key_tables (w_storage w') = s_key_tables (w_storage w)
     \<and> map t_key (s_tables (w_storage w')) = map t_key (s_tables (w_storage w))
     \<and> map t_entities (s_tables (w_storage w'))
         = (map t_entities (s_tables (w_storage w)))[loc_tid loc := es']
     \<and> unat (entity_index e) < length (w_locations w)
     \<and> (entity_valid swapped \<longrightarrow> unat (entity_index swapped) < length (w_locations w))
     \<and> w_locations w'
         = (if entity_valid swapped
            then (w_locations w)[unat (entity_index swapped) := \<lparr>loc_tid = loc_tid loc, loc_row = loc_row loc\<rparr>]
            else w_locations w)[unat (entity_index e) := \<lparr>loc_tid = INVALID_TABLE, loc_row = 0\<rparr>]"
proof -
  let ?T = "s_tables (w_storage w)"
  from remove_row_dense_and_fixup_Some [OF r] loc
  obtain t :: "'v table" and swapped t' w2 w3 where
    v: "location_valid loc"
    and t: "storage_get_table (w_storage w) (loc_tid loc) = Some t"
    and rm: "table_remove_row_swap t (loc_row loc) = Some (swapped, t')"
    and fx: "fixup_swapped (set_table w (loc_tid loc) t') swapped
          \<lparr>loc_tid = loc_tid loc, loc_row = loc_row loc\<rparr> = Some w2"
    and sl: "set_location w2 (entity_index e) \<lparr>loc_tid = INVALID_TABLE, loc_row = 0\<rparr> = Some w3"
    and w': "w' = bump_version w3"
    by auto
  from t have i: "loc_tid loc < length ?T" and t_def: "t = ?T ! loc_tid loc"
    by (simp_all add: storage_get_table_Some)
  note p = table_remove_row_swap_pres [OF world_ok_nth [OF ok i] rm [unfolded t_def]]
  from fx have w2: "w2 = (if entity_valid swapped
      then (set_table w (loc_tid loc) t')\<lparr>w_locations := (w_locations w)[unat (entity_index swapped) := \<lparr>loc_tid = loc_tid loc, loc_row = loc_row loc\<rparr>]\<rparr>
      else set_table w (loc_tid loc) t')"
    and sw: "entity_valid swapped \<longrightarrow> unat (entity_index swapped) < length (w_locations w)"
    by (simp_all add: fixup_swapped_Some split: if_splits)
  from sl have w3: "w3 = w2\<lparr>w_locations := (w_locations w2)[unat (entity_index e) := \<lparr>loc_tid = INVALID_TABLE, loc_row = 0\<rparr>]\<rparr>"
    by (simp add: set_location_Some)
  have st: "w_storage w' = w_storage (set_table w (loc_tid loc) t')"
    by (simp add: w' w3 w2)
  have "map t_key (s_tables (w_storage w')) = map t_key ?T"
    unfolding st using p(3) by (simp add: map_update_same)
  moreover have "map t_entities (s_tables (w_storage w'))
         = (map t_entities ?T)[loc_tid loc := t_entities t']"
    unfolding st by (simp add: map_update)
  moreover from loc have "unat (entity_index e) < length (w_locations w)"
    by (simp add: location_at_Some)
  moreover have "w_locations w'
         = (if entity_valid swapped
            then (w_locations w)[unat (entity_index swapped) := \<lparr>loc_tid = loc_tid loc, loc_row = loc_row loc\<rparr>]
            else w_locations w)[unat (entity_index e) := \<lparr>loc_tid = INVALID_TABLE, loc_row = 0\<rparr>]"
    by (simp add: w' w3 w2)
  moreover have "w_entities w' = w_entities w \<and> w_registry w' = w_registry w
     \<and> w_empty_table w' = w_empty_table w \<and> s_key_tables (w_storage w') = s_key_tables (w_storage w)"
    by (simp add: w' w3 w2)
  ultimately show ?thesis
    using v i p(2,5) sw by blast
qed

lemma world_destroy_entity_effect:
  fixes w :: "'v world"
  assumes d: "world_destroy_entity w e = Some w'" and ok: "world_ok w"
    and al: "world_alive w e"
    and loc: "location_at w (entity_index e) = Some loc" and v: "location_valid loc"
  shows "\<exists>swapped es'.
       w_entities w' = em_destroy_entity (w_entities w) e
     \<and> w_registry w' = w_registry w \<and> w_empty_table w' = w_empty_table w
     \<and> s_key_tables (w_storage w') = s_key_tables (w_storage w)
     \<and> map t_key (s_tables (w_storage w')) = map t_key (s_tables (w_storage w))
     \<and> loc_tid loc < length (s_tables (w_storage w))
     \<and> loc_row loc < length (t_entities (s_tables (w_storage w) ! loc_tid loc))
     \<and> (swapped, es') = entities_remove_swap
           (t_entities (s_tables (w_storage w) ! loc_tid loc)) (loc_row loc)
     \<and> map t_entities (s_tables (w_storage w'))
         = (map t_entities (s_tables (w_storage w)))[loc_tid loc := es']
     \<and> unat (entity_index e) < length (w_locations w)
     \<and> (entity_valid swapped \<longrightarrow> unat (entity_index swapped) < length (w_locations w))
     \<and> w_locations w'
         = (if entity_valid swapped
            then (w_locations w)[unat (entity_index swapped) :=
                   \<lparr>loc_tid = loc_tid loc, loc_row = loc_row loc\<rparr>]
            else w_locations w)[unat (entity_index e) := \<lparr>loc_tid = INVALID_TABLE, loc_row = 0\<rparr>]"
proof -
  from al have a: "em_alive (w_entities w) e"
    by (simp add: world_alive_def)
  from world_destroy_entity_Some [OF d a] loc v obtain w1 where
    r: "remove_row_dense_and_fixup w e = Some w1"
    and w': "w' = bump_version (w1\<lparr>w_entities := em_destroy_entity (w_entities w1) e\<rparr>)"
    by auto
  have f: "w_entities w' = em_destroy_entity (w_entities w1) e" "w_registry w' = w_registry w1"
    "w_empty_table w' = w_empty_table w1" "w_storage w' = w_storage w1"
    "w_locations w' = w_locations w1"
    by (simp_all add: w' bump_version_def)
  from remove_row_dense_and_fixup_effect [OF r ok loc] show ?thesis
    unfolding f by metis
qed

lemma world_destroy_entity_unlocated:
  fixes w :: "'v world"
  assumes d: "world_destroy_entity w e = Some w'" and al: "world_alive w e"
    and loc: "location_at w (entity_index e) = Some loc" and v: "\<not> location_valid loc"
  shows "w' = bump_version (w\<lparr>w_entities := em_destroy_entity (w_entities w) e\<rparr>)"
proof -
  from al have a: "em_alive (w_entities w) e"
    by (simp add: world_alive_def)
  from world_destroy_entity_Some [OF d a] loc v show ?thesis
    by auto
qed

lemma migrate_entity_to_table_entities:
  fixes w :: "'v world"
  assumes m: "migrate_entity_to_table w e new_tid = Some (new_row, w')"
    and ok: "world_ok w"
    and loc: "location_at w (entity_index e) = Some loc"
    and ne: "loc_tid loc \<noteq> new_tid"
  shows "\<exists>swapped es'.
      location_valid loc
    \<and> loc_tid loc < length (s_tables (w_storage w))
    \<and> new_tid < length (s_tables (w_storage w))
    \<and> loc_row loc < length (t_entities (s_tables (w_storage w) ! loc_tid loc))
    \<and> new_row = length (t_entities (s_tables (w_storage w) ! new_tid)) mod 2 ^ 32
    \<and> world_ok w'
    \<and> w_entities w' = w_entities w \<and> w_registry w' = w_registry w
    \<and> w_empty_table w' = w_empty_table w
    \<and> s_key_tables (w_storage w') = s_key_tables (w_storage w)
    \<and> map t_key (s_tables (w_storage w')) = map t_key (s_tables (w_storage w))
    \<and> (swapped, es') = entities_remove_swap
          (t_entities (s_tables (w_storage w) ! loc_tid loc)) (loc_row loc)
    \<and> map t_entities (s_tables (w_storage w'))
        = (map t_entities (s_tables (w_storage w)))
            [loc_tid loc := es',
             new_tid := t_entities (s_tables (w_storage w) ! new_tid) @ [e]]
    \<and> unat (entity_index e) < length (w_locations w)
    \<and> (entity_valid swapped \<longrightarrow> unat (entity_index swapped) < length (w_locations w))
    \<and> w_locations w'
        = (if entity_valid swapped
           then (w_locations w)[unat (entity_index swapped) := \<lparr>loc_tid = loc_tid loc, loc_row = loc_row loc\<rparr>]
           else w_locations w)[unat (entity_index e) := \<lparr>loc_tid = new_tid, loc_row = new_row\<rparr>]"
proof -
  let ?T = "s_tables (w_storage w)" and ?T' = "s_tables (w_storage w')"
  let ?o = "loc_tid loc"
  from migrate_entity_to_table_effect [OF m ok loc ne] obtain swapped where
    E: "location_valid loc" "?o < length ?T" "new_tid < length ?T"
      "loc_row loc < length (t_entities (?T ! ?o))"
      "new_row = length (t_entities (?T ! new_tid)) mod 2 ^ 32"
      "world_ok w'"
      "w_entities w' = w_entities w \<and> w_registry w' = w_registry w
         \<and> w_empty_table w' = w_empty_table w
         \<and> s_key_tables (w_storage w') = s_key_tables (w_storage w)"
      "length ?T' = length ?T"
      "map t_key ?T' = map t_key ?T"
      "\<forall>tid. tid \<noteq> ?o \<and> tid \<noteq> new_tid \<longrightarrow> ?T' ! tid = ?T ! tid"
      "t_entities (?T' ! new_tid) = t_entities (?T ! new_tid) @ [e]"
      "(swapped, t_entities (?T' ! ?o)) = entities_remove_swap (t_entities (?T ! ?o)) (loc_row loc)"
      "unat (entity_index e) < length (w_locations w)"
      "entity_valid swapped \<longrightarrow> unat (entity_index swapped) < length (w_locations w)"
      "w_locations w'
        = (if entity_valid swapped
           then (w_locations w)[unat (entity_index swapped) := \<lparr>loc_tid = ?o, loc_row = loc_row loc\<rparr>]
           else w_locations w)[unat (entity_index e) := \<lparr>loc_tid = new_tid, loc_row = new_row\<rparr>]"
    by blast
  have "map t_entities ?T'
      = (map t_entities ?T)[?o := t_entities (?T' ! ?o),
                             new_tid := t_entities (?T ! new_tid) @ [e]]"
  proof (rule nth_equalityI)
    show "length (map t_entities ?T')
        = length ((map t_entities ?T)[?o := t_entities (?T' ! ?o),
                             new_tid := t_entities (?T ! new_tid) @ [e]])"
      by (simp add: E(8))
    fix i assume "i < length (map t_entities ?T')"
    then have i: "i < length ?T" "i < length ?T'"
      by (simp_all add: E(8))
    show "map t_entities ?T' ! i
        = (map t_entities ?T)[?o := t_entities (?T' ! ?o),
                             new_tid := t_entities (?T ! new_tid) @ [e]] ! i"
    proof (cases "i = new_tid")
      case True
      with i E(11) show ?thesis by simp
    next
      case n: False
      show ?thesis
      proof (cases "i = ?o")
        case True
        with i n show ?thesis by simp
      next
        case False
        with n i E(10) show ?thesis by simp
      qed
    qed
  qed
  with E show ?thesis
    by blast
qed


section \<open>Locations and rows\<close>

lemma locations_okD1:
  assumes "locations_ok X m locs ents" "slot_live m ix" "ix \<notin> X"
  shows "unat ix < length locs" and "loc_tid (locs ! unat ix) < length ents"
    and "loc_row (locs ! unat ix) < length (ents ! loc_tid (locs ! unat ix))"
    and "ents ! loc_tid (locs ! unat ix) ! loc_row (locs ! unat ix)
            = entity_make ix (generations m ! unat ix)"
proof -
  from assms(1) have "\<forall>ix. slot_live m ix \<and> ix \<notin> X \<longrightarrow>
          unat ix < length locs
        \<and> loc_tid (locs ! unat ix) < length ents
        \<and> loc_row (locs ! unat ix) < length (ents ! loc_tid (locs ! unat ix))
        \<and> ents ! loc_tid (locs ! unat ix) ! loc_row (locs ! unat ix)
            = entity_make ix (generations m ! unat ix)"
    unfolding locations_ok_def by (rule conjunct1)
  from this [rule_format, of ix] assms(2,3)
  show "unat ix < length locs" and "loc_tid (locs ! unat ix) < length ents"
    and "loc_row (locs ! unat ix) < length (ents ! loc_tid (locs ! unat ix))"
    and "ents ! loc_tid (locs ! unat ix) ! loc_row (locs ! unat ix)
            = entity_make ix (generations m ! unat ix)"
    by simp_all
qed

lemma locations_okD2:
  assumes "locations_ok X m locs ents" "tid < length ents" "row < length (ents ! tid)"
  shows "slot_live m (entity_index (ents ! tid ! row))"
    and "entity_index (ents ! tid ! row) \<notin> X"
    and "locs ! unat (entity_index (ents ! tid ! row)) = \<lparr>loc_tid = tid, loc_row = row\<rparr>"
proof -
  from assms(1) have "\<forall>tid row. tid < length ents \<and> row < length (ents ! tid) \<longrightarrow>
          slot_live m (entity_index (ents ! tid ! row))
        \<and> entity_index (ents ! tid ! row) \<notin> X
        \<and> locs ! unat (entity_index (ents ! tid ! row)) = \<lparr>loc_tid = tid, loc_row = row\<rparr>"
    unfolding locations_ok_def by (rule conjunct2)
  from this [rule_format, of tid row] assms(2,3)
  show "slot_live m (entity_index (ents ! tid ! row))"
    and "entity_index (ents ! tid ! row) \<notin> X"
    and "locs ! unat (entity_index (ents ! tid ! row)) = \<lparr>loc_tid = tid, loc_row = row\<rparr>"
    by simp_all
qed

lemma locations_okI:
  assumes "\<And>ix. slot_live m ix \<Longrightarrow> ix \<notin> X \<Longrightarrow>
          unat ix < length locs
        \<and> loc_tid (locs ! unat ix) < length ents
        \<and> loc_row (locs ! unat ix) < length (ents ! loc_tid (locs ! unat ix))
        \<and> ents ! loc_tid (locs ! unat ix) ! loc_row (locs ! unat ix)
            = entity_make ix (generations m ! unat ix)"
    and "\<And>tid row. tid < length ents \<Longrightarrow> row < length (ents ! tid) \<Longrightarrow>
          slot_live m (entity_index (ents ! tid ! row))
        \<and> entity_index (ents ! tid ! row) \<notin> X
        \<and> locs ! unat (entity_index (ents ! tid ! row)) = \<lparr>loc_tid = tid, loc_row = row\<rparr>"
  shows "locations_ok X m locs ents"
  unfolding locations_ok_def
proof (intro conjI allI impI)
  fix ix assume "slot_live m ix \<and> ix \<notin> X"
  then have "slot_live m ix" "ix \<notin> X" by simp_all
  from assms(1) [OF this]
  show "unat ix < length locs" and "loc_tid (locs ! unat ix) < length ents"
    and "loc_row (locs ! unat ix) < length (ents ! loc_tid (locs ! unat ix))"
    and "ents ! loc_tid (locs ! unat ix) ! loc_row (locs ! unat ix)
            = entity_make ix (generations m ! unat ix)"
    by simp_all
next
  fix tid row assume "tid < length ents \<and> row < length (ents ! tid)"
  then have "tid < length ents" "row < length (ents ! tid)" by simp_all
  from assms(2) [OF this]
  show "slot_live m (entity_index (ents ! tid ! row))"
    and "entity_index (ents ! tid ! row) \<notin> X"
    and "locs ! unat (entity_index (ents ! tid ! row)) = \<lparr>loc_tid = tid, loc_row = row\<rparr>"
    by simp_all
qed

text \<open>The entity of a row is the handle of its slot, and a slot has one row.\<close>

lemma locations_ok_row_entity:
  assumes "locations_ok X m locs ents" "tid < length ents" "row < length (ents ! tid)"
  shows "ents ! tid ! row
      = entity_make (entity_index (ents ! tid ! row))
          (generations m ! unat (entity_index (ents ! tid ! row)))"
  using locations_okD1(4) [OF assms(1) locations_okD2(1,2) [OF assms]]
    locations_okD2(3) [OF assms] by simp

lemma locations_ok_row_unique:
  assumes "locations_ok X m locs ents" "tid < length ents" "row < length (ents ! tid)"
    "tid' < length ents" "row' < length (ents ! tid')"
    "entity_index (ents ! tid ! row) = entity_index (ents ! tid' ! row')"
  shows "tid = tid' \<and> row = row'"
proof -
  have "\<lparr>loc_tid = tid, loc_row = row\<rparr> = locs ! unat (entity_index (ents ! tid ! row))"
    by (rule locations_okD2(3) [OF assms(1,2,3), symmetric])
  also have "\<dots> = locs ! unat (entity_index (ents ! tid' ! row'))"
    by (simp only: assms(6))
  also have "\<dots> = \<lparr>loc_tid = tid', loc_row = row'\<rparr>"
    by (rule locations_okD2(3) [OF assms(1,4,5)])
  finally show ?thesis
    by simp
qed

lemma locations_ok_located:
  assumes "locations_ok X m locs ents" "tid < length ents" "row < length (ents ! tid)"
  shows "unat (entity_index (ents ! tid ! row)) < length locs"
  by (rule locations_okD1(1) [OF assms(1) locations_okD2(1,2) [OF assms]])

lemma locations_ok_append_locs:
  assumes "locations_ok X m locs ents"
  shows "locations_ok X m (locs @ zs) ents"
proof (rule locations_okI)
  fix ix assume a: "slot_live m ix" "ix \<notin> X"
  note d = locations_okD1 [OF assms a]
  from d(1) have "(locs @ zs) ! unat ix = locs ! unat ix"
    by (simp add: nth_append)
  with d show "unat ix < length (locs @ zs)
        \<and> loc_tid ((locs @ zs) ! unat ix) < length ents
        \<and> loc_row ((locs @ zs) ! unat ix) < length (ents ! loc_tid ((locs @ zs) ! unat ix))
        \<and> ents ! loc_tid ((locs @ zs) ! unat ix) ! loc_row ((locs @ zs) ! unat ix)
            = entity_make ix (generations m ! unat ix)"
    by simp
next
  fix tid row assume a: "tid < length ents" "row < length (ents ! tid)"
  note d = locations_okD2 [OF assms a]
  from locations_ok_located [OF assms a]
  have "(locs @ zs) ! unat (entity_index (ents ! tid ! row))
      = locs ! unat (entity_index (ents ! tid ! row))"
    by (simp add: nth_append)
  with d show "slot_live m (entity_index (ents ! tid ! row))
        \<and> entity_index (ents ! tid ! row) \<notin> X
        \<and> (locs @ zs) ! unat (entity_index (ents ! tid ! row)) = \<lparr>loc_tid = tid, loc_row = row\<rparr>"
    by simp
qed

lemma locations_ok_ensure:
  assumes "locations_ok X m locs ents"
  shows "locations_ok X m (ensure_location_capacity locs ix) ents"
  using assms locations_ok_append_locs [OF assms]
  by (simp add: ensure_location_capacity_def)

lemma locations_ok_append_table:
  assumes "locations_ok X m locs ents"
  shows "locations_ok X m locs (ents @ [[]])"
proof (rule locations_okI)
  fix ix assume a: "slot_live m ix" "ix \<notin> X"
  note d = locations_okD1 [OF assms a]
  from d(2) have "(ents @ [[]]) ! loc_tid (locs ! unat ix) = ents ! loc_tid (locs ! unat ix)"
    by (simp add: nth_append)
  with d show "unat ix < length locs
        \<and> loc_tid (locs ! unat ix) < length (ents @ [[]])
        \<and> loc_row (locs ! unat ix) < length ((ents @ [[]]) ! loc_tid (locs ! unat ix))
        \<and> (ents @ [[]]) ! loc_tid (locs ! unat ix) ! loc_row (locs ! unat ix)
            = entity_make ix (generations m ! unat ix)"
    by simp
next
  fix tid row assume a: "tid < length (ents @ [[]])" "row < length ((ents @ [[]]) ! tid)"
  have t: "tid < length ents"
  proof (rule ccontr)
    assume "\<not> tid < length ents"
    with a(1) have "tid = length ents" by simp
    with a(2) show False by simp
  qed
  then have e: "(ents @ [[]]) ! tid = ents ! tid"
    by (simp add: nth_append)
  from a(2) have r: "row < length (ents ! tid)"
    by (simp add: e)
  from locations_okD2 [OF assms t r]
  show "slot_live m (entity_index ((ents @ [[]]) ! tid ! row))
        \<and> entity_index ((ents @ [[]]) ! tid ! row) \<notin> X
        \<and> locs ! unat (entity_index ((ents @ [[]]) ! tid ! row)) = \<lparr>loc_tid = tid, loc_row = row\<rparr>"
    by (simp add: e)
qed

lemma locations_ok_rows_bound:
  assumes ok: "locations_ok X m locs ents" and t: "tid < length ents"
    and l: "slot_live m ix" and x: "ix \<in> X"
  shows "length (ents ! tid) < length (generations m)"
proof -
  let ?js = "map (\<lambda>e. unat (entity_index e)) (ents ! tid)"
  have d: "distinct ?js"
    unfolding distinct_conv_nth
  proof (intro allI impI)
    fix i j assume i: "i < length ?js" and j: "j < length ?js" and ne: "i \<noteq> j"
    show "?js ! i \<noteq> ?js ! j"
    proof
      assume "?js ! i = ?js ! j"
      with i j have "entity_index (ents ! tid ! i) = entity_index (ents ! tid ! j)"
        by (simp add: word_unat_eq_iff)
      from locations_ok_row_unique [OF ok t _ t _ this] i j ne show False
        by simp
    qed
  qed
  have n: "unat ix \<notin> set ?js"
  proof
    assume "unat ix \<in> set ?js"
    then obtain r where r: "r < length (ents ! tid)" "unat (entity_index (ents ! tid ! r)) = unat ix"
      by (auto simp: in_set_conv_nth)
    then have "entity_index (ents ! tid ! r) = ix"
      by (simp add: word_unat_eq_iff)
    with locations_okD2(2) [OF ok t r(1)] x show False
      by simp
  qed
  have b: "\<forall>j\<in>set (unat ix # ?js). j < length (generations m)"
  proof
    fix j assume "j \<in> set (unat ix # ?js)"
    then consider "j = unat ix" | r where "r < length (ents ! tid)" "j = unat (entity_index (ents ! tid ! r))"
      by (auto simp: in_set_conv_nth)
    then show "j < length (generations m)"
    proof cases
      case 1
      with l show ?thesis by (simp add: slot_live_def)
    next
      case 2
      with locations_okD2(1) [OF ok t 2(1)] show ?thesis by (simp add: slot_live_def)
    qed
  qed
  from d n have "distinct (unat ix # ?js)"
    by simp
  from distinct_bounded_length [OF this b] show ?thesis
    by simp
qed

section \<open>Slots in use across \<^verbatim>\<open>create_entity\<close> and \<^verbatim>\<open>destroy_entity\<close>\<close>

lemma em_create_entity_slots:
  assumes c: "em_create_entity m = Some (e, m')" and inv: "em_inv m"
    and cap: "length (generations m') \<le> 2 ^ 32 - 1"
  shows "e = entity_make (entity_index e) (generations m' ! unat (entity_index e))"
    and "slot_live m' (entity_index e)"
    and "\<not> slot_live m (entity_index e)"
    and "\<And>ix. ix \<noteq> entity_index e \<Longrightarrow> slot_live m' ix = slot_live m ix"
    and "\<And>ix. slot_live m ix \<Longrightarrow> generations m' ! unat ix = generations m ! unat ix"
proof -
  let ?n = "length (generations m)"
  have "e = entity_make (entity_index e) (generations m' ! unat (entity_index e))
      \<and> slot_live m' (entity_index e) \<and> \<not> slot_live m (entity_index e)
      \<and> (\<forall>ix. ix \<noteq> entity_index e \<longrightarrow> slot_live m' ix = slot_live m ix)
      \<and> (\<forall>ix. slot_live m ix \<longrightarrow> generations m' ! unat ix = generations m ! unat ix)"
  proof (cases "fragment m = []")
    case True
    with c have g: "generations m' = generations m @ [0]" and f: "fragment m' = []"
      and e: "e = entity_make (word_of_nat ?n) ((generations m @ [0]) ! unat (word_of_nat ?n :: fecs_id))"
      by (auto simp: em_create_entity_def split: if_splits)
    from cap g have "?n < 2 ^ 32"
      by simp
    then have u: "unat (word_of_nat ?n :: fecs_id) = ?n"
      by (simp add: unat_of_nat)
    have i: "entity_index e = word_of_nat ?n"
      unfolding e by (rule entity_index_make)
    have ne: "unat ix \<noteq> ?n" if "ix \<noteq> entity_index e" for ix
      using that u unfolding i by (metis word_unat_eq_iff)
    show ?thesis
      unfolding i using True
      by (auto simp: e g f u slot_live_def entity_index_make nth_append dest: ne [unfolded i])
  next
    case False
    then obtain xs x where fr: "fragment m = xs @ [x]"
      by (metis append_butlast_last_id)
    with c have g: "generations m' = generations m" and f: "fragment m' = xs"
      and e: "e = entity_make x (generations m ! unat x)"
      by (auto simp: em_create_entity_def split: if_splits)
    from inv fr have x: "x \<notin> set xs" "unat x < ?n"
      by (auto simp: em_inv_def)
    have i: "entity_index e = x"
      unfolding e by (rule entity_index_make)
    show ?thesis
      unfolding i using x
      by (auto simp: e g f fr slot_live_def entity_index_make)
  qed
  then show "e = entity_make (entity_index e) (generations m' ! unat (entity_index e))"
    and "slot_live m' (entity_index e)"
    and "\<not> slot_live m (entity_index e)"
    and "\<And>ix. ix \<noteq> entity_index e \<Longrightarrow> slot_live m' ix = slot_live m ix"
    and "\<And>ix. slot_live m ix \<Longrightarrow> generations m' ! unat ix = generations m ! unat ix"
    by blast+
qed

lemma em_destroy_entity_slots:
  assumes a: "em_alive m e"
  shows "\<And>ix. slot_live (em_destroy_entity m e) ix \<longleftrightarrow> slot_live m ix \<and> ix \<noteq> entity_index e"
    and "\<And>ix. ix \<noteq> entity_index e \<Longrightarrow>
           generations (em_destroy_entity m e) ! unat ix = generations m ! unat ix"
proof -
  fix ix
  show "slot_live (em_destroy_entity m e) ix \<longleftrightarrow> slot_live m ix \<and> ix \<noteq> entity_index e"
    unfolding em_destroy_entity_alive_eq [OF a] by (auto simp: slot_live_def)
  assume "ix \<noteq> entity_index e"
  then have "unat ix \<noteq> unat (entity_index e)"
    by (simp add: word_unat_eq_iff)
  then show "generations (em_destroy_entity m e) ! unat ix = generations m ! unat ix"
    unfolding em_destroy_entity_alive_eq [OF a] by simp
qed

lemma locations_ok_alloc:
  assumes ok: "locations_ok {} m locs ents" and inv: "em_inv m"
    and c: "em_create_entity m = Some (e, m')"
    and cap: "length (generations m') \<le> 2 ^ 32 - 1"
  shows "locations_ok {entity_index e} m' locs ents"
proof (rule locations_okI)
  note s = em_create_entity_slots [OF c inv cap]
  fix ix assume a: "slot_live m' ix" "ix \<notin> {entity_index e}"
  then have l: "slot_live m ix"
    using s(4) [of ix] by simp
  from locations_okD1 [OF ok l] s(5) [OF l]
  show "unat ix < length locs
        \<and> loc_tid (locs ! unat ix) < length ents
        \<and> loc_row (locs ! unat ix) < length (ents ! loc_tid (locs ! unat ix))
        \<and> ents ! loc_tid (locs ! unat ix) ! loc_row (locs ! unat ix)
            = entity_make ix (generations m' ! unat ix)"
    by simp
next
  note s = em_create_entity_slots [OF c inv cap]
  fix tid row assume a: "tid < length ents" "row < length (ents ! tid)"
  note d = locations_okD2 [OF ok a]
  from d(1) s(3) have ne: "entity_index (ents ! tid ! row) \<noteq> entity_index e"
    by auto
  with d(1) s(4) [OF ne] d(3)
  show "slot_live m' (entity_index (ents ! tid ! row))
        \<and> entity_index (ents ! tid ! row) \<notin> {entity_index e}
        \<and> locs ! unat (entity_index (ents ! tid ! row)) = \<lparr>loc_tid = tid, loc_row = row\<rparr>"
    by simp
qed

lemma locations_ok_free:
  assumes ok: "locations_ok {entity_index e} m locs ents" and a: "em_alive m e"
  shows "locations_ok {} (em_destroy_entity m e) (locs[unat (entity_index e) := l]) ents"
proof (rule locations_okI)
  note s = em_destroy_entity_slots [OF a]
  fix ix assume "slot_live (em_destroy_entity m e) ix" "ix \<notin> {}"
  then have l: "slot_live m ix" and ne: "ix \<noteq> entity_index e"
    by (simp_all add: s(1))
  from ne have u: "unat ix \<noteq> unat (entity_index e)"
    by (simp add: word_unat_eq_iff)
  from ne have "ix \<notin> {entity_index e}"
    by simp
  from locations_okD1 [OF ok l this] s(2) [OF ne] u
  show "unat ix < length (locs[unat (entity_index e) := l])
        \<and> loc_tid (locs[unat (entity_index e) := l] ! unat ix) < length ents
        \<and> loc_row (locs[unat (entity_index e) := l] ! unat ix)
            < length (ents ! loc_tid (locs[unat (entity_index e) := l] ! unat ix))
        \<and> ents ! loc_tid (locs[unat (entity_index e) := l] ! unat ix)
                ! loc_row (locs[unat (entity_index e) := l] ! unat ix)
            = entity_make ix (generations (em_destroy_entity m e) ! unat ix)"
    by simp
next
  note s = em_destroy_entity_slots [OF a]
  fix tid row assume r: "tid < length ents" "row < length (ents ! tid)"
  note d = locations_okD2 [OF ok r]
  from d(2) have ne: "entity_index (ents ! tid ! row) \<noteq> entity_index e"
    by simp
  then have u: "unat (entity_index (ents ! tid ! row)) \<noteq> unat (entity_index e)"
    by (simp add: word_unat_eq_iff)
  from d(1,3) ne u
  show "slot_live (em_destroy_entity m e) (entity_index (ents ! tid ! row))
        \<and> entity_index (ents ! tid ! row) \<notin> {}
        \<and> locs[unat (entity_index e) := l] ! unat (entity_index (ents ! tid ! row))
            = \<lparr>loc_tid = tid, loc_row = row\<rparr>"
    by (simp add: s(1))
qed

section \<open>Appending a row and removing a row\<close>

lemma locations_ok_append_row:
  assumes ok: "locations_ok {ix} m locs ents" and l: "slot_live m ix"
    and u: "unat ix < length locs" and t: "tid < length ents"
  shows "locations_ok {} m (locs[unat ix := \<lparr>loc_tid = tid, loc_row = length (ents ! tid)\<rparr>])
           (ents[tid := ents ! tid @ [entity_make ix (generations m ! unat ix)]])"
proof (rule locations_okI)
  let ?e = "entity_make ix (generations m ! unat ix)"
  let ?locs = "locs[unat ix := \<lparr>loc_tid = tid, loc_row = length (ents ! tid)\<rparr>]"
  let ?ents = "ents[tid := ents ! tid @ [?e]]"
  fix ix' assume a: "slot_live m ix'" "ix' \<notin> {}"
  show "unat ix' < length ?locs
        \<and> loc_tid (?locs ! unat ix') < length ?ents
        \<and> loc_row (?locs ! unat ix') < length (?ents ! loc_tid (?locs ! unat ix'))
        \<and> ?ents ! loc_tid (?locs ! unat ix') ! loc_row (?locs ! unat ix')
            = entity_make ix' (generations m ! unat ix')"
  proof (cases "ix' = ix")
    case True
    with u t show ?thesis
      by simp
  next
    case False
    then have un: "unat ix' \<noteq> unat ix"
      by (simp add: word_unat_eq_iff)
    from False have "ix' \<notin> {ix}"
      by simp
    note d = locations_okD1 [OF ok a(1) this]
    from un have e: "?locs ! unat ix' = locs ! unat ix'"
      by simp
    show ?thesis
    proof (cases "loc_tid (locs ! unat ix') = tid")
      case True
      with d t show ?thesis
        unfolding e by (simp add: nth_append)
    next
      case False
      with d show ?thesis
        unfolding e by simp
    qed
  qed
next
  let ?e = "entity_make ix (generations m ! unat ix)"
  let ?locs = "locs[unat ix := \<lparr>loc_tid = tid, loc_row = length (ents ! tid)\<rparr>]"
  let ?ents = "ents[tid := ents ! tid @ [?e]]"
  fix tid' row assume a: "tid' < length ?ents" "row < length (?ents ! tid')"
  then have t': "tid' < length ents"
    by simp
  show "slot_live m (entity_index (?ents ! tid' ! row))
        \<and> entity_index (?ents ! tid' ! row) \<notin> {}
        \<and> ?locs ! unat (entity_index (?ents ! tid' ! row)) = \<lparr>loc_tid = tid', loc_row = row\<rparr>"
  proof (cases "tid' = tid \<and> row = length (ents ! tid)")
    case True
    with t have "?ents ! tid' ! row = ?e"
      by simp
    with True l u show ?thesis
      by (simp add: entity_index_make)
  next
    case False
    have "row < length (ents ! tid') \<and> ?ents ! tid' ! row = ents ! tid' ! row"
    proof (cases "tid' = tid")
      case True
      with a(2) t False show ?thesis
        by (simp add: nth_append)
    next
      case False
      with a(2) show ?thesis
        by simp
    qed
    then have r: "row < length (ents ! tid')" and e: "?ents ! tid' ! row = ents ! tid' ! row"
      by simp_all
    note d = locations_okD2 [OF ok t' r]
    from d(2) have "unat (entity_index (ents ! tid' ! row)) \<noteq> unat ix"
      by (simp add: word_unat_eq_iff)
    with d show ?thesis
      unfolding e by simp
  qed
qed

lemma locations_ok_entity_valid:
  assumes ok: "locations_ok X m locs ents" and t: "tid < length ents" and r: "row < length (ents ! tid)"
    and cap: "length (generations m) \<le> 2 ^ 32 - 1"
  shows "entity_valid (ents ! tid ! row)"
proof -
  let ?j = "entity_index (ents ! tid ! row)"
  from locations_okD2(1) [OF ok t r] cap have "unat ?j < 2 ^ 32 - 1"
    by (simp add: slot_live_def)
  moreover have "unat (- 1 :: fecs_id) = 2 ^ 32 - 1"
    by (simp add: unsigned_minus_1_eq_mask mask_eq_exp_minus_1)
  ultimately have "?j \<noteq> - 1"
    by auto
  then have "entity_value (entity_make ?j (generations m ! unat ?j)) \<noteq> INVALID_ENTITY"
    by (simp add: entity_make_invalid_iff)
  then show ?thesis
    unfolding entity_valid_def locations_ok_row_entity [OF ok t r, symmetric] .
qed

lemma locations_ok_remove_row:
  assumes ok: "locations_ok {} m locs ents" and l: "slot_live m ix"
    and loc: "locs ! unat ix = \<lparr>loc_tid = tid, loc_row = row\<rparr>"
    and cap: "length (generations m) \<le> 2 ^ 32 - 1"
    and sw: "(sw, es') = entities_remove_swap (ents ! tid) row"
  shows "locations_ok {ix} m
           (if entity_valid sw then locs[unat (entity_index sw) := \<lparr>loc_tid = tid, loc_row = row\<rparr>]
            else locs)
           (ents[tid := es'])"
proof -
  let ?es = "ents ! tid"
  let ?last = "length ?es - 1"
  from locations_okD1 [OF ok l] loc have t: "tid < length ents" and r: "row < length ?es"
    and er: "?es ! row = entity_make ix (generations m ! unat ix)"
    by simp_all
  then have ir: "entity_index (?es ! row) = ix"
    by (simp add: entity_index_make)
  have other: "row' = row" if "row' < length ?es" "entity_index (?es ! row') = ix" for row'
    using locations_ok_row_unique [OF ok t that(1) t r] that(2) ir by simp
  show ?thesis
  proof (cases "row = ?last")
    case True
    with sw have s: "sw = Entity INVALID_ENTITY" and es': "es' = butlast ?es"
      by (simp_all add: entities_remove_swap_def Let_def)
    have nv: "\<not> entity_valid sw"
      by (simp add: s entity_valid_def)
    have "locations_ok {ix} m locs (ents[tid := butlast ?es])"
    proof (rule locations_okI)
      fix ix' assume a: "slot_live m ix'" "ix' \<notin> {ix}"
      note d = locations_okD1 [OF ok a(1)]
      show "unat ix' < length locs
        \<and> loc_tid (locs ! unat ix') < length (ents[tid := butlast ?es])
        \<and> loc_row (locs ! unat ix')
            < length (ents[tid := butlast ?es] ! loc_tid (locs ! unat ix'))
        \<and> ents[tid := butlast ?es] ! loc_tid (locs ! unat ix') ! loc_row (locs ! unat ix')
            = entity_make ix' (generations m ! unat ix')"
      proof (cases "loc_tid (locs ! unat ix') = tid")
        case False
        with d show ?thesis by simp
      next
        case tt: True
        have "loc_row (locs ! unat ix') \<noteq> row"
        proof
          assume "loc_row (locs ! unat ix') = row"
          with d(4) tt er have "entity_make ix' (generations m ! unat ix')
              = entity_make ix (generations m ! unat ix)"
            by simp
          from arg_cong [OF this, of entity_index] a(2) show False
            by (simp add: entity_index_make)
        qed
        with d(3) tt True have "loc_row (locs ! unat ix') < length (butlast ?es)"
          by simp
        with d tt t show ?thesis
          by (simp add: nth_butlast)
      qed
    next
      fix tid' row' assume a: "tid' < length (ents[tid := butlast ?es])"
        "row' < length (ents[tid := butlast ?es] ! tid')"
      then have t': "tid' < length ents"
        by simp
      from a t have r': "row' < length (ents ! tid')"
        and e: "ents[tid := butlast ?es] ! tid' ! row' = ents ! tid' ! row'"
        and lt: "tid' = tid \<longrightarrow> row' < ?last"
        by (auto simp: nth_list_update nth_butlast split: if_splits)
      note d = locations_okD2 [OF ok t' r']
      have "entity_index (ents ! tid' ! row') \<noteq> ix"
      proof
        assume x: "entity_index (ents ! tid' ! row') = ix"
        from locations_ok_row_unique [OF ok t' r' t r] x ir have "tid' = tid \<and> row' = row"
          by simp
        with lt True show False
          by simp
      qed
      with d show "slot_live m (entity_index (ents[tid := butlast ?es] ! tid' ! row'))
        \<and> entity_index (ents[tid := butlast ?es] ! tid' ! row') \<notin> {ix}
        \<and> locs ! unat (entity_index (ents[tid := butlast ?es] ! tid' ! row'))
            = \<lparr>loc_tid = tid', loc_row = row'\<rparr>"
        unfolding e by simp
    qed
    with nv es' show ?thesis
      by simp
  next
    case False
    with sw have s: "sw = ?es ! ?last" and es': "es' = butlast (?es[row := ?es ! ?last])"
      by (simp_all add: entities_remove_swap_def Let_def)
    from r have lr: "?last < length ?es"
      by simp
    let ?j = "entity_index sw"
    have v: "entity_valid sw"
      unfolding s by (rule locations_ok_entity_valid [OF ok t lr cap])
    note dl = locations_okD2 [OF ok t lr, folded s]
    have jx: "?j \<noteq> ix"
    proof
      assume "?j = ix"
      from other [OF lr this [unfolded s]] False show False
        by simp
    qed
    have swe: "sw = entity_make ?j (generations m ! unat ?j)"
      unfolding s by (rule locations_ok_row_entity [OF ok t lr])
    from r False have rl: "row < ?last"
      by simp
    let ?locs = "locs[unat ?j := \<lparr>loc_tid = tid, loc_row = row\<rparr>]"
    let ?ents = "ents[tid := butlast (?es[row := sw])]"
    have nth_es': "butlast (?es[row := sw]) ! k = (if k = row then sw else ?es ! k)"
      if "k < ?last" for k
      using that by (simp add: nth_butlast nth_list_update)
    have "locations_ok {ix} m ?locs ?ents"
    proof (rule locations_okI)
      fix ix' assume a: "slot_live m ix'" "ix' \<notin> {ix}"
      note d = locations_okD1 [OF ok a(1)]
      show "unat ix' < length ?locs
        \<and> loc_tid (?locs ! unat ix') < length ?ents
        \<and> loc_row (?locs ! unat ix') < length (?ents ! loc_tid (?locs ! unat ix'))
        \<and> ?ents ! loc_tid (?locs ! unat ix') ! loc_row (?locs ! unat ix')
            = entity_make ix' (generations m ! unat ix')"
      proof (cases "ix' = ?j")
        case True
        with d(1) have "?locs ! unat ix' = \<lparr>loc_tid = tid, loc_row = row\<rparr>"
          by simp
        with d(1) t rl True swe show ?thesis
          by (simp add: nth_es')
      next
        case nj: False
        then have "unat ix' \<noteq> unat ?j"
          by (simp add: word_unat_eq_iff)
        then have e: "?locs ! unat ix' = locs ! unat ix'"
          by simp
        show ?thesis
        proof (cases "loc_tid (locs ! unat ix') = tid")
          case False
          with d show ?thesis
            unfolding e by simp
        next
          case tt: True
          let ?r = "loc_row (locs ! unat ix')"
          from d(3,4) tt have rr: "?r < length ?es" and ei: "entity_index (?es ! ?r) = ix'"
            by (simp_all add: entity_index_make)
          have "?r \<noteq> row"
            using ei ir a(2) by auto
          moreover have "?r \<noteq> ?last"
            using ei nj s by auto
          ultimately have "?r < ?last" "butlast (?es[row := sw]) ! ?r = ?es ! ?r"
            using rr by (simp_all add: nth_butlast nth_list_update)
          with d tt t show ?thesis
            unfolding e by simp
        qed
      qed
    next
      fix tid' row' assume a: "tid' < length ?ents" "row' < length (?ents ! tid')"
      then have t': "tid' < length ents"
        by simp
      show "slot_live m (entity_index (?ents ! tid' ! row'))
        \<and> entity_index (?ents ! tid' ! row') \<notin> {ix}
        \<and> ?locs ! unat (entity_index (?ents ! tid' ! row')) = \<lparr>loc_tid = tid', loc_row = row'\<rparr>"
      proof (cases "tid' = tid \<and> row' = row")
        case True
        with t rl have "?ents ! tid' ! row' = sw"
          by (simp add: nth_es')
        with True dl(1) jx locations_ok_located [OF ok t lr, folded s] show ?thesis
          by simp
      next
        case False
        from a t have r': "row' < length (ents ! tid')" and lt: "tid' = tid \<longrightarrow> row' < ?last"
          by (auto simp: nth_list_update split: if_splits)
        have e: "?ents ! tid' ! row' = ents ! tid' ! row'"
        proof (cases "tid' = tid")
          case True
          with False lt t show ?thesis
            by (simp add: nth_es')
        next
          case False
          then show ?thesis
            by simp
        qed
        note d = locations_okD2 [OF ok t' r']
        have n1: "entity_index (ents ! tid' ! row') \<noteq> ix"
        proof
          assume x: "entity_index (ents ! tid' ! row') = ix"
          from locations_ok_row_unique [OF ok t' r' t r] x ir False show False
            by simp
        qed
        have n2: "entity_index (ents ! tid' ! row') \<noteq> ?j"
        proof
          assume x: "entity_index (ents ! tid' ! row') = ?j"
          from locations_ok_row_unique [OF ok t' r' t lr] x s lt show False
            by simp
        qed
        then have "unat (entity_index (ents ! tid' ! row')) \<noteq> unat ?j"
          by (simp add: word_unat_eq_iff)
        with d n1 show ?thesis
          unfolding e by simp
      qed
    qed
    with v es' s show ?thesis
      by simp
  qed
qed


section \<open>Well-formed stores are preserved\<close>

lemma key_tables_ok_alt:
  "key_tables_ok s \<longleftrightarrow>
     (\<forall>(key, tid)\<in>set (s_key_tables s).
        tid < length (map t_key (s_tables s)) \<and> map t_key (s_tables s) ! tid = key)"
  by (auto simp: key_tables_ok_def list_all_iff)

lemma keys_registered_alt:
  "keys_registered w \<longleftrightarrow>
     (\<forall>k\<in>set (map t_key (s_tables (w_storage w))). \<forall>cid\<in>set k.
        cid < length (type_infos (w_registry w)))"
  by (auto simp: keys_registered_def list_all_iff)

lemma rows_located_alt:
  "rows_located w \<longleftrightarrow>
     (\<forall>es\<in>set (map t_entities (s_tables (w_storage w))). \<forall>e\<in>set es.
        unat (entity_index e) < length (w_locations w))"
  by (auto simp: rows_located_def list_all_iff)

lemma store_wf_skeleton:
  assumes wf: "store_wf w" and ok: "world_ok w'"
    and reg: "w_registry w' = w_registry w"
    and kt: "s_key_tables (w_storage w') = s_key_tables (w_storage w)"
    and keys: "map t_key (s_tables (w_storage w')) = map t_key (s_tables (w_storage w))"
    and rows: "\<forall>es\<in>set (map t_entities (s_tables (w_storage w'))). \<forall>e\<in>set es.
        unat (entity_index e) < length (w_locations w')"
  shows "store_wf w'"
proof -
  from wf have "key_tables_ok (w_storage w)" "registry_ok (w_registry w)" "keys_registered w"
    by (simp_all add: store_wf_def)
  then have "key_tables_ok (w_storage w')" "registry_ok (w_registry w')" "keys_registered w'"
    unfolding key_tables_ok_alt keys_registered_alt kt keys reg by simp_all
  with ok rows show ?thesis
    by (simp add: store_wf_def rows_located_alt)
qed

lemma set_entities_remove_swap:
  assumes "row < length es"
  shows "set (snd (entities_remove_swap es row)) \<subseteq> set es"
proof -
  have "set (butlast (es[row := es ! (length es - 1)])) \<subseteq> set (es[row := es ! (length es - 1)])"
    by (auto dest: in_set_butlastD)
  also have "\<dots> \<subseteq> insert (es ! (length es - 1)) (set es)"
    by (rule set_update_subset_insert)
  also from assms have "\<dots> \<subseteq> set es"
    by simp
  finally have "set (butlast (es[row := es ! (length es - 1)])) \<subseteq> set es" .
  moreover have "set (butlast es) \<subseteq> set es"
    by (auto dest: in_set_butlastD)
  ultimately show ?thesis
    by (simp add: entities_remove_swap_def Let_def)
qed

lemma rows_update:
  assumes "\<forall>es\<in>set ents. \<forall>e\<in>set es. P e" "\<forall>e\<in>set es'. P e"
  shows "\<forall>es\<in>set (ents[i := es']). \<forall>e\<in>set es. P e"
  using assms set_update_subset_insert [of ents i es'] by blast

lemma rows_locs_update:
  assumes "\<forall>es\<in>set ents. \<forall>e\<in>set es. unat (entity_index e) < length locs"
    "length locs \<le> length locs'"
  shows "\<forall>es\<in>set ents. \<forall>e\<in>set es. unat (entity_index e) < length locs'"
  using assms by fastforce

lemma length_ensure_location_capacity:
  "length locs \<le> length (ensure_location_capacity locs ix)"
  by (simp add: ensure_location_capacity_def)

lemma world_new_store_wf:
  assumes "world_new = Some w"
  shows "store_wf w"
  using assms
  by (auto simp: world_new_Some store_wf_def world_ok_def table_ok_def key_tables_ok_def
      registry_ok_def registry_init_def keys_registered_def rows_located_def)

lemma world_register_component_store_wf:
  fixes w :: "'v world"
  assumes wf: "store_wf w"
    and cap: "length (type_infos (w_registry (snd (world_register_component w ty sz al dflt)))) \<le> 2 ^ 30"
  shows "store_wf (snd (world_register_component w ty sz al dflt))"
proof (cases "map_of (type_ids (w_registry w)) ty")
  case (Some cid)
  then have "snd (world_register_component w ty sz al dflt) = w\<lparr>w_registry := w_registry w\<rparr>"
    by (simp add: world_register_component_def registry_add_def)
  with wf show ?thesis
    by (simp add: store_wf_def world_ok_def keys_registered_def rows_located_def)
next
  case None
  let ?n = "length (type_infos (w_registry w))"
  from None have w': "snd (world_register_component w ty sz al dflt)
      = w\<lparr>w_registry := (w_registry w)
            \<lparr>type_ids := (ty, ?n mod 2 ^ 32) # type_ids (w_registry w),
             type_infos := type_infos (w_registry w)
               @ [\<lparr>ci_id = ?n mod 2 ^ 32, ci_type = ty, ci_size = sz, ci_alignment = al,
                   ci_default_ctor = dflt\<rparr>]\<rparr>\<rparr>"
    by (simp add: world_register_component_def registry_add_def Let_def)
  from cap have "?n < 2 ^ 32"
    unfolding w' by simp
  then have m: "?n mod 2 ^ 32 = ?n"
    by simp
  from wf show ?thesis
    unfolding w' m
    by (fastforce simp: store_wf_def world_ok_def keys_registered_def rows_located_def
        registry_ok_def list_all_iff less_Suc_eq)
qed

lemma world_register_component_mono:
  "length (s_tables (w_storage (snd (world_register_component w ty sz al dflt))))
     = length (s_tables (w_storage w))
   \<and> length (type_infos (w_registry w))
     \<le> length (type_infos (w_registry (snd (world_register_component w ty sz al dflt))))"
  by (simp add: world_register_component_def registry_add_def Let_def split: option.splits)

lemma storage_get_or_create_table_effect:
  fixes s :: "'v world_storage"
  assumes g: "storage_get_or_create_table reg s (make_archetype_key ids) = Some (tid, s')"
    and kt: "key_tables_ok s" and bound: "length (s_tables s') \<le> 2 ^ 32 - 1"
  shows "\<exists>ts. s_tables s' = s_tables s @ ts
     \<and> (ts = [] \<or> (\<exists>t. ts = [t] \<and> t_key t = make_archetype_key ids \<and> t_entities t = []
                        \<and> table_ok t))
     \<and> tid < length (s_tables s') \<and> t_key (s_tables s' ! tid) = make_archetype_key ids
     \<and> key_tables_ok s'"
proof (cases "map_of (s_key_tables s) (make_archetype_key ids)")
  case (Some tid')
  with g have e: "tid = tid'" "s' = s"
    by (simp_all add: storage_get_or_create_table_def)
  from key_tables_ok_lookup [OF kt Some] e kt show ?thesis
    by simp
next
  case None
  let ?key = "make_archetype_key ids"
  from None g have c: "storage_create_table reg s ?key = Some (tid, s')"
    by (simp add: storage_get_or_create_table_def)
  from storage_create_table_new_table [OF c make_archetype_key_canonical(1,2)]
  obtain t where t: "s_tables s' = s_tables s @ [t]" "t_key t = ?key" "t_entities t = []" "table_ok t"
    by blast
  from storage_create_table_Some [OF c] None
  have tid: "tid = length (s_tables s) mod 2 ^ 32"
    and k: "s_key_tables s' = (?key, tid) # s_key_tables s"
    by auto
  from bound t(1) have b: "length (s_tables s) mod 2 ^ 32 = length (s_tables s)"
    by simp
  have "key_tables_ok s'"
    using kt t unfolding key_tables_ok_def k tid b
    by (auto simp: list_all_iff nth_append)
  with t tid b show ?thesis
    by simp
qed

lemma storage_extended_store_wf:
  fixes w :: "'v world"
  assumes wf: "store_wf w"
    and ts: "s_tables s' = s_tables (w_storage w) @ ts"
      "ts = [] \<or> (\<exists>t. ts = [t] \<and> t_key t = key \<and> t_entities t = [] \<and> table_ok t)"
    and kt: "key_tables_ok s'"
    and reg: "\<forall>c\<in>set key. c < length (type_infos (w_registry w))"
  shows "store_wf (w\<lparr>w_storage := s'\<rparr>)"
  using wf ts kt reg
  by (auto simp: store_wf_def world_ok_def keys_registered_def rows_located_def list_all_iff)

lemma get_table_for_signature_store_wf:
  fixes w :: "'v world"
  assumes g: "get_table_for_signature w ids = Some (tid, w1)"
    and wf: "store_wf w"
    and reg: "\<forall>c\<in>set ids. c < length (type_infos (w_registry w))"
    and bound: "length (s_tables (w_storage w1)) \<le> 2 ^ 32 - 1"
  shows "store_wf w1"
    and "w_entities w1 = w_entities w \<and> w_locations w1 = w_locations w
       \<and> w_registry w1 = w_registry w \<and> w_empty_table w1 = w_empty_table w"
    and "tid < length (s_tables (w_storage w1))"
    and "t_key (s_tables (w_storage w1) ! tid) = make_archetype_key ids"
    and "take (length (s_tables (w_storage w))) (s_tables (w_storage w1)) = s_tables (w_storage w)"
    and "map t_entities (s_tables (w_storage w1)) = map t_entities (s_tables (w_storage w))
       \<or> map t_entities (s_tables (w_storage w1)) = map t_entities (s_tables (w_storage w)) @ [[]]"
proof -
  from get_table_for_signature_Some [OF g] obtain s where
    s: "storage_get_or_create_table (w_registry w) (w_storage w) (make_archetype_key ids)
          = Some (tid, s)"
    and w1: "w1 = w\<lparr>w_storage := s\<rparr>"
    by blast
  from wf have kt: "key_tables_ok (w_storage w)"
    by (simp add: store_wf_def)
  from bound have b: "length (s_tables s) \<le> 2 ^ 32 - 1"
    by (simp add: w1)
  from storage_get_or_create_table_effect [OF s kt b] obtain ts where
    ts: "s_tables s = s_tables (w_storage w) @ ts"
      "ts = [] \<or> (\<exists>t. ts = [t] \<and> t_key t = make_archetype_key ids \<and> t_entities t = []
                        \<and> table_ok t)"
    and t: "tid < length (s_tables s)" "t_key (s_tables s ! tid) = make_archetype_key ids"
    and k: "key_tables_ok s"
    by blast
  from reg have r: "\<forall>c\<in>set (make_archetype_key ids). c < length (type_infos (w_registry w))"
    by (simp add: make_archetype_key_canonical)
  show "store_wf w1"
    unfolding w1 by (rule storage_extended_store_wf [OF wf ts k r])
  show "w_entities w1 = w_entities w \<and> w_locations w1 = w_locations w
       \<and> w_registry w1 = w_registry w \<and> w_empty_table w1 = w_empty_table w"
    by (simp add: w1)
  from t show "tid < length (s_tables (w_storage w1))"
    and "t_key (s_tables (w_storage w1) ! tid) = make_archetype_key ids"
    by (simp_all add: w1)
  from ts show "take (length (s_tables (w_storage w))) (s_tables (w_storage w1))
      = s_tables (w_storage w)"
    by (simp add: w1)
  from ts show "map t_entities (s_tables (w_storage w1)) = map t_entities (s_tables (w_storage w))
       \<or> map t_entities (s_tables (w_storage w1)) = map t_entities (s_tables (w_storage w)) @ [[]]"
    by (auto simp: w1)
qed


section \<open>The invariant of the store: new stores, registration and creation\<close>

lemma world_inv_new:
  assumes n: "world_new = Some w"
  shows "world_inv w"
proof -
  from n have f: "w_entities w = em_init" "w_locations w = []"
    and t: "map t_entities (s_tables (w_storage w)) = [[]]"
    by (auto simp: world_new_Some)
  have "locations_ok {} (w_entities w) (w_locations w) (map t_entities (s_tables (w_storage w)))"
    unfolding f t by (rule locations_okI) (simp_all add: slot_live_def em_init_def)
  moreover from t have "length (s_tables (w_storage w)) = 1"
    by (metis length_map length_Cons list.size(3) One_nat_def)
  ultimately show ?thesis
    using world_new_store_wf [OF n] f
    by (simp add: world_inv_def em_inv_def em_init_def)
qed

lemma world_inv_register:
  fixes w :: "'v world"
  assumes inv: "world_inv w"
    and cap: "length (type_infos (w_registry (snd (world_register_component w ty sz al dflt)))) \<le> 2 ^ 30"
  shows "world_inv (snd (world_register_component w ty sz al dflt))"
proof -
  have e: "w_entities (snd (world_register_component w ty sz al dflt)) = w_entities w"
    "w_locations (snd (world_register_component w ty sz al dflt)) = w_locations w"
    "w_storage (snd (world_register_component w ty sz al dflt)) = w_storage w"
    by (simp_all add: world_register_component_def Let_def split: prod.splits)
  from inv world_register_component_store_wf [OF _ cap] show ?thesis
    by (simp add: world_inv_def e)
qed

lemma world_inv_create:
  fixes w :: "'v world"
  assumes inv: "world_inv w" and c: "world_create_entity w = Some (e, w')"
    and cap: "length (generations (w_entities w')) \<le> 2 ^ 32 - 1"
  shows "world_inv w'" and "entity_live w' e"
proof -
  let ?m = "w_entities w" and ?locs = "w_locations w"
  let ?ents = "map t_entities (s_tables (w_storage w))"
  let ?tid = "w_empty_table w"
  let ?ix = "entity_index e"
  from inv have wf: "store_wf w" and ei: "em_inv ?m"
    and tb: "length (s_tables (w_storage w)) \<le> 2 ^ 32 - 1"
    and lo: "locations_ok {} ?m ?locs ?ents"
    by (simp_all add: world_inv_def)
  from wf have ok: "world_ok w"
    by (simp add: store_wf_def)
  from world_create_entity_effect [OF c ok] obtain em where
    em: "em_create_entity ?m = Some (e, em)" "w_entities w' = em"
    and reg: "w_registry w' = w_registry w"
    and kt: "s_key_tables (w_storage w') = s_key_tables (w_storage w)"
    and keys: "map t_key (s_tables (w_storage w')) = map t_key (s_tables (w_storage w))"
    and tid: "?tid < length (s_tables (w_storage w))"
    and ents: "map t_entities (s_tables (w_storage w'))
         = ?ents[?tid := t_entities (s_tables (w_storage w) ! ?tid) @ [e]]"
    and u: "unat ?ix < length (ensure_location_capacity ?locs ?ix)"
    and locs: "w_locations w'
         = (ensure_location_capacity ?locs ?ix)
             [unat ?ix := \<lparr>loc_tid = ?tid,
                 loc_row = length (t_entities (s_tables (w_storage w) ! ?tid)) mod 2 ^ 32\<rparr>]"
    by blast
  from cap em have cap': "length (generations em) \<le> 2 ^ 32 - 1"
    by simp
  note sl = em_create_entity_slots [OF em(1) ei cap']
  have l1: "locations_ok {?ix} em (ensure_location_capacity ?locs ?ix) ?ents"
    by (rule locations_ok_ensure) (rule locations_ok_alloc [OF lo ei em(1) cap'])
  from tid have tid': "?tid < length ?ents"
    by simp
  from locations_ok_rows_bound [OF l1 tid' sl(2)] cap'
  have rb: "length (?ents ! ?tid) < 2 ^ 32"
    by simp
  with tid have row: "length (t_entities (s_tables (w_storage w) ! ?tid)) mod 2 ^ 32
      = length (?ents ! ?tid)"
    by simp
  from locations_ok_append_row [OF l1 sl(2) u tid'] sl(1) tid
  have l2: "locations_ok {} (w_entities w') (w_locations w')
      (map t_entities (s_tables (w_storage w')))"
    unfolding ents locs row em(2) by simp
  have okw: "world_ok w'"
    by (rule world_create_entity_ok [OF ok c])
  from wf have rl: "\<forall>es\<in>set ?ents. \<forall>e\<in>set es. unat (entity_index e) < length ?locs"
    by (simp add: store_wf_def rows_located_alt)
  have ll: "length ?locs \<le> length (w_locations w')"
    unfolding locs using length_ensure_location_capacity [of ?locs ?ix] by simp
  have rows: "\<forall>es\<in>set (map t_entities (s_tables (w_storage w'))). \<forall>e\<in>set es.
        unat (entity_index e) < length (w_locations w')"
    unfolding ents
  proof (rule rows_update)
    show "\<forall>es\<in>set ?ents. \<forall>e\<in>set es. unat (entity_index e) < length (w_locations w')"
      by (rule rows_locs_update [OF rl ll])
    from tid rl have "\<forall>x\<in>set (t_entities (s_tables (w_storage w) ! ?tid)).
        unat (entity_index x) < length ?locs"
      using nth_mem [OF tid] by auto
    with ll u show "\<forall>x\<in>set (t_entities (s_tables (w_storage w) ! ?tid) @ [e]).
        unat (entity_index x) < length (w_locations w')"
      by (auto simp: locs)
  qed
  have wf': "store_wf w'"
    by (rule store_wf_skeleton [OF wf okw reg kt keys rows])
  from keys have "length (s_tables (w_storage w')) = length (s_tables (w_storage w))"
    by (metis length_map)
  with wf' l2 tb cap em_create_entity_inv [OF ei em(1)] em(2) show "world_inv w'"
    by (simp add: world_inv_def)
  have "unat (- 1 :: fecs_id) = 2 ^ 32 - 1"
    by (simp add: unsigned_minus_1_eq_mask mask_eq_exp_minus_1)
  with sl(2) cap' have "?ix \<noteq> - 1"
    by (auto simp: slot_live_def)
  then have "entity_value (entity_make ?ix (generations em ! unat ?ix)) \<noteq> INVALID_ENTITY"
    by (simp add: entity_make_invalid_iff)
  then have v: "entity_valid e"
    unfolding entity_valid_def sl(1) [symmetric] .
  have "entity_generation e = generations em ! unat ?ix"
    by (subst sl(1)) (rule entity_generation_make)
  with v sl(2) show "entity_live w' e"
    by (simp add: entity_live_def world_alive_def em(2) em_alive_def slot_live_def)
qed


section \<open>The invariant of the store: locations of entities, destruction\<close>

lemma entity_make_split: "entity_make (entity_index e) (entity_generation e) = e"
proof (cases e)
  case (Entity v)
  have "push_bit 32 (ucast (ucast (drop_bit 32 v) :: fecs_id) :: storage_id)
          OR (ucast (ucast v :: fecs_id) :: storage_id) = v"
    by (rule bit_word_eqI) (auto simp: bit_simps)
  with Entity show ?thesis
    by (simp add: entity_make_def entity_index_def entity_generation_def)
qed

lemma entity_live_slot:
  assumes "entity_live w e"
  shows "slot_live (w_entities w) (entity_index e)"
    and "e = entity_make (entity_index e) (generations (w_entities w) ! unat (entity_index e))"
    and "entity_valid e"
  using assms
  by (auto simp: entity_live_def world_alive_def em_alive_def slot_live_def entity_make_split
      split: if_splits)

lemma table_bound_valid:
  assumes "tid < length (s_tables (w_storage w))" "length (s_tables (w_storage w)) \<le> 2 ^ 32 - 1"
  shows "location_valid \<lparr>loc_tid = tid, loc_row = row\<rparr>"
  using assms by (simp add: location_valid_def INVALID_TABLE_def)

lemma world_inv_location:
  fixes w :: "'v world"
  assumes inv: "world_inv w" and l: "entity_live w e"
  shows "location_at w (entity_index e) = Some (world_get_location w e)"
    and "location_valid (world_get_location w e)"
    and "loc_tid (world_get_location w e) < length (s_tables (w_storage w))"
    and "loc_row (world_get_location w e)
           < length (t_entities (s_tables (w_storage w) ! loc_tid (world_get_location w e)))"
    and "t_entities (s_tables (w_storage w) ! loc_tid (world_get_location w e))
           ! loc_row (world_get_location w e) = e"
proof -
  let ?loc = "w_locations w ! unat (entity_index e)"
  from inv have lo: "locations_ok {} (w_entities w) (w_locations w)
      (map t_entities (s_tables (w_storage w)))"
    and tb: "length (s_tables (w_storage w)) \<le> 2 ^ 32 - 1"
    by (simp_all add: world_inv_def)
  note d = locations_okD1 [OF lo entity_live_slot(1) [OF l], simplified]
  from l d(1) have g: "world_get_location w e = ?loc"
    by (simp add: world_get_location_def entity_live_def world_alive_def)
  from d(1) show "location_at w (entity_index e) = Some (world_get_location w e)"
    by (simp add: g location_at_def)
  from d(2) tb show "location_valid (world_get_location w e)"
    by (simp add: g location_valid_def INVALID_TABLE_def)
  from d(2) show "loc_tid (world_get_location w e) < length (s_tables (w_storage w))"
    by (simp add: g)
  from d(2,3) show "loc_row (world_get_location w e)
           < length (t_entities (s_tables (w_storage w) ! loc_tid (world_get_location w e)))"
    by (simp add: g)
  from d(2,3,4) entity_live_slot(2) [OF l]
  show "t_entities (s_tables (w_storage w) ! loc_tid (world_get_location w e))
           ! loc_row (world_get_location w e) = e"
    by (simp add: g)
qed


lemma world_inv_destroy:
  fixes w :: "'v world"
  assumes inv: "world_inv w" and d: "world_destroy_entity w e = Some w'"
    and g: "world_alive w e \<longrightarrow> entity_live w e"
  shows "world_inv w'"
    and "world_alive w e \<longrightarrow>
       w_entities w' = em_destroy_entity (w_entities w) e
     \<and> length (s_tables (w_storage w')) = length (s_tables (w_storage w))
     \<and> map t_entities (s_tables (w_storage w'))
         = (map t_entities (s_tables (w_storage w)))
             [loc_tid (world_get_location w e) :=
                snd (entities_remove_swap
                  (t_entities (s_tables (w_storage w) ! loc_tid (world_get_location w e)))
                  (loc_row (world_get_location w e)))]"
proof -
  have "world_inv w' \<and> (world_alive w e \<longrightarrow>
       w_entities w' = em_destroy_entity (w_entities w) e
     \<and> length (s_tables (w_storage w')) = length (s_tables (w_storage w))
     \<and> map t_entities (s_tables (w_storage w'))
         = (map t_entities (s_tables (w_storage w)))
             [loc_tid (world_get_location w e) :=
                snd (entities_remove_swap
                  (t_entities (s_tables (w_storage w) ! loc_tid (world_get_location w e)))
                  (loc_row (world_get_location w e)))])"
  proof (cases "world_alive w e")
    case False
    with d have "w' = w"
      by (simp add: world_destroy_entity_def world_alive_def)
    with inv False show ?thesis
      by simp
  next
    case True
    with g have l: "entity_live w e"
      by simp
    let ?m = "w_entities w" and ?locs = "w_locations w"
    let ?ents = "map t_entities (s_tables (w_storage w))"
    let ?ix = "entity_index e"
    let ?loc = "world_get_location w e"
    let ?tid = "loc_tid ?loc" and ?row = "loc_row ?loc"
    from inv have wf: "store_wf w" and ei: "em_inv ?m"
      and cap: "length (generations ?m) \<le> 2 ^ 32 - 1"
      and tb: "length (s_tables (w_storage w)) \<le> 2 ^ 32 - 1"
      and lo: "locations_ok {} ?m ?locs ?ents"
      by (simp_all add: world_inv_def)
    from wf have ok: "world_ok w"
      by (simp add: store_wf_def)
    note wl = world_inv_location [OF inv l]
    from world_destroy_entity_effect [OF d ok True wl(1,2)] obtain swapped es' where
      em: "w_entities w' = em_destroy_entity ?m e"
      and reg: "w_registry w' = w_registry w"
      and kt: "s_key_tables (w_storage w') = s_key_tables (w_storage w)"
      and keys: "map t_key (s_tables (w_storage w')) = map t_key (s_tables (w_storage w))"
      and sw: "(swapped, es') = entities_remove_swap
           (t_entities (s_tables (w_storage w) ! ?tid)) ?row"
      and ents: "map t_entities (s_tables (w_storage w')) = ?ents[?tid := es']"
      and u: "unat ?ix < length ?locs"
      and locs: "w_locations w'
         = (if entity_valid swapped
            then ?locs[unat (entity_index swapped) := \<lparr>loc_tid = ?tid, loc_row = ?row\<rparr>]
            else ?locs)[unat ?ix := \<lparr>loc_tid = INVALID_TABLE, loc_row = 0\<rparr>]"
      by blast
    from wl(1) have le: "?locs ! unat ?ix = \<lparr>loc_tid = ?tid, loc_row = ?row\<rparr>"
      by (simp add: location_at_def split: if_splits)
    from sw wl(3) have sw': "(swapped, es') = entities_remove_swap (?ents ! ?tid) ?row"
      by simp
    from True have al: "em_alive ?m e"
      by (simp add: world_alive_def)
    have l2: "locations_ok {} (w_entities w') (w_locations w')
        (map t_entities (s_tables (w_storage w')))"
      unfolding em locs ents
      by (rule locations_ok_free [OF locations_ok_remove_row
            [OF lo entity_live_slot(1) [OF l] le cap sw'] al])
    have okw: "world_ok w'"
      by (rule world_destroy_entity_ok [OF ok d])
    from wf have rl: "\<forall>es\<in>set ?ents. \<forall>e\<in>set es. unat (entity_index e) < length ?locs"
      by (simp add: store_wf_def rows_located_alt)
    have ll: "length ?locs \<le> length (w_locations w')"
      unfolding locs by simp
    have es': "es' = snd (entities_remove_swap (t_entities (s_tables (w_storage w) ! ?tid)) ?row)"
      using sw by (simp add: entities_remove_swap_eq)
    have rows: "\<forall>es\<in>set (map t_entities (s_tables (w_storage w'))). \<forall>e\<in>set es.
          unat (entity_index e) < length (w_locations w')"
      unfolding ents
    proof (rule rows_update)
      show a: "\<forall>es\<in>set ?ents. \<forall>e\<in>set es. unat (entity_index e) < length (w_locations w')"
        by (rule rows_locs_update [OF rl ll])
      from a nth_mem [OF wl(3)]
      have "\<forall>x\<in>set (t_entities (s_tables (w_storage w) ! ?tid)).
          unat (entity_index x) < length (w_locations w')"
        by auto
      with set_entities_remove_swap [OF wl(4)]
      show "\<forall>x\<in>set es'. unat (entity_index x) < length (w_locations w')"
        unfolding es' by blast
    qed
    have wf': "store_wf w'"
      by (rule store_wf_skeleton [OF wf okw reg kt keys rows])
    from keys have len: "length (s_tables (w_storage w')) = length (s_tables (w_storage w))"
      by (metis length_map)
    from l have "entity_index e \<notin> set (fragment ?m)"
      by (simp add: entity_live_def)
    then have ei': "em_inv (em_destroy_entity ?m e)"
      by (intro em_destroy_entity_inv [OF ei]) simp
    have gl: "length (generations (em_destroy_entity ?m e)) = length (generations ?m)"
      by (simp add: em_destroy_entity_def Let_def)
    from wf' l2 tb cap ei' gl len have "world_inv w'"
      by (simp add: world_inv_def em)
    with em len ents es' show ?thesis
      by simp
  qed
  then show "world_inv w'"
    and "world_alive w e \<longrightarrow>
       w_entities w' = em_destroy_entity (w_entities w) e
     \<and> length (s_tables (w_storage w')) = length (s_tables (w_storage w))
     \<and> map t_entities (s_tables (w_storage w'))
         = (map t_entities (s_tables (w_storage w)))
             [loc_tid (world_get_location w e) :=
                snd (entities_remove_swap
                  (t_entities (s_tables (w_storage w) ! loc_tid (world_get_location w e)))
                  (loc_row (world_get_location w e)))]"
    by blast+
qed


section \<open>The invariant of the store: migration between tables\<close>

lemma world_inv_skeleton:
  fixes w :: "'v world"
  assumes inv: "world_inv w" and ok: "world_ok w'"
    and ent: "w_entities w' = w_entities w" and reg: "w_registry w' = w_registry w"
    and locs: "w_locations w' = w_locations w"
    and kt: "s_key_tables (w_storage w') = s_key_tables (w_storage w)"
    and keys: "map t_key (s_tables (w_storage w')) = map t_key (s_tables (w_storage w))"
    and ents: "map t_entities (s_tables (w_storage w')) = map t_entities (s_tables (w_storage w))"
  shows "world_inv w'"
proof -
  from inv have wf: "store_wf w"
    by (simp add: world_inv_def)
  then have "\<forall>es\<in>set (map t_entities (s_tables (w_storage w'))). \<forall>e\<in>set es.
        unat (entity_index e) < length (w_locations w')"
    unfolding ents locs by (simp add: store_wf_def rows_located_alt)
  from store_wf_skeleton [OF wf ok reg kt keys this] have wf': "store_wf w'" .
  from keys have "length (s_tables (w_storage w')) = length (s_tables (w_storage w))"
    by (metis length_map)
  with inv wf' show ?thesis
    by (simp add: world_inv_def ent locs ents)
qed

lemma world_inv_get_table:
  fixes w :: "'v world"
  assumes inv: "world_inv w"
    and g: "get_table_for_signature w ids = Some (tid, w1)"
    and reg: "\<forall>c\<in>set ids. c < length (type_infos (w_registry w))"
    and bound: "length (s_tables (w_storage w1)) \<le> 2 ^ 32 - 1"
  shows "world_inv w1"
proof -
  from inv have wf: "store_wf w"
    and lo: "locations_ok {} (w_entities w) (w_locations w)
      (map t_entities (s_tables (w_storage w)))"
    by (simp_all add: world_inv_def)
  note G = get_table_for_signature_store_wf [OF g wf reg bound]
  from G(6) lo have "locations_ok {} (w_entities w) (w_locations w)
      (map t_entities (s_tables (w_storage w1)))"
    by (auto intro: locations_ok_append_table)
  with inv G(1,2) bound show ?thesis
    by (simp add: world_inv_def)
qed

lemma world_inv_migrate:
  fixes w :: "'v world"
  assumes inv: "world_inv w" and l: "entity_live w e"
    and m: "migrate_entity_to_table w e new_tid = Some (new_row, w')"
    and ne: "loc_tid (world_get_location w e) \<noteq> new_tid"
  shows "world_inv w'"
    and "w_entities w' = w_entities w \<and> w_registry w' = w_registry w"
    and "length (s_tables (w_storage w')) = length (s_tables (w_storage w))"
    and "new_tid < length (s_tables (w_storage w))"
    and "map t_entities (s_tables (w_storage w'))
        = (map t_entities (s_tables (w_storage w)))
            [loc_tid (world_get_location w e) :=
               snd (entities_remove_swap
                 (t_entities (s_tables (w_storage w) ! loc_tid (world_get_location w e)))
                 (loc_row (world_get_location w e))),
             new_tid := t_entities (s_tables (w_storage w) ! new_tid) @ [e]]"
proof -
  let ?m = "w_entities w" and ?locs = "w_locations w"
  let ?ents = "map t_entities (s_tables (w_storage w))"
  let ?ix = "entity_index e"
  let ?loc = "world_get_location w e"
  let ?tid = "loc_tid ?loc" and ?row = "loc_row ?loc"
  from inv have wf: "store_wf w" and ei: "em_inv ?m"
    and cap: "length (generations ?m) \<le> 2 ^ 32 - 1"
    and tb: "length (s_tables (w_storage w)) \<le> 2 ^ 32 - 1"
    and lo: "locations_ok {} ?m ?locs ?ents"
    by (simp_all add: world_inv_def)
  from wf have ok: "world_ok w"
    by (simp add: store_wf_def)
  note wl = world_inv_location [OF inv l]
  note sl = entity_live_slot [OF l]
  from migrate_entity_to_table_entities [OF m ok wl(1) ne] obtain swapped es' where
    nt: "new_tid < length (s_tables (w_storage w))"
    and nr: "new_row = length (t_entities (s_tables (w_storage w) ! new_tid)) mod 2 ^ 32"
    and okw: "world_ok w'"
    and em: "w_entities w' = ?m"
    and reg: "w_registry w' = w_registry w"
    and kt: "s_key_tables (w_storage w') = s_key_tables (w_storage w)"
    and keys: "map t_key (s_tables (w_storage w')) = map t_key (s_tables (w_storage w))"
    and sw: "(swapped, es') = entities_remove_swap
          (t_entities (s_tables (w_storage w) ! ?tid)) ?row"
    and ents: "map t_entities (s_tables (w_storage w'))
        = ?ents[?tid := es', new_tid := t_entities (s_tables (w_storage w) ! new_tid) @ [e]]"
    and u: "unat ?ix < length ?locs"
    and locs: "w_locations w'
        = (if entity_valid swapped
           then ?locs[unat (entity_index swapped) := \<lparr>loc_tid = ?tid, loc_row = ?row\<rparr>]
           else ?locs)[unat ?ix := \<lparr>loc_tid = new_tid, loc_row = new_row\<rparr>]"
    by blast
  let ?locsA = "if entity_valid swapped
           then ?locs[unat (entity_index swapped) := \<lparr>loc_tid = ?tid, loc_row = ?row\<rparr>]
           else ?locs"
  from wl(1) have le: "?locs ! unat ?ix = \<lparr>loc_tid = ?tid, loc_row = ?row\<rparr>"
    by (simp add: location_at_def split: if_splits)
  from sw wl(3) have sw': "(swapped, es') = entities_remove_swap (?ents ! ?tid) ?row"
    by simp
  have l1: "locations_ok {?ix} ?m ?locsA (?ents[?tid := es'])"
    by (rule locations_ok_remove_row [OF lo sl(1) le cap sw'])
  from u have uA: "unat ?ix < length ?locsA"
    by simp
  from nt have ntA: "new_tid < length (?ents[?tid := es'])"
    by simp
  from ne nt have nth: "?ents[?tid := es'] ! new_tid = t_entities (s_tables (w_storage w) ! new_tid)"
    by simp
  from locations_ok_rows_bound [OF l1 ntA sl(1)] cap
  have "length (t_entities (s_tables (w_storage w) ! new_tid)) < 2 ^ 32"
    unfolding nth by simp
  with nr have nr': "new_row = length (t_entities (s_tables (w_storage w) ! new_tid))"
    by simp
  from locations_ok_append_row [OF l1 sl(1) uA ntA]
  have l2: "locations_ok {} (w_entities w') (w_locations w')
      (map t_entities (s_tables (w_storage w')))"
    unfolding ents locs em nth nr' sl(2) [symmetric] .
  from wf have rl: "\<forall>es\<in>set ?ents. \<forall>e\<in>set es. unat (entity_index e) < length ?locs"
    by (simp add: store_wf_def rows_located_alt)
  have ll: "length ?locs \<le> length (w_locations w')"
    unfolding locs by simp
  have es': "es' = snd (entities_remove_swap (t_entities (s_tables (w_storage w) ! ?tid)) ?row)"
    using sw by (simp add: entities_remove_swap_eq)
  have a: "\<forall>es\<in>set ?ents. \<forall>e\<in>set es. unat (entity_index e) < length (w_locations w')"
    by (rule rows_locs_update [OF rl ll])
  have rows: "\<forall>es\<in>set (map t_entities (s_tables (w_storage w'))). \<forall>e\<in>set es.
        unat (entity_index e) < length (w_locations w')"
    unfolding ents
  proof (rule rows_update [OF rows_update [OF a]])
    from a nth_mem [OF wl(3)]
    have "\<forall>x\<in>set (t_entities (s_tables (w_storage w) ! ?tid)).
        unat (entity_index x) < length (w_locations w')"
      by auto
    with set_entities_remove_swap [OF wl(4)]
    show "\<forall>x\<in>set es'. unat (entity_index x) < length (w_locations w')"
      unfolding es' by blast
    from a nth_mem [OF nt]
    have "\<forall>x\<in>set (t_entities (s_tables (w_storage w) ! new_tid)).
        unat (entity_index x) < length (w_locations w')"
      by auto
    with u ll show "\<forall>x\<in>set (t_entities (s_tables (w_storage w) ! new_tid) @ [e]).
        unat (entity_index x) < length (w_locations w')"
      by auto
  qed
  have wf': "store_wf w'"
    by (rule store_wf_skeleton [OF wf okw reg kt keys rows])
  from keys show len: "length (s_tables (w_storage w')) = length (s_tables (w_storage w))"
    by (metis length_map)
  with wf' l2 tb cap ei show "world_inv w'"
    by (simp add: world_inv_def em)
  from em reg show "w_entities w' = w_entities w \<and> w_registry w' = w_registry w"
    by simp
  show "new_tid < length (s_tables (w_storage w))"
    by (rule nt)
  from ents show "map t_entities (s_tables (w_storage w'))
        = ?ents[?tid := snd (entities_remove_swap
                 (t_entities (s_tables (w_storage w) ! ?tid)) ?row),
             new_tid := t_entities (s_tables (w_storage w) ! new_tid) @ [e]]"
    by (simp add: es')
qed


section \<open>The invariant of the store: adding a component\<close>

lemma migrate_entity_to_table_length:
  fixes w :: "'v world"
  assumes m: "migrate_entity_to_table w e new_tid = Some (new_row, w')"
  shows "length (s_tables (w_storage w')) = length (s_tables (w_storage w))"
proof -
  obtain loc :: location and old_table new_table :: "'v table"
    and r new_table' w2 w3 old_table3 swapped old_table' w5 w6
    where 3: "for_each (migrate_move (loc_tid loc) (loc_row loc) new_tid new_row)
              (intersect_sorted_ids (t_key old_table) (t_key new_table))
              (set_table w new_tid new_table') = Some w2"
    and 4: "for_each (migrate_destroy (loc_tid loc) (loc_row loc) new_tid) (t_key old_table) w2 = Some w3"
    and 7: "fixup_swapped (set_table w3 (loc_tid loc) old_table') swapped
          \<lparr>loc_tid = loc_tid loc, loc_row = loc_row loc\<rparr> = Some w5"
    and 8: "set_location w5 (entity_index e) \<lparr>loc_tid = new_tid, loc_row = new_row\<rparr> = Some w6"
    and 9: "w' = bump_version w6"
    using migrate_entity_to_table_Some [OF m] by blast
  have "length (s_tables (w_storage w2)) = length (s_tables (w_storage w))"
    using same_shape_length [OF for_each_shape [OF 3 migrate_move_shape]] by simp
  moreover have "length (s_tables (w_storage w3)) = length (s_tables (w_storage w2))"
    by (rule same_shape_length [OF for_each_shape [OF 4 migrate_destroy_shape]])
  ultimately show ?thesis
    unfolding 9 using fixup_swapped_storage [OF 7] set_location_storage [OF 8] by simp
qed

lemma world_inv_bump: "world_inv (bump_version w) = world_inv w"
  by (simp add: world_inv_def store_wf_def world_ok_def keys_registered_def rows_located_def)

lemma get_table_for_signature_location:
  assumes "get_table_for_signature w ids = Some (tid, w1)"
  shows "world_get_location w1 e = world_get_location w e"
    and "entity_live w1 e = entity_live w e"
  using get_table_for_signature_Some [OF assms]
  by (auto simp: world_get_location_def entity_live_def world_alive_def Let_def)

lemma distinct_remove_nth:
  assumes "distinct xs" "i < length xs"
  shows "xs ! i \<notin> set (take i xs @ drop (Suc i) xs)"
proof -
  from assms(2) have "xs = take i xs @ xs ! i # drop (Suc i) xs"
    by (rule id_take_nth_drop)
  with assms(1) have "distinct (take i xs @ xs ! i # drop (Suc i) xs)"
    by simp
  then show ?thesis
    by auto
qed

lemma world_inv_add:
  fixes w :: "'v world"
  assumes inv: "world_inv w" and add: "world_add_component w e ty v = Some w'"
    and g: "world_alive w e \<longrightarrow> entity_live w e"
    and bound: "length (s_tables (w_storage w')) \<le> 2 ^ 32 - 1"
  shows "world_inv w'"
    and "w' \<noteq> w \<longrightarrow>
      loc_tid (world_get_location w e) < length (s_tables (w_storage w'))
    \<and> t_entities (s_tables (w_storage w') ! loc_tid (world_get_location w e))
       = snd (entities_remove_swap
           (t_entities (s_tables (w_storage w) ! loc_tid (world_get_location w e)))
           (loc_row (world_get_location w e)))"
proof -
  let ?T = "s_tables (w_storage w)"
  let ?loc = "world_get_location w e"
  let ?tid = "loc_tid ?loc" and ?row = "loc_row ?loc"
  have "world_inv w' \<and> (w' \<noteq> w \<longrightarrow> ?tid < length (s_tables (w_storage w'))
    \<and> t_entities (s_tables (w_storage w') ! ?tid)
       = snd (entities_remove_swap (t_entities (?T ! ?tid)) ?row))"
  proof (cases "world_alive w e")
    case False
    with add have "w' = w"
      by (simp add: world_add_component_def)
    with inv show ?thesis
      by simp
  next
    case True
    with g have l: "entity_live w e"
      by simp
    from inv have wf: "store_wf w"
      by (simp add: world_inv_def)
    then have ok: "world_ok w"
      by (simp add: store_wf_def)
    note wl = world_inv_location [OF inv l]
    from world_add_component_Some [OF add True] wl(1) obtain cid where
      reg: "registry_get_id (w_registry w) ty = Some cid"
      and rest: "if table_has (?T ! ?tid) cid then w' = w
        else \<exists>new_tid w1 new_row w2 new_table new_table'.
            get_table_for_signature w (t_key (?T ! ?tid) @ [cid]) = Some (new_tid, w1)
          \<and> migrate_entity_to_table w1 e new_tid = Some (new_row, w2)
          \<and> storage_get_table (w_storage w2) new_tid = Some new_table
          \<and> (case v of
                Some x \<Rightarrow> table_copy_construct_at new_table new_row cid x
              | None \<Rightarrow> table_default_construct_at new_table new_row cid) = Some new_table'
          \<and> w' = bump_version (set_table w2 new_tid new_table')"
      by (auto simp: storage_get_table_Some)
    show ?thesis
    proof (cases "table_has (?T ! ?tid) cid")
      case True
      with rest inv show ?thesis
        by simp
    next
      case False
      with rest obtain new_tid w1 new_row w2 new_table new_table' where
        gts: "get_table_for_signature w (t_key (?T ! ?tid) @ [cid]) = Some (new_tid, w1)"
        and mig: "migrate_entity_to_table w1 e new_tid = Some (new_row, w2)"
        and nt: "storage_get_table (w_storage w2) new_tid = Some new_table"
        and con: "(case v of
                Some x \<Rightarrow> table_copy_construct_at new_table new_row cid x
              | None \<Rightarrow> table_default_construct_at new_table new_row cid) = Some new_table'"
        and w': "w' = bump_version (set_table w2 new_tid new_table')"
        by auto
      let ?T1 = "s_tables (w_storage w1)" and ?T2 = "s_tables (w_storage w2)"
      have len2: "length ?T2 = length ?T1"
        by (rule migrate_entity_to_table_length [OF mig])
      with bound have b1: "length ?T1 \<le> 2 ^ 32 - 1"
        by (simp add: w')
      from wf wl(3) reg
      have rg: "\<forall>c\<in>set (t_key (?T ! ?tid) @ [cid]). c < length (type_infos (w_registry w))"
        using keys_registered_nth [of w ?tid] registry_ok_get_id [of "w_registry w" ty cid]
        by (auto simp: store_wf_def)
      have inv1: "world_inv w1"
        by (rule world_inv_get_table [OF inv gts rg b1])
      note G = get_table_for_signature_store_wf [OF gts wf rg b1]
      note L = get_table_for_signature_location [OF gts, of e]
      have old1: "?T1 ! ?tid = ?T ! ?tid"
        using arg_cong [OF G(5), of "\<lambda>xs. xs ! ?tid"] wl(3) by simp
      have "cid \<in> set (t_key (?T1 ! new_tid))"
        by (simp add: G(4) make_archetype_key_canonical)
      with False have ne: "loc_tid (world_get_location w1 e) \<noteq> new_tid"
        unfolding L by (auto simp: old1 [symmetric] table_has_def key_contains_def)
      from l have l1: "entity_live w1 e"
        by (simp add: L)
      note M = world_inv_migrate [OF inv1 l1 mig ne, unfolded L old1]
      from nt have nt_def: "new_table = ?T2 ! new_tid" and ntl: "new_tid < length ?T2"
        by (simp_all add: storage_get_table_Some)
      from table_construct_Some [OF con] obtain x where
        wr: "table_write new_table new_row cid (Some x) = Some new_table'"
        by blast
      note f = table_write_fields [OF wr]
      have ok': "world_ok w'"
        by (rule world_add_component_ok [OF ok add])
      have inv': "world_inv w'"
      proof (rule world_inv_skeleton [OF M(1) ok'])
        show "map t_key (s_tables (w_storage w')) = map t_key ?T2"
          unfolding w' by (simp add: map_update_same f nt_def)
        show "map t_entities (s_tables (w_storage w')) = map t_entities ?T2"
          unfolding w' by (simp add: map_update_same f nt_def)
      qed (simp_all add: w')
      from ne have ne': "?tid \<noteq> new_tid"
        by (simp add: L)
      from wl(3) M(3) G(5) have t2: "?tid < length ?T2"
        by (metis len2 length_take min.absorb2 nat_le_linear take_all order_less_le_trans
            less_le_not_le)
      have "t_entities (?T2 ! ?tid)
          = snd (entities_remove_swap (t_entities (?T ! ?tid)) ?row)"
        using arg_cong [OF M(5), of "\<lambda>xs. xs ! ?tid"] t2 ne' M(3) by simp
      with ne' t2 inv' show ?thesis
        by (simp add: w')
    qed
  qed
  then show "world_inv w'"
    and "w' \<noteq> w \<longrightarrow> ?tid < length (s_tables (w_storage w'))
    \<and> t_entities (s_tables (w_storage w') ! ?tid)
       = snd (entities_remove_swap (t_entities (?T ! ?tid)) ?row)"
    by blast+
qed


section \<open>The invariant of the store: removing a component, reserving rows\<close>

lemma world_inv_remove:
  fixes w :: "'v world"
  assumes inv: "world_inv w" and rem: "world_remove_component w e ty = Some w'"
    and g: "world_alive w e \<longrightarrow> entity_live w e"
    and bound: "length (s_tables (w_storage w')) \<le> 2 ^ 32 - 1"
  shows "world_inv w'"
    and "w' \<noteq> w \<longrightarrow>
      loc_tid (world_get_location w e) < length (s_tables (w_storage w'))
    \<and> t_entities (s_tables (w_storage w') ! loc_tid (world_get_location w e))
       = snd (entities_remove_swap
           (t_entities (s_tables (w_storage w) ! loc_tid (world_get_location w e)))
           (loc_row (world_get_location w e)))"
proof -
  let ?T = "s_tables (w_storage w)"
  let ?loc = "world_get_location w e"
  let ?tid = "loc_tid ?loc" and ?row = "loc_row ?loc"
  have "world_inv w' \<and> (w' \<noteq> w \<longrightarrow> ?tid < length (s_tables (w_storage w'))
    \<and> t_entities (s_tables (w_storage w') ! ?tid)
       = snd (entities_remove_swap (t_entities (?T ! ?tid)) ?row))"
  proof (cases "world_alive w e")
    case False
    with rem have "w' = w"
      by (simp add: world_remove_component_def)
    with inv show ?thesis
      by simp
  next
    case True
    with g have l: "entity_live w e"
      by simp
    from inv have wf: "store_wf w"
      by (simp add: world_inv_def)
    then have ok: "world_ok w"
      by (simp add: store_wf_def)
    note wl = world_inv_location [OF inv l]
    let ?key = "t_key (?T ! ?tid)"
    from world_remove_component_Some [OF rem True] wl(1) obtain cid where
      reg: "registry_get_id (w_registry w) ty = Some cid"
      and rest: "if \<not> table_has (?T ! ?tid) cid then w' = w
        else \<exists>new_tid w1 new_row w2.
            lower_bound ?key cid < length ?key
          \<and> ?key ! lower_bound ?key cid = cid
          \<and> get_table_for_signature w
                (take (lower_bound ?key cid) ?key @ drop (Suc (lower_bound ?key cid)) ?key)
              = Some (new_tid, w1)
          \<and> migrate_entity_to_table w1 e new_tid = Some (new_row, w2)
          \<and> w' = bump_version w2"
      by (auto simp: storage_get_table_Some)
    show ?thesis
    proof (cases "table_has (?T ! ?tid) cid")
      case False
      with rest inv show ?thesis
        by simp
    next
      case has: True
      let ?i = "lower_bound ?key cid"
      let ?ids = "take ?i ?key @ drop (Suc ?i) ?key"
      from has rest obtain new_tid w1 new_row w2 where
        i: "?i < length ?key" "?key ! ?i = cid"
        and gts: "get_table_for_signature w ?ids = Some (new_tid, w1)"
        and mig: "migrate_entity_to_table w1 e new_tid = Some (new_row, w2)"
        and w': "w' = bump_version w2"
        by auto
      let ?T1 = "s_tables (w_storage w1)" and ?T2 = "s_tables (w_storage w2)"
      have len2: "length ?T2 = length ?T1"
        by (rule migrate_entity_to_table_length [OF mig])
      with bound have b1: "length ?T1 \<le> 2 ^ 32 - 1"
        by (simp add: w')
      have sub: "set ?ids \<subseteq> set ?key"
        using set_take_subset [of ?i ?key] set_drop_subset [of "Suc ?i" ?key] by auto
      from wf wl(3) have "\<forall>c\<in>set ?key. c < length (type_infos (w_registry w))"
        using keys_registered_nth [of w ?tid] by (simp add: store_wf_def)
      with sub have rg: "\<forall>c\<in>set ?ids. c < length (type_infos (w_registry w))"
        by blast
      have inv1: "world_inv w1"
        by (rule world_inv_get_table [OF inv gts rg b1])
      note G = get_table_for_signature_store_wf [OF gts wf rg b1]
      note L = get_table_for_signature_location [OF gts, of e]
      have old1: "?T1 ! ?tid = ?T ! ?tid"
        using arg_cong [OF G(5), of "\<lambda>xs. xs ! ?tid"] wl(3) by simp
      from world_ok_nth [OF ok wl(3)] have "distinct ?key"
        by (simp add: table_ok_def)
      from distinct_remove_nth [OF this i(1)] i(2)
      have "cid \<notin> set (t_key (?T1 ! new_tid))"
        by (simp add: G(4) make_archetype_key_canonical)
      with has have ne: "loc_tid (world_get_location w1 e) \<noteq> new_tid"
        unfolding L by (auto simp: old1 [symmetric] table_has_def key_contains_def)
      from l have l1: "entity_live w1 e"
        by (simp add: L)
      note M = world_inv_migrate [OF inv1 l1 mig ne, unfolded L old1]
      from M(1) have inv': "world_inv w'"
        by (simp add: w' world_inv_bump)
      from ne have ne': "?tid \<noteq> new_tid"
        by (simp add: L)
      from wl(3) M(3) G(5) have t2: "?tid < length ?T2"
        by (metis len2 length_take min.absorb2 nat_le_linear take_all order_less_le_trans
            less_le_not_le)
      have "t_entities (?T2 ! ?tid)
          = snd (entities_remove_swap (t_entities (?T ! ?tid)) ?row)"
        using arg_cong [OF M(5), of "\<lambda>xs. xs ! ?tid"] t2 ne' M(3) by simp
      with ne' t2 inv' show ?thesis
        by (simp add: w')
    qed
  qed
  then show "world_inv w'"
    and "w' \<noteq> w \<longrightarrow> ?tid < length (s_tables (w_storage w'))
    \<and> t_entities (s_tables (w_storage w') ! ?tid)
       = snd (entities_remove_swap (t_entities (?T ! ?tid)) ?row)"
    by blast+
qed

lemma world_inv_reserve:
  fixes w :: "'v world"
  assumes inv: "world_inv w" and r: "world_reserve w tys n = Some w'"
    and bound: "length (s_tables (w_storage w')) \<le> 2 ^ 32 - 1"
  shows "world_inv w'"
proof -
  from world_reserve_Some [OF r] obtain ids tid s and t t' :: "'v table" where
    ids: "map_all (registry_get_id (w_registry w)) tys = Some ids"
    and g: "storage_get_or_create_table (w_registry w) (w_storage w) (make_archetype_key ids)
        = Some (tid, s)"
    and t: "storage_get_table s tid = Some t"
    and tr: "table_reserve t n = Some t'"
    and w': "w' = bump_version (w\<lparr>w_storage := storage_set_table s tid t'\<rparr>)"
    by blast
  let ?w1 = "w\<lparr>w_storage := s\<rparr>"
  from inv have wf: "store_wf w"
    by (simp add: world_inv_def)
  then have ok: "world_ok w"
    by (simp add: store_wf_def)
  have gts: "get_table_for_signature w ids = Some (tid, ?w1)"
    by (simp add: get_table_for_signature_def g)
  have w'': "w' = bump_version (set_table ?w1 tid t')"
    by (simp add: w' set_table_def)
  from bound have b1: "length (s_tables (w_storage ?w1)) \<le> 2 ^ 32 - 1"
    by (simp add: w' storage_set_table_def)
  have rg: "\<forall>c\<in>set ids. c < length (type_infos (w_registry w))"
  proof
    fix c
    assume "c \<in> set ids"
    then obtain i where i: "i < length ids" "ids ! i = c"
      by (auto simp: in_set_conv_nth)
    with map_all_length [OF ids] map_all_nth [OF ids, of i]
    have "registry_get_id (w_registry w) (tys ! i) = Some c"
      by simp
    with wf show "c < length (type_infos (w_registry w))"
      by (auto simp: store_wf_def dest: registry_ok_get_id)
  qed
  have inv1: "world_inv ?w1"
    by (rule world_inv_get_table [OF inv gts rg b1])
  then have ok1: "world_ok ?w1"
    by (simp add: world_inv_def store_wf_def)
  from t have t_def: "t = s_tables s ! tid" and tl: "tid < length (s_tables s)"
    by (simp_all add: storage_get_table_Some)
  from world_ok_nth [OF ok1, of tid] tl have "table_ok t"
    by (simp add: t_def)
  note p = table_reserve_pres [OF this tr]
  have ok': "world_ok w'"
    by (rule world_reserve_ok [OF ok r])
  show ?thesis
  proof (rule world_inv_skeleton [OF inv1 ok'])
    show "map t_key (s_tables (w_storage w')) = map t_key (s_tables (w_storage ?w1))"
      unfolding w'' by (simp add: map_update_same p t_def)
    show "map t_entities (s_tables (w_storage w')) = map t_entities (s_tables (w_storage ?w1))"
      unfolding w'' by (simp add: map_update_same p t_def)
  qed (simp_all add: w'')
qed



section \<open>Locations and rows agree\<close>

lemma world_run_reachable: "world_run w \<Longrightarrow> world_reachable w"
  by (induction rule: world_run.induct) (auto intro: world_reachable.intros)

lemma world_run_inv: "world_run w \<Longrightarrow> world_inv w"
proof (induction rule: world_run.induct)
  case (run_new w)
  then show ?case by (rule world_inv_new)
next
  case (run_register w ty sz al dflt)
  then show ?case by (blast intro: world_inv_register)
next
  case (run_reserve w tys count w')
  then show ?case by (blast intro: world_inv_reserve)
next
  case (run_create w e w')
  then show ?case by (blast intro: world_inv_create(1))
next
  case (run_destroy w e w')
  then show ?case by (blast intro: world_inv_destroy(1))
next
  case (run_add w e ty opt_value w')
  then show ?case by (blast intro: world_inv_add(1))
next
  case (run_remove w e ty w')
  then show ?case by (blast intro: world_inv_remove(1))
qed

lemma world_run_store_ok: "world_run w \<Longrightarrow> within_capacity w \<Longrightarrow> store_ok w"
  using world_run_inv [of w] by (simp add: store_ok_def world_inv_def)






section \<open>The small store is reached by the public operations\<close>

lemma probe_free_unfold:
  "probe_free keys msk slot fuel =
     (if fuel = 0 then None
      else if unat slot < length keys
           then if keys ! unat slot \<noteq> INVALID_ID
                then probe_free keys msk ((slot + 1) AND msk) (fuel - 1)
                else Some slot
           else None)"
  by (cases fuel) simp_all

lemma replicate_8: "replicate 8 x = [x, x, x, x, x, x, x, x]"
  by (simp add: numeral_Bit0 replicate_add)

lemma replicate_4: "replicate 4 x = [x, x, x, x]"
  by (simp add: numeral_Bit0 replicate_add)

lemma replicate_2: "replicate 2 x = [x, x]"
  by (simp add: numeral_Bit0 replicate_add)

lemma word32_numeral_le_1: "\<not> (2 :: 32 word) \<le> 1" "\<not> (4 :: 32 word) \<le> 1" "\<not> (6 :: 32 word) \<le> 1"
  by (simp_all add: word_le_nat_alt)

lemmas lookup_eval =
  table_build_lookup_def next_pow2_u32_def Let_def hash_cid_def probe_free_unfold
  INVALID_ID_def replicate_8 replicate_4 replicate_2 word32_numeral_le_1

lemmas create_table_eval =
  storage_get_or_create_table_def storage_create_table_def registry_get_info_def
  table_finalize_schema_def make_archetype_key_def canonicalise_def column_new_def

lemma entity_valid_make_0: "entity_valid (entity_make 0 0)"
  by (simp add: entity_valid_def entity_make_def INVALID_ENTITY_def)

lemma entity_valid_make_1: "entity_valid (entity_make 1 0)"
  by (simp add: entity_valid_def entity_make_def INVALID_ENTITY_def)

lemma entity_invalid: "\<not> entity_valid (Entity INVALID_ENTITY)"
  by (simp add: entity_valid_def)

lemmas migrate_eval =
  migrate_entity_to_table_def location_at_def location_valid_def entity_index_make
  INVALID_TABLE_def storage_get_table_def table_add_row_uninitialized_def
  column_add_uninitialized_def column_reserve_def column_grow_to_def
  replicate_8 set_table_def storage_set_table_def Let_def
  migrate_move_def migrate_destroy_def table_read_def table_write_def
  table_get_column_def table_column_index_def lower_bound_def column_read_def column_write_def
  table_has_def key_contains_def
  table_remove_row_swap_nodestroy_def table_size_def entities_remove_swap_def
  column_remove_swap_nodestroy_def fixup_swapped_def set_location_def entity_valid_make_0
  entity_valid_make_1 entity_invalid bump_version_def

lemmas add_eval =
  world_add_component_def world_alive_def em_alive_def entity_index_make
  entity_generation_make entity_valid_make_0 entity_valid_make_1 registry_get_id_def
  location_at_def location_valid_def INVALID_TABLE_def storage_get_table_def
  table_has_def key_contains_def

lemmas construct_eval =
  storage_get_table_def table_copy_construct_at_def table_write_def table_get_column_def
  table_column_index_def lower_bound_def column_write_def set_table_def storage_set_table_def
  bump_version_def

lemma small_world_run:
  "world_run two_row_world \<and> world_run small_world
   \<and> (\<exists>w'. world_add_component two_row_world (entity_make 0 0) 100 (Some 42) = Some w'
          \<and> w_version w' = 5 \<and> length (s_tables (w_storage w')) = 3)"
proof -
  let ?s0 = "\<lparr>w_entities = \<lparr>generations = [], fragment = [], alive_count = 0\<rparr>,
               w_registry = \<lparr>type_ids = [], type_infos = []\<rparr>,
               w_storage =
                 \<lparr>s_schema_version = 1, s_key_tables = [([], 0)],
                  s_tables =
                    [\<lparr>t_id = 0, t_key = [], t_entities = [], t_columns = [], t_lookup_keys = [],
                      t_lookup_vals = [], t_lookup_mask = 0\<rparr>]\<rparr>,
               w_empty_table = 0, w_locations = [], w_version = 0\<rparr> :: nat world"
  let ?s1 = "\<lparr>w_entities = \<lparr>generations = [], fragment = [], alive_count = 0\<rparr>,
               w_registry =
                 \<lparr>type_ids = [(100, 0)], type_infos = [example_info 0 100 7]\<rparr>,
               w_storage =
                 \<lparr>s_schema_version = 1, s_key_tables = [([], 0)],
                  s_tables =
                    [\<lparr>t_id = 0, t_key = [], t_entities = [], t_columns = [], t_lookup_keys = [],
                      t_lookup_vals = [], t_lookup_mask = 0\<rparr>]\<rparr>,
               w_empty_table = 0, w_locations = [], w_version = 0\<rparr> :: nat world"
  let ?s2 = "\<lparr>w_entities = \<lparr>generations = [], fragment = [], alive_count = 0\<rparr>,
               w_registry =
                 \<lparr>type_ids = [(101, 1), (100, 0)],
                  type_infos = [example_info 0 100 7, example_info 1 101 8]\<rparr>,
               w_storage =
                 \<lparr>s_schema_version = 1, s_key_tables = [([], 0)],
                  s_tables =
                    [\<lparr>t_id = 0, t_key = [], t_entities = [], t_columns = [], t_lookup_keys = [],
                      t_lookup_vals = [], t_lookup_mask = 0\<rparr>]\<rparr>,
               w_empty_table = 0, w_locations = [], w_version = 0\<rparr> :: nat world"
  let ?s3 = "\<lparr>w_entities = \<lparr>generations = [], fragment = [], alive_count = 0\<rparr>,
               w_registry =
                 \<lparr>type_ids = [(102, 2), (101, 1), (100, 0)],
                  type_infos =
                    [example_info 0 100 7, example_info 1 101 8, example_info 2 102 9]\<rparr>,
               w_storage =
                 \<lparr>s_schema_version = 1, s_key_tables = [([], 0)],
                  s_tables =
                    [\<lparr>t_id = 0, t_key = [], t_entities = [], t_columns = [], t_lookup_keys = [],
                      t_lookup_vals = [], t_lookup_mask = 0\<rparr>]\<rparr>,
               w_empty_table = 0, w_locations = [], w_version = 0\<rparr> :: nat world"
  let ?s4 = "\<lparr>w_entities = \<lparr>generations = [], fragment = [], alive_count = 0\<rparr>,
               w_registry =
                 \<lparr>type_ids = [(102, 2), (101, 1), (100, 0)],
                  type_infos =
                    [example_info 0 100 7, example_info 1 101 8, example_info 2 102 9]\<rparr>,
               w_storage =
                 \<lparr>s_schema_version = 2, s_key_tables = [([0, 1], 1), ([], 0)],
                  s_tables =
                    [\<lparr>t_id = 0, t_key = [], t_entities = [], t_columns = [], t_lookup_keys = [],
                      t_lookup_vals = [], t_lookup_mask = 0\<rparr>,
                     \<lparr>t_id = 1, t_key = [0, 1], t_entities = [],
                      t_columns =
                        [\<lparr>c_info = example_info 0 100 7, c_data = Some [None, None], c_size = 0,
                          c_capacity = 2\<rparr>,
                         \<lparr>c_info = example_info 1 101 8, c_data = Some [None, None], c_size = 0,
                          c_capacity = 2\<rparr>],
                      t_lookup_keys = [0, 1, 4294967295, 4294967295],
                      t_lookup_vals = [0, 1, 0, 0], t_lookup_mask = 3\<rparr>]\<rparr>,
               w_empty_table = 0, w_locations = [], w_version = 1\<rparr> :: nat world"
  let ?s5 = "\<lparr>w_entities = \<lparr>generations = [0], fragment = [], alive_count = 1\<rparr>,
               w_registry =
                 \<lparr>type_ids = [(102, 2), (101, 1), (100, 0)],
                  type_infos =
                    [example_info 0 100 7, example_info 1 101 8, example_info 2 102 9]\<rparr>,
               w_storage =
                 \<lparr>s_schema_version = 2, s_key_tables = [([0, 1], 1), ([], 0)],
                  s_tables =
                    [\<lparr>t_id = 0, t_key = [], t_entities = [entity_make 0 0], t_columns = [],
                      t_lookup_keys = [], t_lookup_vals = [], t_lookup_mask = 0\<rparr>,
                     \<lparr>t_id = 1, t_key = [0, 1], t_entities = [],
                      t_columns =
                        [\<lparr>c_info = example_info 0 100 7, c_data = Some [None, None], c_size = 0,
                          c_capacity = 2\<rparr>,
                         \<lparr>c_info = example_info 1 101 8, c_data = Some [None, None], c_size = 0,
                          c_capacity = 2\<rparr>],
                      t_lookup_keys = [0, 1, 4294967295, 4294967295],
                      t_lookup_vals = [0, 1, 0, 0], t_lookup_mask = 3\<rparr>]\<rparr>,
               w_empty_table = 0, w_locations = [\<lparr>loc_tid = 0, loc_row = 0\<rparr>],
               w_version = 2\<rparr> :: nat world"
  let ?s6 = "\<lparr>w_entities = \<lparr>generations = [0, 0], fragment = [], alive_count = 2\<rparr>,
               w_registry =
                 \<lparr>type_ids = [(102, 2), (101, 1), (100, 0)],
                  type_infos =
                    [example_info 0 100 7, example_info 1 101 8, example_info 2 102 9]\<rparr>,
               w_storage =
                 \<lparr>s_schema_version = 2, s_key_tables = [([0, 1], 1), ([], 0)],
                  s_tables =
                    [\<lparr>t_id = 0, t_key = [], t_entities = [entity_make 0 0, entity_make 1 0],
                      t_columns = [], t_lookup_keys = [], t_lookup_vals = [], t_lookup_mask = 0\<rparr>,
                     \<lparr>t_id = 1, t_key = [0, 1], t_entities = [],
                      t_columns =
                        [\<lparr>c_info = example_info 0 100 7, c_data = Some [None, None], c_size = 0,
                          c_capacity = 2\<rparr>,
                         \<lparr>c_info = example_info 1 101 8, c_data = Some [None, None], c_size = 0,
                          c_capacity = 2\<rparr>],
                      t_lookup_keys = [0, 1, 4294967295, 4294967295],
                      t_lookup_vals = [0, 1, 0, 0], t_lookup_mask = 3\<rparr>]\<rparr>,
               w_empty_table = 0,
               w_locations =
                 [\<lparr>loc_tid = 0, loc_row = 0\<rparr>,
                  \<lparr>loc_tid = 0, loc_row = 1\<rparr>],
               w_version = 3\<rparr> :: nat world"
  let ?s6a = "\<lparr>w_entities = \<lparr>generations = [0, 0], fragment = [], alive_count = 2\<rparr>,
               w_registry =
                 \<lparr>type_ids = [(102, 2), (101, 1), (100, 0)],
                  type_infos =
                    [example_info 0 100 7, example_info 1 101 8, example_info 2 102 9]\<rparr>,
               w_storage =
                 \<lparr>s_schema_version = 3, s_key_tables = [([0], 2), ([0, 1], 1), ([], 0)],
                  s_tables =
                    [\<lparr>t_id = 0, t_key = [], t_entities = [entity_make 0 0, entity_make 1 0],
                      t_columns = [], t_lookup_keys = [], t_lookup_vals = [], t_lookup_mask = 0\<rparr>,
                     \<lparr>t_id = 1, t_key = [0, 1], t_entities = [],
                      t_columns =
                        [\<lparr>c_info = example_info 0 100 7, c_data = Some [None, None], c_size = 0,
                          c_capacity = 2\<rparr>,
                         \<lparr>c_info = example_info 1 101 8, c_data = Some [None, None], c_size = 0,
                          c_capacity = 2\<rparr>],
                      t_lookup_keys = [0, 1, 4294967295, 4294967295],
                      t_lookup_vals = [0, 1, 0, 0], t_lookup_mask = 3\<rparr>,
                     \<lparr>t_id = 2, t_key = [0], t_entities = [],
                      t_columns =
                        [\<lparr>c_info = example_info 0 100 7, c_data = None, c_size = 0,
                          c_capacity = 0\<rparr>],
                      t_lookup_keys = [0, 4294967295], t_lookup_vals = [0, 0], t_lookup_mask = 1\<rparr>]\<rparr>,
               w_empty_table = 0,
               w_locations =
                 [\<lparr>loc_tid = 0, loc_row = 0\<rparr>,
                  \<lparr>loc_tid = 0, loc_row = 1\<rparr>],
               w_version = 3\<rparr> :: nat world"
  let ?s6b = "\<lparr>w_entities = \<lparr>generations = [0, 0], fragment = [], alive_count = 2\<rparr>,
               w_registry =
                 \<lparr>type_ids = [(102, 2), (101, 1), (100, 0)],
                  type_infos =
                    [example_info 0 100 7, example_info 1 101 8, example_info 2 102 9]\<rparr>,
               w_storage =
                 \<lparr>s_schema_version = 3, s_key_tables = [([0], 2), ([0, 1], 1), ([], 0)],
                  s_tables =
                    [\<lparr>t_id = 0, t_key = [], t_entities = [entity_make 1 0], t_columns = [],
                      t_lookup_keys = [], t_lookup_vals = [], t_lookup_mask = 0\<rparr>,
                     \<lparr>t_id = 1, t_key = [0, 1], t_entities = [],
                      t_columns =
                        [\<lparr>c_info = example_info 0 100 7, c_data = Some [None, None], c_size = 0,
                          c_capacity = 2\<rparr>,
                         \<lparr>c_info = example_info 1 101 8, c_data = Some [None, None], c_size = 0,
                          c_capacity = 2\<rparr>],
                      t_lookup_keys = [0, 1, 4294967295, 4294967295],
                      t_lookup_vals = [0, 1, 0, 0], t_lookup_mask = 3\<rparr>,
                     \<lparr>t_id = 2, t_key = [0], t_entities = [entity_make 0 0],
                      t_columns =
                        [\<lparr>c_info = example_info 0 100 7,
                          c_data = Some [None, None, None, None, None, None, None, None],
                          c_size = 1, c_capacity = 8\<rparr>],
                      t_lookup_keys = [0, 4294967295], t_lookup_vals = [0, 0], t_lookup_mask = 1\<rparr>]\<rparr>,
               w_empty_table = 0,
               w_locations =
                 [\<lparr>loc_tid = 2, loc_row = 0\<rparr>,
                  \<lparr>loc_tid = 0, loc_row = 0\<rparr>],
               w_version = 4\<rparr> :: nat world"
  let ?s7 = "\<lparr>w_entities = \<lparr>generations = [0, 0], fragment = [], alive_count = 2\<rparr>,
               w_registry =
                 \<lparr>type_ids = [(102, 2), (101, 1), (100, 0)],
                  type_infos =
                    [example_info 0 100 7, example_info 1 101 8, example_info 2 102 9]\<rparr>,
               w_storage =
                 \<lparr>s_schema_version = 3, s_key_tables = [([0], 2), ([0, 1], 1), ([], 0)],
                  s_tables =
                    [\<lparr>t_id = 0, t_key = [], t_entities = [entity_make 1 0], t_columns = [],
                      t_lookup_keys = [], t_lookup_vals = [], t_lookup_mask = 0\<rparr>,
                     \<lparr>t_id = 1, t_key = [0, 1], t_entities = [],
                      t_columns =
                        [\<lparr>c_info = example_info 0 100 7, c_data = Some [None, None], c_size = 0,
                          c_capacity = 2\<rparr>,
                         \<lparr>c_info = example_info 1 101 8, c_data = Some [None, None], c_size = 0,
                          c_capacity = 2\<rparr>],
                      t_lookup_keys = [0, 1, 4294967295, 4294967295],
                      t_lookup_vals = [0, 1, 0, 0], t_lookup_mask = 3\<rparr>,
                     \<lparr>t_id = 2, t_key = [0], t_entities = [entity_make 0 0],
                      t_columns =
                        [\<lparr>c_info = example_info 0 100 7,
                          c_data = Some [Some 42, None, None, None, None, None, None, None],
                          c_size = 1, c_capacity = 8\<rparr>],
                      t_lookup_keys = [0, 4294967295], t_lookup_vals = [0, 0], t_lookup_mask = 1\<rparr>]\<rparr>,
               w_empty_table = 0,
               w_locations =
                 [\<lparr>loc_tid = 2, loc_row = 0\<rparr>,
                  \<lparr>loc_tid = 0, loc_row = 0\<rparr>],
               w_version = 5\<rparr> :: nat world"
  let ?s7a = "\<lparr>w_entities = \<lparr>generations = [0, 0], fragment = [], alive_count = 2\<rparr>,
               w_registry =
                 \<lparr>type_ids = [(102, 2), (101, 1), (100, 0)],
                  type_infos =
                    [example_info 0 100 7, example_info 1 101 8, example_info 2 102 9]\<rparr>,
               w_storage =
                 \<lparr>s_schema_version = 3, s_key_tables = [([0], 2), ([0, 1], 1), ([], 0)],
                  s_tables =
                    [\<lparr>t_id = 0, t_key = [], t_entities = [entity_make 1 0], t_columns = [],
                      t_lookup_keys = [], t_lookup_vals = [], t_lookup_mask = 0\<rparr>,
                     \<lparr>t_id = 1, t_key = [0, 1], t_entities = [],
                      t_columns =
                        [\<lparr>c_info = example_info 0 100 7, c_data = Some [None, None], c_size = 0,
                          c_capacity = 2\<rparr>,
                         \<lparr>c_info = example_info 1 101 8, c_data = Some [None, None], c_size = 0,
                          c_capacity = 2\<rparr>],
                      t_lookup_keys = [0, 1, 4294967295, 4294967295],
                      t_lookup_vals = [0, 1, 0, 0], t_lookup_mask = 3\<rparr>,
                     \<lparr>t_id = 2, t_key = [0], t_entities = [entity_make 0 0],
                      t_columns =
                        [\<lparr>c_info = example_info 0 100 7,
                          c_data = Some [Some 42, None, None, None, None, None, None, None],
                          c_size = 1, c_capacity = 8\<rparr>],
                      t_lookup_keys = [0, 4294967295], t_lookup_vals = [0, 0], t_lookup_mask = 1\<rparr>]\<rparr>,
               w_empty_table = 0,
               w_locations =
                 [\<lparr>loc_tid = 2, loc_row = 0\<rparr>,
                  \<lparr>loc_tid = 0, loc_row = 0\<rparr>],
               w_version = 5\<rparr> :: nat world"
  let ?s7b = "\<lparr>w_entities = \<lparr>generations = [0, 0], fragment = [], alive_count = 2\<rparr>,
               w_registry =
                 \<lparr>type_ids = [(102, 2), (101, 1), (100, 0)],
                  type_infos =
                    [example_info 0 100 7, example_info 1 101 8, example_info 2 102 9]\<rparr>,
               w_storage =
                 \<lparr>s_schema_version = 3, s_key_tables = [([0], 2), ([0, 1], 1), ([], 0)],
                  s_tables =
                    [\<lparr>t_id = 0, t_key = [], t_entities = [entity_make 1 0], t_columns = [],
                      t_lookup_keys = [], t_lookup_vals = [], t_lookup_mask = 0\<rparr>,
                     \<lparr>t_id = 1, t_key = [0, 1], t_entities = [entity_make 0 0],
                      t_columns =
                        [\<lparr>c_info = example_info 0 100 7, c_data = Some [Some 42, None],
                          c_size = 1, c_capacity = 2\<rparr>,
                         \<lparr>c_info = example_info 1 101 8, c_data = Some [None, None], c_size = 1,
                          c_capacity = 2\<rparr>],
                      t_lookup_keys = [0, 1, 4294967295, 4294967295],
                      t_lookup_vals = [0, 1, 0, 0], t_lookup_mask = 3\<rparr>,
                     \<lparr>t_id = 2, t_key = [0], t_entities = [],
                      t_columns =
                        [\<lparr>c_info = example_info 0 100 7,
                          c_data = Some [None, None, None, None, None, None, None, None],
                          c_size = 0, c_capacity = 8\<rparr>],
                      t_lookup_keys = [0, 4294967295], t_lookup_vals = [0, 0], t_lookup_mask = 1\<rparr>]\<rparr>,
               w_empty_table = 0,
               w_locations =
                 [\<lparr>loc_tid = 1, loc_row = 0\<rparr>,
                  \<lparr>loc_tid = 0, loc_row = 0\<rparr>],
               w_version = 6\<rparr> :: nat world"
  have 0: "world_new = Some ?s0"
    by (simp add: world_new_Some em_init_def registry_init_def)
  have 1: "snd (world_register_component ?s0 100 4 4 7) = ?s1"
    by (simp add: world_register_component_def registry_add_def example_info_def)
  have 2: "snd (world_register_component ?s1 101 4 4 8) = ?s2"
    by (simp add: world_register_component_def registry_add_def example_info_def)
  have 3: "snd (world_register_component ?s2 102 4 4 9) = ?s3"
    by (simp add: world_register_component_def registry_add_def example_info_def)
  have 4: "world_reserve ?s3 [100, 101] 2 = Some ?s4"
    by (simp add: world_reserve_def registry_get_id_def create_table_eval)
       (simp add: lookup_eval storage_get_table_def table_reserve_def column_reserve_def
          column_grow_to_def storage_set_table_def bump_version_def)
  have 5: "world_create_entity ?s4 = Some (entity_make 0 0, ?s5)"
    by (simp add: world_create_entity_def em_create_entity_def ensure_location_capacity_def
        entity_index_make storage_get_table_def table_add_row_def set_table_def
        storage_set_table_def set_location_def bump_version_def location_default_def)
  have 6: "world_create_entity ?s5 = Some (entity_make 1 0, ?s6)"
    by (simp add: world_create_entity_def em_create_entity_def ensure_location_capacity_def
        entity_index_make storage_get_table_def table_add_row_def set_table_def
        storage_set_table_def set_location_def bump_version_def location_default_def)
  have 7: "world_add_component ?s6 (entity_make 0 0) 100 (Some 42) = Some ?s7"
  proof -
    have g: "get_table_for_signature ?s6 [0] = Some (2, ?s6a)"
      by (simp add: get_table_for_signature_def create_table_eval) (simp add: lookup_eval)
    have m: "migrate_entity_to_table ?s6a (entity_make 0 0) 2 = Some (0, ?s6b)"
      by (simp add: migrate_eval)
    show ?thesis
      by (simp add: add_eval g [simplified]) (simp add: m [simplified] construct_eval)
  qed
  have 8: "world_add_component ?s7 (entity_make 0 0) 101 (Some 43) = Some small_world"
  proof -
    have g: "get_table_for_signature ?s7 [0, Suc 0] = Some (1, ?s7a)"
      by (simp add: get_table_for_signature_def create_table_eval)
    have m: "migrate_entity_to_table ?s7a (entity_make 0 0) 1 = Some (0, ?s7b)"
      by (simp add: migrate_eval)
    show ?thesis
      by (simp add: add_eval g [simplified]) (simp add: m [simplified] construct_eval small_world_def)
  qed
  have c1: "length (type_infos (w_registry ?s1)) \<le> 2 ^ 30"
    and c2: "length (type_infos (w_registry ?s2)) \<le> 2 ^ 30"
    and c3: "length (type_infos (w_registry ?s3)) \<le> 2 ^ 30"
    and c4: "length (s_tables (w_storage ?s4)) \<le> 2 ^ 32 - 1"
    and c5: "length (generations (w_entities ?s5)) \<le> 2 ^ 32 - 1"
    and c6: "length (generations (w_entities ?s6)) \<le> 2 ^ 32 - 1"
    and c7: "length (s_tables (w_storage ?s7)) \<le> 2 ^ 32 - 1"
    and c8: "length (s_tables (w_storage small_world)) \<le> 2 ^ 32 - 1"
    by (simp_all add: small_world_def)
  have l6: "world_alive ?s6 (entity_make 0 0) \<longrightarrow> entity_live ?s6 (entity_make 0 0)"
    and l7: "world_alive ?s7 (entity_make 0 0) \<longrightarrow> entity_live ?s7 (entity_make 0 0)"
    by (simp_all add: entity_live_def entity_index_make)
  have t: "two_row_world = ?s6"
    by (simp add: two_row_world_def)
  note r0 = run_new [OF 0]
  note r1 = run_register [OF r0, of 100 4 4 7, unfolded 1, OF c1]
  note r2 = run_register [OF r1, of 101 4 4 8, unfolded 2, OF c2]
  note r3 = run_register [OF r2, of 102 4 4 9, unfolded 3, OF c3]
  note r4 = run_reserve [OF r3 4 c4]
  note r5 = run_create [OF r4 5 c5]
  note r6 = run_create [OF r5 6 c6]
  note r7 = run_add [OF r6 l6 7 c7]
  note r8 = run_add [OF r7 l7 8 c8]
  have "\<exists>w'. world_add_component two_row_world (entity_make 0 0) 100 (Some 42) = Some w'
          \<and> w_version w' = 5 \<and> length (s_tables (w_storage w')) = 3"
    unfolding t by (rule exI [where x = ?s7], intro conjI, rule 7) simp_all
  with r6 r8 show ?thesis
    unfolding t by blast
qed

lemma small_world_reachable: "world_reachable small_world"
  using small_world_run by (blast intro: world_run_reachable)


section \<open>The small store is well formed\<close>

lemma small_world_ok: "world_ok small_world"
  by (simp add: small_world_def world_ok_def table_ok_def column_ok_def)

lemma small_world_store_ok: "store_ok small_world"
  using small_world_ok
  by (simp add: store_ok_def store_wf_def within_capacity_def)
     (simp add: small_world_def key_tables_ok_def registry_ok_def keys_registered_def
        rows_located_def entity_index_make)

text \<open>
  C4 on the table of the first small store, which has two rows and two columns, and on the
  second small store, which the public operations produce: an entity is appended, the
  first row, which is not the last, is removed, and every table of the store has columns
  as long as its entities array.
\<close>

theorem table_sizes_invariant_witness:
  "table_sizes_ok example_table \<and> table_ok example_table \<and> 0 < table_size example_table
   \<and> 0 \<noteq> table_size example_table - 1
   \<and> world_reachable small_world
   \<and> (\<exists>row t'. table_add_row example_table (entity_make 2 1) = Some (row, t') \<and> table_sizes_ok t')
   \<and> (\<exists>row t'. table_add_row_uninitialized example_table (entity_make 2 1) = Some (row, t')
         \<and> table_sizes_ok t')
   \<and> (\<exists>swapped t'. table_remove_row_swap example_table 0 = Some (swapped, t') \<and> table_sizes_ok t')
   \<and> (\<exists>swapped t'. table_remove_row_swap_nodestroy example_table 0 = Some (swapped, t')
         \<and> table_sizes_ok t')
   \<and> world_sizes_ok small_world \<and> world_ok small_world"
proof -
  note t = table_sizes_invariant [of example_table small_world]
  have s: "table_sizes_ok example_table"
    by (rule table_ok_sizes [OF example_table_ok])
  have n: "0 < table_size example_table" "0 \<noteq> table_size example_table - 1"
    by (simp_all add: example_table_def table_size_def)
  from t s example_table_ok n small_world_reachable show ?thesis
    by blast
qed

section \<open>Adding a component keeps the components already held\<close>

text \<open>
  C3. In a well-formed store within capacity, let the entity \<open>e\<close> hold components of the
  types \<open>tyA\<close> and \<open>tyB\<close> with the values \<open>a\<close> and \<open>b\<close> (so \<open>e\<close> is alive), and let \<open>tyC\<close> be
  a registered type. Then \<^verbatim>\<open>add_component\<close> of \<open>tyC\<close> on \<open>e\<close>, with or without an initial
  value, completes, and \<^verbatim>\<open>get_component\<close> of \<open>tyA\<close> and of \<open>tyB\<close> on \<open>e\<close> in the
  resulting store return exactly \<open>a\<close> and \<open>b\<close>.
\<close>

theorem add_component_keeps_shared:
  fixes w :: "'v world"
  assumes "store_ok w" and "registry_get_id (w_registry w) tyC = Some cidC"
    and "world_get_component w e tyA = Some a" and "world_get_component w e tyB = Some b"
  shows "\<exists>w'. world_add_component w e tyC v = Some w'
           \<and> world_get_component w' e tyA = Some a \<and> world_get_component w' e tyB = Some b"
proof -
  from world_add_component_total [OF assms(1,2,3)] obtain w' where
    add: "world_add_component w e tyC v = Some w'"
    by blast
  from assms(1) have ok: "world_ok w" and kt: "key_tables_ok (w_storage w)"
    and b: "length (s_tables (w_storage w)) < 2 ^ 32 - 1"
    by (simp_all add: store_ok_def store_wf_def within_capacity_def)
  from add_component_keeps [OF ok kt b assms(3) add] add_component_keeps [OF ok kt b assms(4) add] add
  show ?thesis
    by blast
qed

text \<open>
  C3 on the second small store: its first entity holds the components \<open>100\<close> and \<open>101\<close>
  with the values \<open>42\<close> and \<open>43\<close>, and the component \<open>102\<close> is added to it, which creates
  the table of the three components.
\<close>

theorem add_component_keeps_shared_witness:
  "store_ok small_world
   \<and> registry_get_id (w_registry small_world) 102 = Some 2
   \<and> world_get_component small_world (entity_make 0 0) 100 = Some 42
   \<and> world_get_component small_world (entity_make 0 0) 101 = Some 43
   \<and> map_of (s_key_tables (w_storage small_world)) [0, 1, 2] = None
   \<and> (\<exists>w'. world_add_component small_world (entity_make 0 0) 102 (Some 77) = Some w'
         \<and> world_get_component w' (entity_make 0 0) 100 = Some 42
         \<and> world_get_component w' (entity_make 0 0) 101 = Some 43)"
proof -
  have reg: "registry_get_id (w_registry small_world) 102 = Some 2"
    by (simp add: small_world_def registry_get_id_def)
  have al: "world_alive small_world (entity_make 0 0)"
    by (simp add: world_alive_def em_alive_def small_world_def entity_index_make
        entity_generation_make entity_valid_make_0)
  have loc: "location_at small_world (entity_index (entity_make 0 0))
      = Some \<lparr>loc_tid = 1, loc_row = 0\<rparr>"
    by (simp add: small_world_def location_at_def entity_index_make)
  have v: "location_valid \<lparr>loc_tid = 1, loc_row = 0\<rparr>"
    by (simp add: location_valid_def INVALID_TABLE_def)
  let ?t = "s_tables (w_storage small_world) ! 1"
  have t: "storage_get_table (w_storage small_world) (loc_tid \<lparr>loc_tid = 1, loc_row = 0\<rparr>)
      = Some ?t"
    by (simp add: small_world_def storage_get_table_def)
  have h: "table_has ?t 0" "table_has ?t 1"
    by (simp_all add: small_world_def table_has_def key_contains_def)
  have r: "loc_row \<lparr>loc_tid = 1, loc_row = 0\<rparr> < table_size ?t"
    by (simp add: small_world_def table_size_def)
  have a: "world_get_component small_world (entity_make 0 0) 100 = Some 42"
  proof (rule world_get_component_SomeI [OF al _ loc v t h(1) r])
    show "registry_get_id (w_registry small_world) 100 = Some 0"
      by (simp add: small_world_def registry_get_id_def)
    show "table_read ?t (loc_row \<lparr>loc_tid = 1, loc_row = 0\<rparr>) 0 = Some (Some 42)"
      by (simp add: small_world_def table_read_def table_get_column_def
          table_column_index_def lower_bound_def column_read_def)
  qed
  have b: "world_get_component small_world (entity_make 0 0) 101 = Some 43"
  proof (rule world_get_component_SomeI [OF al _ loc v t h(2) r])
    show "registry_get_id (w_registry small_world) 101 = Some 1"
      by (simp add: small_world_def registry_get_id_def)
    show "table_read ?t (loc_row \<lparr>loc_tid = 1, loc_row = 0\<rparr>) 1 = Some (Some 43)"
      by (simp add: small_world_def table_read_def table_get_column_def
          table_column_index_def lower_bound_def column_read_def)
  qed
  have k: "map_of (s_key_tables (w_storage small_world)) [0, 1, 2] = None"
    by (simp add: small_world_def)
  from add_component_keeps_shared [OF small_world_store_ok reg a b, of "Some 77"]
    small_world_store_ok reg a b k
  show ?thesis
    by blast
qed


section \<open>Locations and rows: instances\<close>









end
